(* ===== verification/Xeq_Prelude.thy ===== *)
theory Xeq_Prelude
  imports Main "HOL-Library.Word"
begin

text \<open>
  Shared vocabulary of the development: the machine integer types of the C++ sources, the generic
  facts on words, powers of two, lists and options that more than one component uses, and the
  contract of a self-delimiting byte encoding that the serialisation components satisfy.
\<close>

unbundle bit_operations_syntax

section \<open>Machine types\<close>

type_synonym u8 = "8 word"
type_synonym u16 = "16 word"
type_synonym u32 = "32 word"
type_synonym u64 = "64 word"
type_synonym bytes = "8 word list"

text \<open>Arithmetic on \<^verbatim>\<open>size_t\<close> kept as a natural number is taken modulo this constant.\<close>

definition SIZE_T_MOD :: nat where
  "SIZE_T_MOD = 2 ^ 64"

section \<open>Words read as natural numbers\<close>

lemma bit_less_power:
  fixes a :: "'a::len word"
  assumes "unat a < 2 ^ n" "bit a i"
  shows "i < n"
proof (rule ccontr)
  assume "\<not> i < n"
  then obtain k where i: "i = n + k" by (metis le_add_diff_inverse not_less)
  have "unat (drop_bit n a) = 0" using assms(1) by (subst unat_drop_bit_eq) (simp add: drop_bit_eq_div)
  then have "drop_bit n a = 0" by (simp add: unat_eq_0)
  moreover have "bit (drop_bit n a) k" using assms(2) i by (simp add: bit_simps)
  ultimately show False by simp
qed

lemma unat_push_bit:
  fixes v :: "'a::len word"
  shows "unat (push_bit n v) = (unat v * 2 ^ n) mod 2 ^ LENGTH('a)"
proof -
  have "push_bit n v = of_nat (unat v * 2 ^ n)" by (simp add: push_bit_eq_mult)
  then show ?thesis by (simp only: unat_of_nat)
qed

lemma unat_or_disjoint:
  fixes a v :: "'a::len word"
  assumes "unat a < 2 ^ n" and "unat v * 2 ^ n < 2 ^ LENGTH('a)"
  shows "unat (a OR push_bit n v) = (unat a + unat v * 2 ^ n) mod 2 ^ LENGTH('a)"
proof -
  have "a AND push_bit n v = 0"
    using bit_less_power[OF assms(1)] by (fastforce intro!: bit_word_eqI simp: bit_simps)
  then have "a OR push_bit n v = a + push_bit n v"
    using word_plus_and_or[of a "push_bit n v"] by simp
  then show ?thesis using assms(2) by (simp add: unat_word_ariths unat_push_bit)
qed

lemma unat_and_127: "unat (a AND 127 :: 'a::len word) = unat a mod 128"
proof -
  have "(127 :: 'a word) = mask 7" by (simp add: mask_eq_exp_minus_1)
  then have "unat (a AND 127) = unat (take_bit 7 a)" by (simp add: take_bit_eq_mask)
  also have "\<dots> = take_bit 7 (unat a)" by (rule unsigned_take_bit_eq)
  finally show ?thesis by (simp add: take_bit_eq_mod)
qed

lemma byte_or_128: 
  assumes "unat (a :: 8 word) < 128"
  shows "unat (a OR 128) = unat a + 128"
  using unat_or_disjoint[of a 7 1] assms by (simp add: push_bit_eq_mult)

lemma byte_and_128: "((a :: 8 word) AND 128 \<noteq> 0) = (128 \<le> unat a)"
proof -
  have "(128 :: 8 word) = 2 ^ 7" by simp
  then have "(a AND 128 \<noteq> 0) = bit a 7" 
   by (metis and_exp_eq_0_iff_not_bit)
  also have "\<dots> = bit (unat a) 7" by (simp add: bit_unsigned_iff)
  also have "\<dots> = odd (unat a div 128)" by (simp add: bit_iff_odd)
  also have "\<dots> = (128 \<le> unat a)"
  proof (cases "unat a < 128")
    case False
    moreover have "unat a < 256" using unsigned_less[of a, where 'a=nat] by simp
    ultimately show ?thesis by (simp add: le_div_geq)
  qed simp
  finally show ?thesis .
qed

lemma unat_ucast_byte:
  "unat (ucast (a :: 8 word) :: 'a::len word) = unat a mod 2 ^ LENGTH('a)"
  by (simp add: unsigned_ucast_eq take_bit_eq_mod)

lemma unat_ucast_to_byte:
  "unat (ucast (a :: 'a::len word) :: 8 word) = unat a mod 256"
  by (simp add: unsigned_ucast_eq take_bit_eq_mod)

lemma unat_drop7: "unat (drop_bit 7 a :: 'a::len word) = unat a div 128"
  by (subst unat_drop_bit_eq) (simp add: drop_bit_eq_div)

section \<open>Powers of two\<close>

lemma pow_shift: assumes "y * 2 ^ s < (2::nat) ^ L" "s \<le> L" shows "y < 2 ^ (L - s)"
proof -
  have "(2::nat) ^ L = 2 ^ (L - s) * 2 ^ s" using assms(2) by (simp flip: power_add)
  then show ?thesis using assms(1) by simp
qed

lemma pow_fit: assumes "y < 2 ^ (L - s)" "s \<le> L" shows "y * 2 ^ s < (2::nat) ^ L"
proof -
  have "y * 2 ^ s < 2 ^ (L - s) * (2::nat) ^ s" using assms(1) by simp
  then show ?thesis using assms(2) by (simp flip: power_add)
qed

lemma shift_less: assumes "y * 2 ^ s < (2::nat) ^ L" "y \<noteq> 0" shows "s < L"
proof -
  have "2 ^ s \<le> y * 2 ^ s" using assms(2) by simp
  then have "(2::nat) ^ s < 2 ^ L" using assms(1) by linarith
  then show ?thesis by simp
qed

lemma shift7_less:
  assumes "128 \<le> y" "y * 2 ^ s < (2::nat) ^ L"
  shows "s + 7 < L"
proof -
  have "2 ^ (s + 7) = 128 * (2::nat) ^ s" by (simp add: power_add)
  also have "\<dots> \<le> y * 2 ^ s" using assms(1) by (rule mult_le_mono1)
  finally have "2 ^ (s + 7) < (2::nat) ^ L" using assms(2) by (rule le_less_trans)
  then show ?thesis by simp
qed

lemma digit_split: "y mod 128 * 2 ^ s + y div 128 * 2 ^ (s + 7) = y * (2::nat) ^ s"
proof -
  have "y * (2::nat) ^ s = (y div 128 * 128 + y mod 128) * 2 ^ s"
    by (simp only: div_mult_mod_eq)
  also have "\<dots> = y mod 128 * 2 ^ s + y div 128 * (128 * 2 ^ s)"
    by (simp only: add_mult_distrib mult.assoc add.commute)
  finally show ?thesis by (simp add: power_add mult.commute)
qed

lemma digit_bound:
  assumes "x < 2 ^ s" shows "x + y mod 128 * 2 ^ s < (2::nat) ^ (s + 7)"
proof -
  have "y mod 128 * 2 ^ s \<le> 127 * 2 ^ s" by (rule mult_le_mono1) simp
  moreover have "(2::nat) ^ (s + 7) = 127 * 2 ^ s + 2 ^ s" by (simp add: power_add)
  ultimately show ?thesis using assms by linarith
qed

section \<open>Conditionals and ascending lists\<close>

lemma sorted_wrt_step:
  "sorted_wrt (<) (t # x # xs) \<longleftrightarrow> (t :: 'a :: order) < x \<and> sorted_wrt (<) (x # xs)"
  by (rule sorted_wrt2) simp

lemma if_not_None:
  "(b \<Longrightarrow> x \<noteq> None) \<Longrightarrow> (\<not> b \<Longrightarrow> y \<noteq> None) \<Longrightarrow> (if b then x else y) \<noteq> None"
  by simp

lemma if_intro: "(b \<Longrightarrow> P x) \<Longrightarrow> (\<not> b \<Longrightarrow> P y) \<Longrightarrow> P (if b then x else y)"
  by simp

lemma distinct_bounded:
  assumes "distinct xs" "\<forall>x\<in>set xs. x < n" shows "length xs \<le> (n :: nat)"
proof -
  have "set xs \<subseteq> {..<n}" using assms(2) by auto
  then have "card (set xs) \<le> card {..<n}" by (rule card_mono[OF finite_lessThan])
  then show ?thesis using assms(1) by (simp add: distinct_card)
qed

lemma sint_small:
  assumes "unat (w :: u32) < 2 ^ 31"
  shows "sint w = int (unat w)"
proof -
  have nb: "\<not> bit (uint w) 31"
    using assms bit_less_power[of w 31 31] by (auto simp only: bit_uint_iff)
  have "sint w = signed_take_bit 31 (uint w)" by (simp only: sint_uint) simp
  also have "\<dots> = take_bit 31 (uint w)" using nb by (rule signed_take_bit_eq_if_positive)
  also have "\<dots> = uint w"
  proof -
    have "int (unat w) < int (2 ^ 31)" using assms by (simp only: of_nat_less_iff)
    then show ?thesis by (simp add: take_bit_int_eq_self_iff)
  qed
  finally show ?thesis by simp
qed

lemma u64_add_of_nat:
  assumes "unat (a :: u64) + n < 2 ^ 64" shows "unat (a + of_nat n) = unat a + n"
proof -
  have "unat (of_nat n :: u64) = n" using assms by (simp add: unat_of_nat)
  then show ?thesis using assms by (simp add: unat_word_ariths)
qed

section \<open>Self-delimiting encodings\<close>

text \<open>
  What a reader of a byte stream relies on: decoding an encoded value followed by anything returns
  the value and what follows, and whatever decodes is exactly the encoding of the result.  The
  second law is what makes an encoding canonical (no two byte strings stand for one value).
\<close>

locale codec =
  fixes enc :: "'v \<Rightarrow> bytes"
    and dec :: "bytes \<Rightarrow> ('v \<times> bytes) option"
  assumes dec_enc: "dec (enc v @ rest) = Some (v, rest)"
    and enc_dec: "dec bs = Some (v, rest) \<Longrightarrow> bs = enc v @ rest"
begin

lemma prefix_free:
  assumes "enc v @ r = enc v' @ r'"
  shows "v = v' \<and> r = r'"
proof -
  have "dec (enc v @ r) = dec (enc v' @ r')" by (simp only: assms)
  then show ?thesis unfolding dec_enc by simp
qed

lemma enc_inj: "inj enc"
proof (rule injI)
  fix v v'
  assume "enc v = enc v'"
  then have "enc v @ [] = enc v' @ []" by simp
  then show "v = v'" using prefix_free by blast
qed

lemma dec_iff: "dec bs = Some (v, rest) \<longleftrightarrow> bs = enc v @ rest"
  using dec_enc enc_dec by blast

end

end
