(* ===== verification/Async_Js.thy ===== *)
theory Async_Js
  imports Xeq_Prelude "HOL-Library.Sublist"
begin

text \<open>
  What the wallet scripts use of JavaScript: values, asynchronous functions and the event loop.
  A value is a JSON value or \<^verbatim>\<open>undefined\<close>; numbers are passed through unchanged and never computed
  with, so an integer stands for them.  The body of an \<^verbatim>\<open>async\<close> function is a tree: it returns, throws
  (its promise is rejected), writes a line to the console, or awaits the answer of a remote object and
  goes on with it.  Several such bodies run interleaved: at every \<^verbatim>\<open>await\<close> another one may go on, which
  the relation \<open>js_step\<close> describes for any remote objects.
\<close>

section \<open>Values and remote calls\<close>

datatype js_value =
    Undefined | Null | Bool bool | Num int | Str string
  | Arr "js_value list" | Obj "(string \<times> js_value) list"

text \<open>The answer to a call: \<^term>\<open>Inl e\<close> is a throw or a rejected promise, \<^term>\<open>Inr v\<close> the value.\<close>

type_synonym answer = "js_value + js_value"

section \<open>Asynchronous bodies\<close>

datatype ('c, 'q, 'a) async =
    Return 'a
  | Throw js_value
  | Log string "js_value list" "('c, 'q, 'a) async"
  | Await 'c 'q "answer \<Rightarrow> ('c, 'q, 'a) async"

primrec async_bind :: "('c, 'q, 'a) async \<Rightarrow> ('a \<Rightarrow> ('c, 'q, 'b) async) \<Rightarrow> ('c, 'q, 'b) async" where
  "async_bind (Return a) f = f a"
| "async_bind (Throw e) f = Throw e"
| "async_bind (Log msg args t) f = Log msg args (async_bind t f)"
| "async_bind (Await c q k) f = Await c q (\<lambda>r. async_bind (k r) f)"

primrec try_catch :: "('c, 'q, 'a) async \<Rightarrow> (js_value \<Rightarrow> ('c, 'q, 'a) async) \<Rightarrow> ('c, 'q, 'a) async" where
  "try_catch (Return a) h = Return a"
| "try_catch (Throw e) h = h e"
| "try_catch (Log msg args t) h = Log msg args (try_catch t h)"
| "try_catch (Await c q k) h = Await c q (\<lambda>r. try_catch (k r) h)"

text \<open>\<^verbatim>\<open>await client.method(...)\<close>\<close>

definition await_call :: "'c \<Rightarrow> 'q \<Rightarrow> ('c, 'q, js_value) async" where
  "await_call c q = Await c q (\<lambda>r. case r of Inl e \<Rightarrow> Throw e | Inr v \<Rightarrow> Return v)"

lemma async_bind_return [simp]: "async_bind t Return = t"
  by (induction t) auto

lemma async_bind_assoc: "async_bind (async_bind t f) g = async_bind t (\<lambda>a. async_bind (f a) g)"
  by (induction t) auto

section \<open>The event loop\<close>

record ('c, 'q, 'w) js_state =
  world :: 'w
  console :: "(string \<times> js_value list) list"
  tasks :: "('c, 'q, js_value) async list"
  calls :: "(nat \<times> 'c \<times> 'q \<times> answer) list"

type_synonym ('c, 'q, 'w) service = "'c \<Rightarrow> 'q \<Rightarrow> 'w \<Rightarrow> answer \<Rightarrow> 'w \<Rightarrow> bool"

inductive js_step :: "('c, 'q, 'w) service \<Rightarrow> ('c, 'q, 'w) js_state \<Rightarrow> ('c, 'q, 'w) js_state \<Rightarrow> bool"
  for serve where
  log: "i < length (tasks s) \<Longrightarrow> tasks s ! i = Log msg args t \<Longrightarrow>
    js_step serve s (s\<lparr>console := console s @ [(msg, args)], tasks := (tasks s)[i := t]\<rparr>)"
| reply: "i < length (tasks s) \<Longrightarrow> tasks s ! i = Await c q k \<Longrightarrow> serve c q (world s) r w \<Longrightarrow>
    js_step serve s
      (s\<lparr>world := w, tasks := (tasks s)[i := k r], calls := calls s @ [(i, c, q, r)]\<rparr>)"

definition js_init :: "'w \<Rightarrow> ('c, 'q, js_value) async list \<Rightarrow> ('c, 'q, 'w) js_state" where
  "js_init w ts = \<lparr>world = w, console = [], tasks = ts, calls = []\<rparr>"

definition calls_of :: "nat \<Rightarrow> ('c, 'q, 'w) js_state \<Rightarrow> ('c \<times> 'q \<times> answer) list" where
  "calls_of i s = map snd (filter (\<lambda>c. fst c = i) (calls s))"

section \<open>One body by itself\<close>

text \<open>\<open>derives p cs t\<close>: the body \<^term>\<open>p\<close>, given the answers in \<^term>\<open>cs\<close> to the calls it made, is at
  \<^term>\<open>t\<close>.\<close>

inductive derives :: "('c, 'q, 'a) async \<Rightarrow> ('c \<times> 'q \<times> answer) list \<Rightarrow> ('c, 'q, 'a) async \<Rightarrow> bool"
  for p where
  derives_start: "derives p [] p"
| derives_log: "derives p cs (Log msg args t) \<Longrightarrow> derives p cs t"
| derives_reply: "derives p cs (Await c q k) \<Longrightarrow> derives p (cs @ [(c, q, r)]) (k r)"

text \<open>
  Bodies do not interfere: in every state of every interleaving, each task is where its own body
  leads on the answers that were given to it.
\<close>

lemma length_step: "js_step serve s s' \<Longrightarrow> length (tasks s') = length (tasks s)"
  by (induction rule: js_step.induct) auto

lemma js_step_derives:
  assumes "js_step serve s s'" "\<forall>i<length (tasks s). derives (ps ! i) (calls_of i s) (tasks s ! i)"
  shows "\<forall>i<length (tasks s'). derives (ps ! i) (calls_of i s') (tasks s' ! i)"
  using assms
proof (induction rule: js_step.induct)
  case (log i s msg args t)
  then show ?case by (auto simp: nth_list_update calls_of_def) (metis derives_log)
next
  case (reply i s c q k r w)
  show ?case
  proof (intro allI impI)
    fix j
    let ?s = "s\<lparr>world := w, tasks := (tasks s)[i := k r], calls := calls s @ [(i, c, q, r)]\<rparr>"
    assume j: "j < length (tasks ?s)"
    then have IH: "derives (ps ! j) (calls_of j s) (tasks s ! j)" using reply.prems by simp
    show "derives (ps ! j) (calls_of j ?s) (tasks ?s ! j)"
    proof (cases "j = i")
      case True
      then have "calls_of j ?s = calls_of j s @ [(c, q, r)]" by (simp add: calls_of_def)
      then show ?thesis using True IH reply.hyps derives_reply by fastforce
    next
      case False
      then show ?thesis using IH by (simp add: calls_of_def)
    qed
  qed
qed

lemma reachable_derives:
  assumes "(js_step serve)\<^sup>*\<^sup>* (js_init w ps) s"
  shows "length (tasks s) = length ps \<and> (\<forall>i<length ps. derives (ps ! i) (calls_of i s) (tasks s ! i))"
  using assms
proof (induction rule: rtranclp_induct)
  case base
  then show ?case by (auto simp: js_init_def calls_of_def intro: derives_start)
next
  case (step s s')
  then show ?case using js_step_derives[OF step.hyps(2), of ps] length_step by metis
qed

lemma reachable_calls:
  assumes "(js_step serve)\<^sup>*\<^sup>* (js_init w ps) s" "(i, c, q, r) \<in> set (calls s)"
  shows "i < length ps \<and> (c, q, r) \<in> set (calls_of i s)"
proof -
  have "\<forall>x\<in>set (calls s). fst x < length ps"
    using assms(1)
  proof (induction rule: rtranclp_induct)
    case base
    then show ?case by (simp add: js_init_def)
  next
    case (step s s')
    have "length (tasks s) = length ps" using reachable_derives[OF step.hyps(1)] by blast
    with step.hyps(2) step.IH show ?case by (induction rule: js_step.induct) auto
  qed
  then show ?thesis using assms(2) by (force simp: calls_of_def)
qed

lemma reachable_task:
  assumes "(js_step serve)\<^sup>*\<^sup>* (js_init w ps) s" "i < length ps"
  shows "derives (ps ! i) (calls_of i s) (tasks s ! i)"
  using reachable_derives[OF assms(1)] assms(2) by blast

section \<open>Runs are finite and end with every body finished\<close>

text \<open>\<open>within n t\<close>: the body \<^term>\<open>t\<close> takes at most \<^term>\<open>n\<close> steps, whatever the answers.\<close>

inductive within :: "nat \<Rightarrow> ('c, 'q, 'a) async \<Rightarrow> bool" where
  within_return: "within n (Return a)"
| within_throw: "within n (Throw e)"
| within_log: "within n t \<Longrightarrow> within (Suc n) (Log msg args t)"
| within_await: "(\<And>r. within n (k r)) \<Longrightarrow> within (Suc n) (Await c q k)"

inductive_simps within_simps [simp]:
  "within n (Return a)" "within n (Throw e)" "within n (Log msg args t)" "within n (Await c q k)"

lemma within_update:
  assumes "list_all2 within ns ts" "i < length ts"
    "\<And>m. within m (ts ! i) \<Longrightarrow> \<exists>m'. m = Suc m' \<and> within m' t"
  shows "\<exists>ns'. list_all2 within ns' (ts[i := t]) \<and> Suc (sum_list ns') = sum_list ns"
proof -
  have len: "length ns = length ts" using assms(1) by (rule list_all2_lengthD)
  have "within (ns ! i) (ts ! i)" using assms(1,2) len by (simp add: list_all2_nthD)
  then obtain m' where m': "ns ! i = Suc m'" "within m' t" using assms(3) by blast
  have "list_all2 within (ns[i := m']) (ts[i := t])" using assms(1) m'(2) by (rule list_all2_update_cong)
  moreover have "Suc (sum_list (ns[i := m'])) = sum_list ns"
    using m'(1) assms(2) len sum_list_update[of i ns m'] elem_le_sum_list[of i ns] by simp
  ultimately show ?thesis by blast
qed

lemma js_step_within:
  assumes "js_step serve s s'" "list_all2 within ns (tasks s)"
  shows "\<exists>ns'. list_all2 within ns' (tasks s') \<and> Suc (sum_list ns') = sum_list ns"
  using assms
proof (induction rule: js_step.induct)
  case (log i s msg args t)
  then show ?case using within_update[of ns "tasks s" i t] by auto
next
  case (reply i s c q k r w)
  then show ?case using within_update[of ns "tasks s" i "k r"] by auto
qed

lemma run_length:
  assumes "(js_step serve ^^ n) s s'" "list_all2 within ns (tasks s)"
  shows "n \<le> sum_list ns"
  using assms
proof (induction n arbitrary: s ns)
  case (Suc n)
  obtain s1 where s1: "js_step serve s s1" "(js_step serve ^^ n) s1 s'"
    using Suc.prems(1) relpowp_Suc_D2 by metis
  obtain ns1 where "list_all2 within ns1 (tasks s1)" "Suc (sum_list ns1) = sum_list ns"
    using js_step_within[OF s1(1) Suc.prems(2)] by blast
  then show ?case using Suc.IH[OF s1(2)] by fastforce
qed simp

definition finished :: "('c, 'q, 'a) async \<Rightarrow> bool" where
  "finished t \<longleftrightarrow> (case t of Return a \<Rightarrow> True | Throw e \<Rightarrow> True | _ \<Rightarrow> False)"

lemma finished_simps [simp]: "finished (Return a)" "finished (Throw e)"
  "\<not> finished (Log msg args t)" "\<not> finished (Await c q k)"
  by (simp_all add: finished_def)

text \<open>A stuck state is a finished one when every call gets some answer.\<close>

locale answering =
  fixes serve :: "('c, 'q, 'w) service"
  assumes answered: "\<exists>r w'. serve c q w r w'"
begin

lemma progress:
  assumes "i < length (tasks s)" "\<not> finished (tasks s ! i)"
  shows "\<exists>s'. js_step serve s s'"
proof (cases "tasks s ! i")
  case (Log msg args t)
  then show ?thesis using js_step.log[OF assms(1)] by blast
next
  case (Await c q k)
  obtain r w' where "serve c q (world s) r w'" using answered by blast
  then show ?thesis using js_step.reply[OF assms(1) Await] by blast
qed (use assms(2) in simp_all)

lemma stuck_finished:
  assumes "\<nexists>s'. js_step serve s s'"
  shows "\<forall>t\<in>set (tasks s). finished t"
  using assms progress by (metis in_set_conv_nth)

lemma ends:
  assumes "list_all2 within ns (tasks s)"
  shows "\<exists>s'. (js_step serve)\<^sup>*\<^sup>* s s' \<and> (\<nexists>s''. js_step serve s' s'')"
  using assms
proof (induction "sum_list ns" arbitrary: s ns rule: less_induct)
  case less
  show ?case
  proof (cases "\<exists>s1. js_step serve s s1")
    case True
    then obtain s1 where s1: "js_step serve s s1" by blast
    obtain ns1 where "list_all2 within ns1 (tasks s1)" "Suc (sum_list ns1) = sum_list ns"
      using js_step_within[OF s1 less.prems] by blast
    then obtain s' where "(js_step serve)\<^sup>*\<^sup>* s1 s'" "\<nexists>s''. js_step serve s' s''"
      using less.hyps[of ns1 s1] by auto
    then show ?thesis using s1 by (meson converse_rtranclp_into_rtranclp)
  next
    case False
    then show ?thesis by blast
  qed
qed

end

section \<open>Running one body to the end\<close>

primrec run_alone :: "('c \<Rightarrow> 'q \<Rightarrow> 'w \<Rightarrow> answer \<times> 'w) \<Rightarrow> ('c, 'q, 'a) async \<Rightarrow> 'w \<Rightarrow>
    (js_value + 'a) \<times> (string \<times> js_value list) list \<times> 'w" where
  "run_alone call (Return a) w = (Inr a, [], w)"
| "run_alone call (Throw e) w = (Inl e, [], w)"
| "run_alone call (Log msg args t) w =
     (let (res, out, w') = run_alone call t w in (res, (msg, args) # out, w'))"
| "run_alone call (Await c q k) w = (let (r, w') = call c q w in run_alone call (k r) w')"

definition serve_of :: "('c \<Rightarrow> 'q \<Rightarrow> 'w \<Rightarrow> answer \<times> 'w) \<Rightarrow> ('c, 'q, 'w) service" where
  "serve_of call c q w r w' \<longleftrightarrow> call c q w = (r, w')"

lemma answering_serve_of: "answering (serve_of call)"
  by unfold_locales (auto simp: serve_of_def intro: prod.exhaust)

text \<open>Running a body to the end is one of the runs of the event loop.\<close>

lemma run_alone_steps:
  assumes "run_alone call t w = (res, out, w')" "tasks s = [t]" "world s = w"
  shows "\<exists>s'. (js_step (serve_of call))\<^sup>*\<^sup>* s s' \<and> world s' = w' \<and> console s' = console s @ out
    \<and> tasks s' = [case res of Inl e \<Rightarrow> Throw e | Inr a \<Rightarrow> Return a]"
  using assms
proof (induction t arbitrary: w s out)
  case (Return a)
  then show ?case by (intro exI[of _ s]) auto
next
  case (Throw e)
  then show ?case by (intro exI[of _ s]) auto
next
  case (Log msg args t)
  let ?s = "s\<lparr>console := console s @ [(msg, args)], tasks := [t]\<rparr>"
  have step: "js_step (serve_of call) s ?s"
    using js_step.log[of 0 s msg args t "serve_of call"] Log.prems(2) by simp
  obtain out1 where "run_alone call t w = (res, out1, w')" "out = (msg, args) # out1"
    using Log.prems(1) by (auto split: prod.splits)
  then obtain s' where "(js_step (serve_of call))\<^sup>*\<^sup>* ?s s'" "world s' = w'" "console s' = console ?s @ out1"
    "tasks s' = [case res of Inl e \<Rightarrow> Throw e | Inr a \<Rightarrow> Return a]"
    using Log.IH[of w out1 ?s] Log.prems(3) by auto
  then show ?case
    using converse_rtranclp_into_rtranclp[of "js_step (serve_of call)", OF step] \<open>out = _\<close>
    by (intro exI[of _ s']) simp
next
  case (Await c q k)
  obtain r w1 where c: "call c q w = (r, w1)" by fastforce
  let ?s = "s\<lparr>world := w1, tasks := [k r], calls := calls s @ [(0, c, q, r)]\<rparr>"
  have step: "js_step (serve_of call) s ?s"
    using js_step.reply[of 0 s c q k "serve_of call" r w1] Await.prems(2,3) c by (simp add: serve_of_def)
  have "run_alone call (k r) w1 = (res, out, w')" using Await.prems(1) c by simp
  then obtain s' where "(js_step (serve_of call))\<^sup>*\<^sup>* ?s s'" "world s' = w'" "console s' = console ?s @ out"
    "tasks s' = [case res of Inl e \<Rightarrow> Throw e | Inr a \<Rightarrow> Return a]"
    using Await.IH[of "k r" w1 out ?s] by auto
  then show ?case
    using converse_rtranclp_into_rtranclp[of "js_step (serve_of call)", OF step]
    by (intro exI[of _ s']) simp
qed

section \<open>Bodies that never reject and the calls a body makes\<close>

inductive never_throws :: "('c, 'q, 'a) async \<Rightarrow> bool" where
  "never_throws (Return a)"
| "never_throws t \<Longrightarrow> never_throws (Log msg args t)"
| "(\<And>r. never_throws (k r)) \<Longrightarrow> never_throws (Await c q k)"

inductive_simps never_throws_simps [simp]:
  "never_throws (Return a)" "never_throws (Throw e)" "never_throws (Log msg args t)"
  "never_throws (Await c q k)"

lemma never_throws_try_catch:
  "(\<And>e. never_throws (h e)) \<Longrightarrow> never_throws (try_catch t h)"
  by (induction t) auto

lemma try_catch_never_throws: "never_throws t \<Longrightarrow> try_catch t h = t"
  by (induction rule: never_throws.induct) auto

lemma never_throws_derives: "derives p cs t \<Longrightarrow> never_throws p \<Longrightarrow> never_throws t"
  by (induction rule: derives.induct) auto

inductive only_calls :: "('c \<Rightarrow> 'q \<Rightarrow> bool) \<Rightarrow> ('c, 'q, 'a) async \<Rightarrow> bool" for P where
  "only_calls P (Return a)"
| "only_calls P (Throw e)"
| "only_calls P t \<Longrightarrow> only_calls P (Log msg args t)"
| "P c q \<Longrightarrow> (\<And>r. only_calls P (k r)) \<Longrightarrow> only_calls P (Await c q k)"

inductive_simps only_calls_simps [simp]:
  "only_calls P (Return a)" "only_calls P (Throw e)" "only_calls P (Log msg args t)"
  "only_calls P (Await c q k)"

lemma only_calls_bind:
  "only_calls P t \<Longrightarrow> (\<And>a. only_calls P (f a)) \<Longrightarrow> only_calls P (async_bind t f)"
  by (induction t) auto

lemma only_calls_try_catch:
  "only_calls P t \<Longrightarrow> (\<And>e. only_calls P (h e)) \<Longrightarrow> only_calls P (try_catch t h)"
  by (induction t) auto

lemma only_calls_derives:
  "derives p cs t \<Longrightarrow> only_calls P p \<Longrightarrow> only_calls P t \<and> (\<forall>(c, q, r)\<in>set cs. P c q)"
  by (induction rule: derives.induct) auto

text \<open>A try-block never takes more steps for its handler than the handler's own.\<close>

lemma within_mono: "within n t \<Longrightarrow> n \<le> m \<Longrightarrow> within m t"
proof (induction arbitrary: m rule: within.induct)
  case (within_log n t msg args)
  then show ?case by (cases m) auto
next
  case (within_await n k c q)
  then show ?case by (cases m) auto
qed simp_all

lemma within_bind:
  "within n t \<Longrightarrow> (\<And>a. within m (f a)) \<Longrightarrow> within (n + m) (async_bind t f)"
  by (induction arbitrary: m rule: within.induct) (auto intro: within_mono[OF _ le_add2])

lemma within_try_catch:
  "within n t \<Longrightarrow> (\<And>e. within m (h e)) \<Longrightarrow> within (n + m) (try_catch t h)"
  by (induction arbitrary: m rule: within.induct) (auto intro: within_mono[OF _ le_add2])

lemma run_alone_bind:
  "run_alone call (async_bind t f) w =
     (case run_alone call t w of
        (Inl e, out, w') \<Rightarrow> (Inl e, out, w')
      | (Inr a, out, w') \<Rightarrow>
          (case run_alone call (f a) w' of (res, out', w'') \<Rightarrow> (res, out @ out', w'')))"
  by (induction t arbitrary: w) (auto split: prod.splits sum.splits)

lemma run_alone_never_throws:
  "never_throws t \<Longrightarrow> \<exists>a out w'. run_alone call t w = (Inr a, out, w')"
proof (induction arbitrary: w rule: never_throws.induct)
  case (2 t msg args)
  then show ?case by (metis (no_types, lifting) case_prod_conv run_alone.simps(3))
next
  case (3 k c q)
  obtain r w1 where "call c q w = (r, w1)" by fastforce
  then show ?case using 3 by simp
qed simp

end
