(* ===== verification/Swap_Backend.thy ===== *)
theory Swap_Backend
  imports Async_Js
begin

text \<open>
  The swap backend \<^verbatim>\<open>src/swap_backend.js\<close>: the class \<^verbatim>\<open>XEQSwapBackend\<close> with its constructor and its
  three asynchronous methods, and the example \<^verbatim>\<open>main\<close>.  The class \<^verbatim>\<open>WalletClient\<close> of the package
  \<^verbatim>\<open>@arqma/arqma-rpc\<close> is not part of the repository: its constructor is the argument \<open>WalletClient\<close>
  below, its objects are of any type \<open>'c\<close>, and what its three methods answer is left to the service of
  the event loop in \<open>Async_Js\<close>.
\<close>

section \<open>Wallet clients\<close>

record client_options =
  client_host :: string
  client_port :: nat
  client_protocol :: string

datatype wallet_call = GetBalance | GetAddress | Transfer js_value

type_synonym 'c wallet_async = "('c, wallet_call, js_value) async"

section \<open>The class\<close>

record 'c XEQSwapBackend =
  sourceWalletClient :: 'c
  targetWalletClient :: 'c

definition source_options :: client_options where
  "source_options = \<lparr>client_host = ''127.0.0.1'', client_port = 18090, client_protocol = ''http''\<rparr>"

definition target_options :: client_options where
  "target_options = \<lparr>client_host = ''127.0.0.1'', client_port = 18096, client_protocol = ''http''\<rparr>"

definition new_XEQSwapBackend ::
    "(client_options \<Rightarrow> js_value + 'c) \<Rightarrow> js_value + 'c XEQSwapBackend" where
  "new_XEQSwapBackend WalletClient =
     (case WalletClient source_options of
        Inl e \<Rightarrow> Inl e
      | Inr s \<Rightarrow>
          (case WalletClient target_options of
             Inl e \<Rightarrow> Inl e
           | Inr t \<Rightarrow> Inr \<lparr>sourceWalletClient = s, targetWalletClient = t\<rparr>))"

definition getSourceBalance :: "'c XEQSwapBackend \<Rightarrow> 'c wallet_async" where
  "getSourceBalance this =
     try_catch
       (async_bind (await_call (sourceWalletClient this) GetBalance) (\<lambda>result. Return result))
       (\<lambda>error. Log ''Error getting source balance:'' [error] (Return Null))"

definition getTargetBalance :: "'c XEQSwapBackend \<Rightarrow> 'c wallet_async" where
  "getTargetBalance this =
     try_catch
       (async_bind (await_call (targetWalletClient this) GetBalance) (\<lambda>result. Return result))
       (\<lambda>error. Log ''Error getting target balance:'' [error] (Return Null))"

text \<open>Which values count as true in a condition.\<close>

fun truthy :: "js_value \<Rightarrow> bool" where
  "truthy Undefined \<longleftrightarrow> False"
| "truthy Null \<longleftrightarrow> False"
| "truthy (Bool b) \<longleftrightarrow> b"
| "truthy (Num n) \<longleftrightarrow> n \<noteq> 0"
| "truthy (Str s) \<longleftrightarrow> s \<noteq> ''''"
| "truthy (Arr xs) \<longleftrightarrow> True"
| "truthy (Obj kvs) \<longleftrightarrow> True"

definition transfer_params :: "js_value \<Rightarrow> js_value \<Rightarrow> js_value" where
  "transfer_params address amount =
     Obj [(''destinations'', Arr [Obj [(''address'', address), (''amount'', amount)]])]"

text \<open>A missing second argument is \<^term>\<open>Undefined\<close> and takes the default.\<close>

definition transferXEQ :: "'c XEQSwapBackend \<Rightarrow> js_value \<Rightarrow> js_value \<Rightarrow> 'c wallet_async" where
  "transferXEQ this amount fromSource =
     (let fromSource = (if fromSource = Undefined then Bool True else fromSource) in
      try_catch
        (if truthy fromSource then
           async_bind (await_call (targetWalletClient this) GetAddress) (\<lambda>targetAddress.
           async_bind (await_call (sourceWalletClient this) (Transfer (transfer_params targetAddress amount)))
             (\<lambda>result. Return result))
         else
           async_bind (await_call (sourceWalletClient this) GetAddress) (\<lambda>sourceAddress.
           async_bind (await_call (targetWalletClient this) (Transfer (transfer_params sourceAddress amount)))
             (\<lambda>result. Return result)))
        (\<lambda>error. Log ''Error transferring XEQ:'' [error] (Return Null)))"

section \<open>The example program\<close>

definition main :: "(client_options \<Rightarrow> js_value + 'c) \<Rightarrow> 'c wallet_async" where
  "main WalletClient =
     (case new_XEQSwapBackend WalletClient of
        Inl e \<Rightarrow> Throw e
      | Inr swapBackend \<Rightarrow>
          try_catch
            (async_bind (getSourceBalance swapBackend) (\<lambda>sourceBalance.
             async_bind (getTargetBalance swapBackend) (\<lambda>targetBalance.
             Log ''Source wallet balance:'' [sourceBalance]
             (Log ''Target wallet balance:'' [targetBalance]
             (Return Undefined)))))
            (\<lambda>error. Log ''Error in main:'' [error] (Return Undefined)))"

text \<open>Loading the file starts \<open>main\<close> when it is the program itself and nothing when it is a module.\<close>

definition load_module :: "bool \<Rightarrow> (client_options \<Rightarrow> js_value + 'c) \<Rightarrow> 'c wallet_async list" where
  "load_module is_main WalletClient = (if is_main then [main WalletClient] else [])"

section \<open>The bodies as trees\<close>

text \<open>The wallet that sends and the wallet that receives.\<close>

definition sends_from_source :: "js_value \<Rightarrow> bool" where
  "sends_from_source fromSource \<longleftrightarrow> fromSource = Undefined \<or> truthy fromSource"

definition sender :: "'c XEQSwapBackend \<Rightarrow> js_value \<Rightarrow> 'c" where
  "sender b fs = (if sends_from_source fs then sourceWalletClient b else targetWalletClient b)"

definition receiver :: "'c XEQSwapBackend \<Rightarrow> js_value \<Rightarrow> 'c" where
  "receiver b fs = (if sends_from_source fs then targetWalletClient b else sourceWalletClient b)"

definition or_null :: "string \<Rightarrow> (js_value \<Rightarrow> 'c wallet_async) \<Rightarrow> answer \<Rightarrow> 'c wallet_async" where
  "or_null msg k r = (case r of Inl e \<Rightarrow> Log msg [e] (Return Null) | Inr v \<Rightarrow> k v)"

lemma or_null_simps [simp]:
  "or_null msg k (Inl e) = Log msg [e] (Return Null)" "or_null msg k (Inr v) = k v"
  by (simp_all add: or_null_def)

lemma balance_trees:
  "getSourceBalance b
     = Await (sourceWalletClient b) GetBalance (or_null ''Error getting source balance:'' Return)"
  "getTargetBalance b
     = Await (targetWalletClient b) GetBalance (or_null ''Error getting target balance:'' Return)"
  by (auto simp: getSourceBalance_def getTargetBalance_def await_call_def or_null_def fun_eq_iff
      split: sum.split)

definition transfer_tail :: "'c XEQSwapBackend \<Rightarrow> js_value \<Rightarrow> js_value \<Rightarrow> js_value \<Rightarrow> 'c wallet_async" where
  "transfer_tail b amount fs a =
     Await (sender b fs) (Transfer (transfer_params a amount)) (or_null ''Error transferring XEQ:'' Return)"

lemma transfer_tree:
  "transferXEQ b amount fs
     = Await (receiver b fs) GetAddress (or_null ''Error transferring XEQ:'' (transfer_tail b amount fs))"
  by (auto simp: transferXEQ_def await_call_def or_null_def transfer_tail_def receiver_def sender_def
      sends_from_source_def Let_def fun_eq_iff split: sum.split)

section \<open>What a body has done at each point\<close>

lemma or_null_derives:
  assumes "derives (Await c q (or_null msg k)) cs t"
  shows "(cs = [] \<and> t = Await c q (or_null msg k))
    \<or> (\<exists>e. cs = [(c, q, Inl e)] \<and> t \<in> {Log msg [e] (Return Null), Return Null})
    \<or> (\<exists>v cs'. cs = (c, q, Inr v) # cs' \<and> derives (k v) cs' t)"
  using assms
proof (induction rule: derives.induct)
  case (derives_reply cs c' q' k' r)
  then show ?case
    by (cases r) (auto intro: derives.derives_start derives.derives_reply)
qed (auto intro: derives.derives_log)

lemma return_derives: "derives (Return v) cs t \<longleftrightarrow> cs = [] \<and> t = Return v"
proof
  assume "derives (Return v) cs t"
  then show "cs = [] \<and> t = Return v" by (induction rule: derives.induct) auto
qed (auto intro: derives.derives_start)

text \<open>The calls of a transfer, and its result when it is done.\<close>

lemma transfer_derives:
  assumes "derives (transferXEQ b amount fs) cs t"
  defines "ga \<equiv> \<lambda>r. (receiver b fs, GetAddress, r)"
    and "tr \<equiv> \<lambda>a r. (sender b fs, Transfer (transfer_params a amount), r)"
  shows "cs = [] \<and> \<not> finished t
    \<or> (\<exists>e. cs = [ga (Inl e)] \<and> (finished t \<longrightarrow> t = Return Null))
    \<or> (\<exists>a. cs = [ga (Inr a)] \<and> \<not> finished t)
    \<or> (\<exists>a e. cs = [ga (Inr a), tr a (Inl e)] \<and> (finished t \<longrightarrow> t = Return Null))
    \<or> (\<exists>a v. cs = [ga (Inr a), tr a (Inr v)] \<and> t = Return v)"
  using or_null_derives[OF assms(1)[unfolded transfer_tree]]
proof (elim disjE exE conjE)
  fix a cs'
  assume cs: "cs = (receiver b fs, GetAddress, Inr a) # cs'"
    and "derives (transfer_tail b amount fs a) cs' t"
  from or_null_derives[OF this(2)[unfolded transfer_tail_def]] show ?thesis
    by (elim disjE exE conjE) (auto simp: cs ga_def tr_def return_derives)
qed (auto simp: ga_def tr_def)

text \<open>The calls of the other bodies only read balances.\<close>

definition reads_balance :: "'c \<Rightarrow> wallet_call \<Rightarrow> bool" where
  "reads_balance c q \<longleftrightarrow> q = GetBalance"

lemma only_reads:
  "only_calls reads_balance (getSourceBalance b)" "only_calls reads_balance (getTargetBalance b)"
  "only_calls reads_balance (main WalletClient)"
proof -
  show src: "only_calls reads_balance (getSourceBalance b)"
    and tgt: "only_calls reads_balance (getTargetBalance b)" for b :: "'c XEQSwapBackend"
    by (auto simp: balance_trees reads_balance_def or_null_def split: sum.split)
  show "only_calls reads_balance (main WalletClient)"
    unfolding main_def
    by (auto intro!: only_calls_try_catch only_calls_bind src tgt split: sum.split)
qed

section \<open>The tasks a program may start\<close>

inductive swap_task :: "(client_options \<Rightarrow> js_value + 'c) \<Rightarrow> 'c wallet_async \<Rightarrow> bool" for WalletClient where
  "new_XEQSwapBackend WalletClient = Inr b \<Longrightarrow> swap_task WalletClient (getSourceBalance b)"
| "new_XEQSwapBackend WalletClient = Inr b \<Longrightarrow> swap_task WalletClient (getTargetBalance b)"
| "new_XEQSwapBackend WalletClient = Inr b \<Longrightarrow> swap_task WalletClient (transferXEQ b amount fs)"
| "new_XEQSwapBackend WalletClient = Inr b \<Longrightarrow> swap_task WalletClient (main WalletClient)"

lemma swap_task_never_throws: "swap_task WalletClient p \<Longrightarrow> never_throws p"
proof (induction rule: swap_task.induct)
  case (4 b)
  then show ?case by (simp add: main_def never_throws_try_catch)
qed (auto simp: balance_trees transfer_tree transfer_tail_def or_null_def split: sum.split)

lemma balance_within: "within 2 (getSourceBalance b)" "within 2 (getTargetBalance b)"
  by (auto simp: balance_trees or_null_def numeral_2_eq_2 split: sum.split)

lemma swap_task_within: "swap_task WalletClient p \<Longrightarrow> within 6 p"
proof (induction rule: swap_task.induct)
  case (1 b)
  show ?case by (rule within_mono[OF balance_within(1)]) simp
next
  case (2 b)
  show ?case by (rule within_mono[OF balance_within(2)]) simp
next
  case (3 b amount fs)
  have "within 3 (transferXEQ b amount fs)"
    by (auto simp: transfer_tree transfer_tail_def or_null_def numeral_3_eq_3 split: sum.split)
  then show ?case by (rule within_mono) simp
next
  case (4 b)
  have "never_throws (async_bind (getSourceBalance b) (\<lambda>x. async_bind (getTargetBalance b) (\<lambda>y.
      Log m1 [x] (Log m2 [y] (Return Undefined)))))" for m1 m2
    by (auto simp: balance_trees or_null_def split: sum.split)
  then have "main WalletClient = async_bind (getSourceBalance b) (\<lambda>x. async_bind (getTargetBalance b) (\<lambda>y.
      Log ''Source wallet balance:'' [x] (Log ''Target wallet balance:'' [y] (Return Undefined))))"
    unfolding main_def 4 by (simp add: try_catch_never_throws)
  moreover have "within (2 + (2 + 2)) (async_bind (getSourceBalance b) (\<lambda>x. async_bind (getTargetBalance b) (\<lambda>y.
      Log m1 [x] (Log m2 [y] (Return Undefined)))))" for m1 m2
    by (intro within_bind balance_within) (simp add: numeral_2_eq_2)
  ultimately show ?case by simp
qed

lemma swap_tasks_within:
  assumes "\<forall>p\<in>set ps. swap_task WalletClient p"
  shows "list_all2 within (replicate (length ps) 6) (tasks (js_init w ps))"
proof -
  have "within 6 (ps ! i)" if "i < length ps" for i
    using assms that by (intro swap_task_within[of WalletClient]) simp
  then show ?thesis by (simp add: js_init_def list_all2_conv_all_nth)
qed

section \<open>A pair of wallets for examples\<close>

text \<open>A client is its port; addresses are texts, transfers succeed, and the source wallet does not
  answer balance queries.\<close>

definition demo_client :: "client_options \<Rightarrow> js_value + nat" where
  "demo_client opts = Inr (client_port opts)"

fun demo_call :: "nat \<Rightarrow> wallet_call \<Rightarrow> unit \<Rightarrow> answer \<times> unit" where
  "demo_call c GetBalance w = (if c = 18090 then Inl (Str ''ECONNREFUSED'') else Inr (Num 250), w)"
| "demo_call c GetAddress w = (Inr (Str ''XEQM9BXY''), w)"
| "demo_call c (Transfer params) w = (Inr (Str ''tx''), w)"

definition demo_backend :: "nat XEQSwapBackend" where
  "demo_backend = \<lparr>sourceWalletClient = 18090, targetWalletClient = 18096\<rparr>"

lemma demo_backend: "new_XEQSwapBackend demo_client = Inr demo_backend"
  by (simp add: new_XEQSwapBackend_def demo_client_def source_options_def target_options_def
      demo_backend_def)

definition demo_transfer :: "nat wallet_async" where
  "demo_transfer = transferXEQ demo_backend (Num 7) Undefined"

definition demo_done :: "(nat, wallet_call, unit) js_state" where
  "demo_done = \<lparr>world = (), console = [], tasks = [Return (Str ''tx'')],
     calls = [(0, 18096, GetAddress, Inr (Str ''XEQM9BXY'')),
              (0, 18090, Transfer (transfer_params (Str ''XEQM9BXY'') (Num 7)), Inr (Str ''tx''))]\<rparr>"

lemma demo_task: "\<forall>p\<in>set [demo_transfer]. swap_task demo_client p"
  using demo_backend by (auto simp: demo_transfer_def intro: swap_task.intros)

lemma demo_sides: "sender demo_backend Undefined = 18090" "receiver demo_backend Undefined = 18096"
  by (simp_all add: sender_def receiver_def sends_from_source_def demo_backend_def)

lemma demo_run: "(js_step (serve_of demo_call) ^^ 2) (js_init () [demo_transfer]) demo_done"
proof -
  let ?s0 = "js_init () [demo_transfer]"
  let ?s1 = "?s0\<lparr>tasks := [transfer_tail demo_backend (Num 7) Undefined (Str ''XEQM9BXY'')],
    calls := [(0, 18096, GetAddress, Inr (Str ''XEQM9BXY''))]\<rparr>"
  have "js_step (serve_of demo_call) ?s0 ?s1"
    using js_step.reply[of 0 ?s0 18096 GetAddress "or_null ''Error transferring XEQ:''
        (transfer_tail demo_backend (Num 7) Undefined)" "serve_of demo_call" "Inr (Str ''XEQM9BXY'')" "()"]
    by (simp add: js_init_def demo_transfer_def transfer_tree serve_of_def demo_sides)
  moreover have "js_step (serve_of demo_call) ?s1 demo_done"
    using js_step.reply[of 0 ?s1 18090 "Transfer (transfer_params (Str ''XEQM9BXY'') (Num 7))"
        "or_null ''Error transferring XEQ:'' Return" "serve_of demo_call" "Inr (Str ''tx'')" "()"]
    by (simp add: js_init_def transfer_tail_def serve_of_def demo_sides demo_done_def)
  ultimately show ?thesis by (auto simp: numeral_2_eq_2 relpowp_Suc_I2)
qed

lemma demo_reached: "(js_step (serve_of demo_call))\<^sup>*\<^sup>* (js_init () [demo_transfer]) demo_done"
  using demo_run by (rule relpowp_imp_rtranclp)

lemma main_alone:
  assumes "new_XEQSwapBackend WalletClient = Inr b"
    and "call (sourceWalletClient b) GetBalance w = (r1, w1)"
    and "call (targetWalletClient b) GetBalance w1 = (r2, w2)"
  shows "run_alone call (main WalletClient) w =
    (Inr Undefined,
     (case r1 of Inl e \<Rightarrow> [(''Error getting source balance:'', [e])] | Inr v \<Rightarrow> [])
     @ (case r2 of Inl e \<Rightarrow> [(''Error getting target balance:'', [e])] | Inr v \<Rightarrow> [])
     @ [(''Source wallet balance:'', [case r1 of Inl e \<Rightarrow> Null | Inr v \<Rightarrow> v]),
        (''Target wallet balance:'', [case r2 of Inl e \<Rightarrow> Null | Inr v \<Rightarrow> v])],
     w2)"
  using assms unfolding main_def
  by (cases r1; cases r2) (simp_all add: balance_trees)

section \<open>Properties\<close>

text \<open>C1. Every transfer request that any interleaving of the methods ever issues belongs to a call of
  \<open>transferXEQ\<close>: it goes to the sending wallet of that call, its only destination is the address the
  receiving wallet gave to this very call and the amount of the call, and the call issues no other
  transfer.  Whatever the wallets answer, balance queries and \<open>main\<close> never move money.\<close>

theorem transfer_requests_safe:
  assumes "new_XEQSwapBackend WalletClient = Inr b"
    and "\<forall>p\<in>set ps. swap_task WalletClient p"
    and "(js_step serve)\<^sup>*\<^sup>* (js_init w ps) s"
    and "(i, c, Transfer params, r) \<in> set (calls s)"
  shows "\<exists>amount fs a. ps ! i = transferXEQ b amount fs \<and> c = sender b fs
    \<and> params = transfer_params a amount
    \<and> calls_of i s = [(receiver b fs, GetAddress, Inr a), (c, Transfer params, r)]"
proof -
  have i: "i < length ps" and c: "(c, Transfer params, r) \<in> set (calls_of i s)"
    using reachable_calls[OF assms(3,4)] by blast+
  note d = reachable_task[OF assms(3) i]
  have "swap_task WalletClient (ps ! i)" using assms(2) i by simp
  then show ?thesis
  proof cases
    case (3 b' amount fs)
    then have "b' = b" using assms(1) by simp
    from transfer_derives[OF d[unfolded 3(1)]] c obtain a where
      "c = sender b fs" "params = transfer_params a amount"
      "calls_of i s = [(receiver b fs, GetAddress, Inr a), (c, Transfer params, r)]"
      using \<open>b' = b\<close> by auto
    with 3(1) \<open>b' = b\<close> show ?thesis by blast
  qed (use only_calls_derives[OF d] only_reads c in \<open>fastforce simp: reads_balance_def\<close>)+
qed

theorem transfer_requests_safe_witness:
  "(0, 18090, Transfer (transfer_params (Str ''XEQM9BXY'') (Num 7)), Inr (Str ''tx'')) \<in> set (calls demo_done)
    \<and> (\<exists>amount fs a. [demo_transfer] ! 0 = transferXEQ demo_backend amount fs
         \<and> 18090 = sender demo_backend fs
         \<and> transfer_params (Str ''XEQM9BXY'') (Num 7) = transfer_params a amount
         \<and> calls_of 0 demo_done = [(receiver demo_backend fs, GetAddress, Inr a),
              (18090, Transfer (transfer_params (Str ''XEQM9BXY'') (Num 7)), Inr (Str ''tx''))])"
proof -
  have "(0, 18090, Transfer (transfer_params (Str ''XEQM9BXY'') (Num 7)), Inr (Str ''tx'')) \<in> set (calls demo_done)"
    by (simp add: demo_done_def)
  with transfer_requests_safe[OF demo_backend demo_task demo_reached this] show ?thesis by blast
qed

text \<open>C3. What the result of \<open>transferXEQ\<close> tells, in any interleaving: a result other than \<open>null\<close> is the
  answer of the sending wallet to the one transfer request; \<open>null\<close> is the answer itself, or means that
  no address was obtained and nothing was requested, or that the request failed.\<close>

theorem transfer_result:
  assumes "(js_step serve)\<^sup>*\<^sup>* (js_init w ps) s" "i < length ps" "ps ! i = transferXEQ b amount fs"
    and "tasks s ! i = Return v"
  shows "(\<exists>a. calls_of i s = [(receiver b fs, GetAddress, Inr a),
             (sender b fs, Transfer (transfer_params a amount), Inr v)])
    \<or> v = Null \<and> (\<exists>e. calls_of i s = [(receiver b fs, GetAddress, Inl e)])
    \<or> v = Null \<and> (\<exists>a e. calls_of i s = [(receiver b fs, GetAddress, Inr a),
             (sender b fs, Transfer (transfer_params a amount), Inl e)])"
  using transfer_derives[OF reachable_task[OF assms(1,2), unfolded assms(3)]] assms(4) by auto

theorem transfer_result_witness:
  "tasks demo_done ! 0 = Return (Str ''tx'')
    \<and> (\<exists>a. calls_of 0 demo_done = [(18096, GetAddress, Inr a),
         (18090, Transfer (transfer_params a (Num 7)), Inr (Str ''tx''))])"
proof -
  have "tasks demo_done ! 0 = Return (Str ''tx'')" by (simp add: demo_done_def)
  with transfer_result[OF demo_reached, of 0 demo_backend "Num 7" Undefined "Str ''tx''"] show ?thesis
    by (simp add: demo_transfer_def demo_sides)
qed

text \<open>C7. The promises of the methods and of \<open>main\<close> are never rejected, whatever the wallets answer and
  however the calls interleave, once the backend could be constructed.\<close>

theorem swap_never_rejects:
  assumes "\<forall>p\<in>set ps. swap_task WalletClient p" "(js_step serve)\<^sup>*\<^sup>* (js_init w ps) s" "i < length ps"
  shows "tasks s ! i \<noteq> Throw e"
proof -
  have "swap_task WalletClient (ps ! i)" using assms(1,3) by simp
  then have "never_throws (tasks s ! i)"
    using never_throws_derives[OF reachable_task[OF assms(2,3)]] swap_task_never_throws by blast
  then show ?thesis by auto
qed

theorem swap_never_rejects_witness:
  "swap_task demo_client demo_transfer \<and> tasks demo_done ! 0 \<noteq> Throw (Str ''error'')"
  using swap_never_rejects[OF demo_task demo_reached, of 0 "Str ''error''"] demo_task by simp



text \<open>C5. If the wallets answer every request, in whatever way, then concurrent calls can always run to
  the end, and in every state from which nothing more can happen each call has returned a value.\<close>

theorem swap_completes:
  assumes "\<forall>p\<in>set ps. swap_task WalletClient p" "\<And>c q w. \<exists>r w'. serve c q w r w'"
  shows "(\<exists>s. (js_step serve)\<^sup>*\<^sup>* (js_init w ps) s \<and> (\<nexists>s'. js_step serve s s'))
    \<and> (\<forall>s. (js_step serve)\<^sup>*\<^sup>* (js_init w ps) s \<longrightarrow> (\<nexists>s'. js_step serve s s') \<longrightarrow>
         (\<forall>i<length ps. \<exists>v. tasks s ! i = Return v))"
proof -
  have ans: "answering serve" by unfold_locales (rule assms(2))
  from answering.ends[OF ans swap_tasks_within[OF assms(1)]] have 1: "\<exists>s. (js_step serve)\<^sup>*\<^sup>* (js_init w ps) s \<and> (\<nexists>s'. js_step serve s s')" .
  have "\<exists>v. tasks s ! i = Return v"
    if run: "(js_step serve)\<^sup>*\<^sup>* (js_init w ps) s" and stuck: "\<nexists>s'. js_step serve s s'" and i: "i < length ps" for s i
  proof -
    have len: "length (tasks s) = length ps" using reachable_derives[OF run] by blast
    then have "finished (tasks s ! i)" using answering.stuck_finished[OF ans stuck] i by simp
    moreover have "never_throws (tasks s ! i)"
      using never_throws_derives[OF reachable_task[OF run i]] swap_task_never_throws assms(1) i
      by (meson nth_mem)
    ultimately show ?thesis by (cases "tasks s ! i") auto
  qed
  then show ?thesis using 1 by blast
qed

theorem swap_completes_witness:
  "(\<forall>c q w. \<exists>r w'. serve_of demo_call c q w r w')
    \<and> (\<exists>s v. (js_step (serve_of demo_call))\<^sup>*\<^sup>* (js_init () [demo_transfer]) s \<and> tasks s ! 0 = Return v)"
proof -
  have answers: "\<exists>r w'. serve_of demo_call c q w r w'" for c q w
    using answering.answered[OF answering_serve_of] .
  have "(\<exists>s. (js_step (serve_of demo_call))\<^sup>*\<^sup>* (js_init () [demo_transfer]) s \<and> (\<nexists>s'. js_step (serve_of demo_call) s s'))
    \<and> (\<forall>s. (js_step (serve_of demo_call))\<^sup>*\<^sup>* (js_init () [demo_transfer]) s
        \<longrightarrow> (\<nexists>s'. js_step (serve_of demo_call) s s')
        \<longrightarrow> (\<forall>i<length [demo_transfer]. \<exists>v. tasks s ! i = Return v))"
    by (rule swap_completes[OF demo_task answers])
  then show ?thesis using answers by (metis length_Cons zero_less_Suc)
qed

text \<open>C8. Run by itself, \<open>main\<close> asks the source wallet and then the target wallet for the balance, prints
  the errors of the queries that failed and, last, both balances with \<open>null\<close> for a failed query.\<close>

theorem main_output:
  assumes "new_XEQSwapBackend WalletClient = Inr b"
    and "call (sourceWalletClient b) GetBalance w = (r1, w1)"
    and "call (targetWalletClient b) GetBalance w1 = (r2, w2)"
  shows "run_alone call (main WalletClient) w =
    (Inr Undefined,
     (case r1 of Inl e \<Rightarrow> [(''Error getting source balance:'', [e])] | Inr v \<Rightarrow> [])
     @ (case r2 of Inl e \<Rightarrow> [(''Error getting target balance:'', [e])] | Inr v \<Rightarrow> [])
     @ [(''Source wallet balance:'', [case r1 of Inl e \<Rightarrow> Null | Inr v \<Rightarrow> v]),
        (''Target wallet balance:'', [case r2 of Inl e \<Rightarrow> Null | Inr v \<Rightarrow> v])],
     w2)"
  using assms by (rule main_alone)

theorem main_output_witness:
  "run_alone demo_call (main demo_client) () =
    (Inr Undefined,
     [(''Error getting source balance:'', [Str ''ECONNREFUSED'']),
      (''Source wallet balance:'', [Null]), (''Target wallet balance:'', [Num 250])], ())"
  using main_output[OF demo_backend, where call = demo_call and w = "()"] by (simp add: demo_backend_def)

end
