(* ===== verification/Wallet_Rpc_Py.thy ===== *)
theory Wallet_Rpc_Py
  imports Swap_Backend
begin

text \<open>
  The Python wallet client of \<^verbatim>\<open>src/utils/python-rpc/framework\<close>: \<^verbatim>\<open>Response\<close> and \<^verbatim>\<open>JSONRPC\<close> of \<^verbatim>\<open>rpc.py\<close>
  and the methods of \<^verbatim>\<open>Wallet\<close> in \<^verbatim>\<open>wallet.py\<close> that the swap backend calls.  A Python value is a
  \<^typ>\<open>js_value\<close> (\<^verbatim>\<open>None\<close> is \<^term>\<open>Null\<close>), an exception is \<^term>\<open>Inl\<close> of a value.  The package \<^verbatim>\<open>requests\<close>
  is not part of the repository: posting a body to a URL and decoding the JSON answer is the argument
  \<open>post\<close>, a state transformer on the outside world.
\<close>

type_synonym 'w http = "string \<Rightarrow> js_value \<Rightarrow> 'w \<Rightarrow> answer \<times> 'w"

section \<open>Responses\<close>

text \<open>The constructor of \<^verbatim>\<open>Response\<close> copies a dictionary key by key; nested dictionaries, also those
  that are elements of a list, become responses too.  Anything without \<^verbatim>\<open>keys()\<close> raises.\<close>

fun response_copy :: "js_value \<Rightarrow> js_value" and response_item :: "js_value \<Rightarrow> js_value" where
  "response_copy (Obj kvs) =
     Obj (map (\<lambda>(k, v). (k, case v of
       Obj _ \<Rightarrow> response_copy v | Arr xs \<Rightarrow> Arr (map response_item xs) | _ \<Rightarrow> v)) kvs)"
| "response_copy v = v"
| "response_item (Obj kvs) = response_copy (Obj kvs)"
| "response_item v = v"

definition Response :: "js_value \<Rightarrow> answer" where
  "Response d = (case d of Obj kvs \<Rightarrow> Inr (response_copy d) | _ \<Rightarrow> Inl (Str ''AttributeError''))"

section \<open>JSON-RPC\<close>

text \<open>The operator \<^verbatim>\<open>in\<close> with a text on its left, and indexing with a text.\<close>

fun py_in :: "string \<Rightarrow> js_value \<Rightarrow> js_value + bool" where
  "py_in key (Obj kvs) = Inr (key \<in> set (map fst kvs))"
| "py_in key (Arr xs) = Inr (Str key \<in> set xs)"
| "py_in key (Str s) = Inr (sublist key s)"
| "py_in key v = Inl (Str ''TypeError'')"

fun py_index :: "js_value \<Rightarrow> string \<Rightarrow> answer" where
  "py_index (Obj kvs) key =
     (case map_of kvs key of None \<Rightarrow> Inl (Str ''KeyError'') | Some v \<Rightarrow> Inr v)"
| "py_index v key = Inl (Str ''TypeError'')"

definition send_request :: "'w http \<Rightarrow> string \<Rightarrow> string \<Rightarrow> js_value \<Rightarrow> string option \<Rightarrow> 'w \<Rightarrow> answer \<times> 'w" where
  "send_request post url path inputs result_field w =
     (let (answer, w') = post (url @ path) inputs w in
      (case answer of
         Inl e \<Rightarrow> Inl e
       | Inr res \<Rightarrow>
           (case py_in ''error'' res of
              Inl e \<Rightarrow> Inl e
            | Inr True \<Rightarrow> Inl (Arr [Str ''AssertionError'', res])
            | Inr False \<Rightarrow>
                (case result_field of
                   None \<Rightarrow> Response res
                 | Some field \<Rightarrow>
                     (case py_index res field of Inl e \<Rightarrow> Inl e | Inr res' \<Rightarrow> Response res'))), w'))"

definition send_json_rpc_request :: "'w http \<Rightarrow> string \<Rightarrow> js_value \<Rightarrow> 'w \<Rightarrow> answer \<times> 'w" where
  "send_json_rpc_request post url inputs w = send_request post url ''/json_rpc'' inputs (Some ''result'') w"

section \<open>Wallets\<close>

text \<open>A port in decimal.\<close>

fun show_nat :: "nat \<Rightarrow> string" where
  "show_nat n =
     (if n < 10 then [char_of (48 + n)] else show_nat (n div 10) @ [char_of (48 + n mod 10)])"

declare show_nat.simps [simp del]

record py_wallet =
  py_host :: string
  py_port :: nat
  py_rpc :: string

definition new_Wallet :: "string \<Rightarrow> string \<Rightarrow> nat \<Rightarrow> nat \<Rightarrow> py_wallet" where
  "new_Wallet protocol host port idx =
     \<lparr>py_host = host, py_port = port,
      py_rpc = protocol @ ''://'' @ host @ '':'' @ show_nat (if port \<noteq> 0 then port else 18090 + idx)\<rparr>"

definition rpc_request :: "string \<Rightarrow> (string \<times> js_value) list \<Rightarrow> js_value" where
  "rpc_request meth params =
     Obj [(''method'', Str meth), (''params'', Obj params), (''jsonrpc'', Str ''2.0''), (''id'', Str ''0'')]"

text \<open>The three methods with the default values of their optional arguments.\<close>

definition transfer_request :: "js_value \<Rightarrow> js_value" where
  "transfer_request destinations = rpc_request ''transfer''
     [(''destinations'', destinations), (''account_index'', Num 0), (''subaddr_indices'', Arr []),
      (''priority'', Num 0), (''ring_size'', Num 0), (''unlock_time'', Num 0), (''payment_id'', Str ''''),
      (''get_tx_key'', Bool True), (''do_not_relay'', Bool False), (''get_tx_hex'', Bool False),
      (''get_tx_metadata'', Bool False)]"

definition get_balance_request :: js_value where
  "get_balance_request = rpc_request ''get_balance''
     [(''account_index'', Num 0), (''address_indices'', Arr []), (''all_accounts'', Bool False),
      (''strict'', Bool False)]"

definition get_address_request :: js_value where
  "get_address_request = rpc_request ''get_address'' [(''account_index'', Num 0), (''address_index'', Arr [])]"

definition py_transfer :: "'w http \<Rightarrow> py_wallet \<Rightarrow> js_value \<Rightarrow> 'w \<Rightarrow> answer \<times> 'w" where
  "py_transfer post self destinations w =
     send_json_rpc_request post (py_rpc self) (transfer_request destinations) w"

definition py_get_balance :: "'w http \<Rightarrow> py_wallet \<Rightarrow> 'w \<Rightarrow> answer \<times> 'w" where
  "py_get_balance post self w = send_json_rpc_request post (py_rpc self) get_balance_request w"

definition py_get_address :: "'w http \<Rightarrow> py_wallet \<Rightarrow> 'w \<Rightarrow> answer \<times> 'w" where
  "py_get_address post self w = send_json_rpc_request post (py_rpc self) get_address_request w"

section \<open>Answers are dictionaries\<close>

lemma response_copy_id: "response_copy v = v" "response_item v = v"
proof (induction v and v rule: response_copy_response_item.induct)
  case (1 kvs)
  have "(case v of Obj _ \<Rightarrow> response_copy v | Arr xs \<Rightarrow> Arr (map response_item xs) | _ \<Rightarrow> v) = v"
    if "(k, v) \<in> set kvs" for k v
  proof (cases v)
    case (Arr xs)
    have "map response_item xs = xs" using 1(1)[OF that refl Arr] by (simp add: map_idI)
    then show ?thesis using Arr by simp
  next
    case (Obj x)
    then show ?thesis using 1(2)[OF that refl Obj] by simp
  qed simp_all
  then show ?case by (simp only: response_copy.simps js_value.inject) (rule map_idI, clarsimp)
qed simp_all

lemma Response_Inr: "Response d = Inr v \<Longrightarrow> v = d \<and> (\<exists>kvs. d = Obj kvs)"
  by (auto simp: Response_def response_copy_id split: js_value.splits)

lemma json_rpc_object:
  assumes "send_json_rpc_request post url inputs w = (Inr v, w')"
  shows "\<exists>kvs. v = Obj kvs"
  using assms
  by (auto simp: send_json_rpc_request_def send_request_def dest!: Response_Inr
      split: prod.splits sum.splits bool.splits)

text \<open>The swap backend's client interface on top of these methods.\<close>

fun py_client :: "'w http \<Rightarrow> py_wallet \<Rightarrow> wallet_call \<Rightarrow> 'w \<Rightarrow> answer \<times> 'w" where
  "py_client post c GetBalance w = py_get_balance post c w"
| "py_client post c GetAddress w = py_get_address post c w"
| "py_client post c (Transfer params) w =
     (case py_index params ''destinations'' of
        Inl e \<Rightarrow> (Inl e, w)
      | Inr destinations \<Rightarrow> py_transfer post c destinations w)"

text \<open>Clients whose answers are dictionaries, never texts.\<close>

locale object_client =
  fixes call :: "'c \<Rightarrow> wallet_call \<Rightarrow> 'w \<Rightarrow> answer \<times> 'w"
  assumes object_answers: "call c q w = (Inr v, w') \<Longrightarrow> \<exists>kvs. v = Obj kvs"
begin

lemma transfer_address_object:
  assumes "call (receiver b fs) GetAddress w = (Inr a, w1)"
  shows "\<exists>kvs. a = Obj kvs
    \<and> run_alone call (transferXEQ b amount fs) w
      = run_alone call (transfer_tail b amount fs (Obj kvs)) w1"
  using object_answers[OF assms] assms by (auto simp: transfer_tree)

end

interpretation py: object_client "py_client post" for post :: "'w http"
proof
  fix c q w v w'
  assume "py_client post c q w = (Inr v, w')"
  then show "\<exists>kvs. v = Obj kvs"
    by (cases q) (auto simp: py_get_balance_def py_get_address_def py_transfer_def
        intro: json_rpc_object split: sum.splits)
qed

interpretation py_service: answering "serve_of (py_client post)" for post :: "'w http"
  by (rule answering_serve_of)

end
