(* ===== verification/Swap_Backend_Py.thy ===== *)
theory Swap_Backend_Py
  imports Wallet_Rpc_Py
begin

text \<open>
  The Python swap backend \<^verbatim>\<open>src/swap_backend.py\<close>: the same class as \<open>Swap_Backend\<close>, synchronous and on
  the wallet client of \<open>Wallet_Rpc_Py\<close>.  A method returns its result, the lines it printed and the new
  outside world; a printed line is its fixed text and the value formatted into it.  It makes the same
  requests and gives the same results as the JavaScript class on the same client, and since that
  client answers \<^verbatim>\<open>get_address\<close> with a dictionary, every transfer it requests has a dictionary where
  the wallet server expects the text of an address.
\<close>

type_synonym lines = "(string \<times> js_value list) list"

record py_backend =
  source_wallet :: py_wallet
  target_wallet :: py_wallet

definition new_py_backend :: py_backend where
  "new_py_backend =
     \<lparr>source_wallet = new_Wallet ''http'' ''127.0.0.1'' 18090 0,
      target_wallet = new_Wallet ''http'' ''127.0.0.1'' 18096 0\<rparr>"

definition get_source_balance :: "'w http \<Rightarrow> py_backend \<Rightarrow> 'w \<Rightarrow> js_value \<times> lines \<times> 'w" where
  "get_source_balance post self w =
     (case py_get_balance post (source_wallet self) w of
        (Inl e, w') \<Rightarrow> (Null, [(''Error getting source balance: '', [e])], w')
      | (Inr result, w') \<Rightarrow> (result, [], w'))"

definition get_target_balance :: "'w http \<Rightarrow> py_backend \<Rightarrow> 'w \<Rightarrow> js_value \<times> lines \<times> 'w" where
  "get_target_balance post self w =
     (case py_get_balance post (target_wallet self) w of
        (Inl e, w') \<Rightarrow> (Null, [(''Error getting target balance: '', [e])], w')
      | (Inr result, w') \<Rightarrow> (result, [], w'))"

definition destinations_to :: "js_value \<Rightarrow> js_value \<Rightarrow> js_value" where
  "destinations_to address amount = Arr [Obj [(''address'', address), (''amount'', amount)]]"

definition transfer_xeq ::
    "'w http \<Rightarrow> py_backend \<Rightarrow> js_value \<Rightarrow> js_value \<Rightarrow> 'w \<Rightarrow> js_value \<times> lines \<times> 'w" where
  "transfer_xeq post self amount from_source w =
     (let body =
        (if truthy from_source then
           (case py_get_address post (target_wallet self) w of
              (Inl e, w1) \<Rightarrow> (Inl e, w1)
            | (Inr a, w1) \<Rightarrow> py_transfer post (source_wallet self) (destinations_to a amount) w1)
         else
           (case py_get_address post (source_wallet self) w of
              (Inl e, w1) \<Rightarrow> (Inl e, w1)
            | (Inr a, w1) \<Rightarrow> py_transfer post (target_wallet self) (destinations_to a amount) w1))
      in case body of
           (Inl e, w') \<Rightarrow> (Null, [(''Error transferring XEQ: '', [e])], w')
         | (Inr result, w') \<Rightarrow> (result, [], w'))"

definition py_main :: "'w http \<Rightarrow> 'w \<Rightarrow> lines \<times> 'w" where
  "py_main post w =
     (let swap_backend = new_py_backend;
          (source_balance, out1, w1) = get_source_balance post swap_backend w;
          (target_balance, out2, w2) = get_target_balance post swap_backend w1
      in (out1 @ out2 @ [(''Source wallet balance: '', [source_balance]),
                         (''Target wallet balance: '', [target_balance])], w2))"

section \<open>Agreement with the JavaScript class\<close>

definition js_backend_of :: "py_backend \<Rightarrow> py_wallet XEQSwapBackend" where
  "js_backend_of b = \<lparr>sourceWalletClient = source_wallet b, targetWalletClient = target_wallet b\<rparr>"

lemma py_client_transfer:
  "py_client post c (Transfer (transfer_params a amount)) w = py_transfer post c (destinations_to a amount) w"
  by (simp add: transfer_params_def destinations_to_def)

text \<open>The console writes a space between its arguments, so the lines are the same with one more.\<close>

definition spaced :: "lines \<Rightarrow> lines" where
  "spaced out = map (\<lambda>(msg, args). (msg @ '' '', args)) out"

definition agrees :: "(js_value + js_value) \<times> lines \<times> 'w \<Rightarrow> js_value \<times> lines \<times> 'w \<Rightarrow> bool" where
  "agrees js py \<longleftrightarrow> (case (js, py) of
     ((res, out, w), (v, out', w')) \<Rightarrow> res = Inr v \<and> spaced out = out' \<and> w = w')"

definition py_WalletClient :: "client_options \<Rightarrow> js_value + py_wallet" where
  "py_WalletClient opts = Inr (new_Wallet (client_protocol opts) (client_host opts) (client_port opts) 0)"

lemma balances_agree:
  "agrees (run_alone (py_client post) (getSourceBalance (js_backend_of b)) w) (get_source_balance post b w)"
  "agrees (run_alone (py_client post) (getTargetBalance (js_backend_of b)) w) (get_target_balance post b w)"
  by (auto simp: agrees_def spaced_def balance_trees js_backend_of_def get_source_balance_def
      get_target_balance_def split: prod.splits sum.splits)

definition py_sender :: "py_backend \<Rightarrow> js_value \<Rightarrow> py_wallet" where
  "py_sender b fs = (if truthy fs then source_wallet b else target_wallet b)"

definition py_receiver :: "py_backend \<Rightarrow> js_value \<Rightarrow> py_wallet" where
  "py_receiver b fs = (if truthy fs then target_wallet b else source_wallet b)"

lemma transfer_xeq_cases:
  "transfer_xeq post b amount fs w =
     (case py_get_address post (py_receiver b fs) w of
        (Inl e, w1) \<Rightarrow> (Null, [(''Error transferring XEQ: '', [e])], w1)
      | (Inr a, w1) \<Rightarrow>
          (case py_transfer post (py_sender b fs) (destinations_to a amount) w1 of
             (Inl e, w2) \<Rightarrow> (Null, [(''Error transferring XEQ: '', [e])], w2)
           | (Inr v, w2) \<Rightarrow> (v, [], w2)))"
  by (cases "truthy fs")
    (simp_all add: transfer_xeq_def py_sender_def py_receiver_def split: prod.split sum.split)

lemma transfer_agree:
  assumes "fs \<noteq> Undefined"
  shows "agrees (run_alone (py_client post) (transferXEQ (js_backend_of b) amount fs) w)
    (transfer_xeq post b amount fs w)"
proof -
  have sides: "sender (js_backend_of b) fs = py_sender b fs" "receiver (js_backend_of b) fs = py_receiver b fs"
    using assms
    by (simp_all add: sender_def receiver_def sends_from_source_def js_backend_of_def py_sender_def py_receiver_def)
  show ?thesis
    unfolding transfer_xeq_cases transfer_tree transfer_tail_def sides
    by (simp add: agrees_def spaced_def py_client_transfer del: py_client.simps(3)
        split: prod.split sum.split)
qed

lemma main_agrees:
  "agrees (run_alone (py_client post) (main py_WalletClient) w)
    (Undefined, fst (py_main post w), snd (py_main post w))"
proof -
  have new: "new_XEQSwapBackend py_WalletClient = Inr (js_backend_of new_py_backend)"
    by (simp add: new_XEQSwapBackend_def py_WalletClient_def source_options_def target_options_def
        js_backend_of_def new_py_backend_def)
  let ?b = "js_backend_of new_py_backend"
  obtain r1 w1 where 1: "py_get_balance post (source_wallet new_py_backend) w = (r1, w1)" by fastforce
  obtain r2 w2 where 2: "py_get_balance post (target_wallet new_py_backend) w1 = (r2, w2)" by fastforce
  have "py_client post (sourceWalletClient ?b) GetBalance w = (r1, w1)"
    "py_client post (targetWalletClient ?b) GetBalance w1 = (r2, w2)"
    using 1 2 by (simp_all add: js_backend_of_def)
  from main_alone[where call = "py_client post", OF new this] show ?thesis
    using 1 2 by (cases r1; cases r2)
      (simp_all add: agrees_def spaced_def py_main_def get_source_balance_def get_target_balance_def)
qed


section \<open>Addresses\<close>

lemma py_get_address_object:
  "py_get_address post c w = (Inr a, w') \<Longrightarrow> \<exists>kvs. a = Obj kvs"
  using py.object_answers[of post c GetAddress] by simp

text \<open>A server that refuses: it never answers a transfer whose address is a dictionary with a result.\<close>

definition refuses_object_addresses :: "'w http \<Rightarrow> bool" where
  "refuses_object_addresses post \<longleftrightarrow>
     (\<forall>url kvs amount w.
        case fst (post url (transfer_request (destinations_to (Obj kvs) amount)) w) of
          Inl e \<Rightarrow> True
        | Inr res \<Rightarrow> (\<exists>fields. res = Obj fields \<and> ''error'' \<in> fst ` set fields))"

lemma refused_transfer:
  assumes "refuses_object_addresses post"
  shows "\<exists>e w'. py_transfer post c (destinations_to (Obj kvs) amount) w = (Inl e, w')"
proof -
  obtain r w' where r: "post (py_rpc c @ ''/json_rpc'') (transfer_request (destinations_to (Obj kvs) amount)) w = (r, w')"
    by fastforce
  have "case r of Inl e \<Rightarrow> True | Inr res \<Rightarrow> (\<exists>fields. res = Obj fields \<and> ''error'' \<in> fst ` set fields)"
    using assms[unfolded refuses_object_addresses_def, rule_format, of "py_rpc c @ ''/json_rpc''" kvs amount w]
    by (simp only: r fst_conv)
  then show ?thesis
  proof (cases r)
    case (Inr res)
    then obtain fields where "res = Obj fields" "''error'' \<in> fst ` set fields"
      using \<open>case r of Inl e \<Rightarrow> True | Inr res \<Rightarrow> _ res\<close> by auto
    then have "py_in ''error'' res = Inr True" by simp
    then show ?thesis
      using r Inr by (simp add: py_transfer_def send_json_rpc_request_def send_request_def)
  qed (use r in \<open>simp add: py_transfer_def send_json_rpc_request_def send_request_def\<close>)
qed

text \<open>C2. The wallet server takes the address of a destination as a text and answers \<^verbatim>\<open>get_address\<close> with a
  dictionary, which the Python backend passes on whole.  On every server that refuses a transfer whose
  address is not a text, \<^verbatim>\<open>transfer_xeq\<close> returns \<open>None\<close> and reports an error, for every amount and
  both directions: it never transfers anything.\<close>

theorem py_transfer_never_succeeds:
  assumes "refuses_object_addresses post"
  shows "\<exists>e w'. transfer_xeq post b amount fs w = (Null, [(''Error transferring XEQ: '', [e])], w')"
proof -
  obtain r w1 where 1: "py_get_address post (py_receiver b fs) w = (r, w1)" by fastforce
  show ?thesis
  proof (cases r)
    case (Inl e)
    then show ?thesis using 1 by (simp add: transfer_xeq_cases)
  next
    case (Inr a)
    obtain kvs where a: "a = Obj kvs" using py_get_address_object[OF 1[unfolded Inr]] by blast
    obtain e w2 where "py_transfer post (py_sender b fs) (destinations_to a amount) w1 = (Inl e, w2)"
      using refused_transfer[OF assms, of "py_sender b fs" kvs amount w1] unfolding a by blast
    then show ?thesis using 1 Inr by (simp add: transfer_xeq_cases)
  qed
qed

text \<open>A server that follows the field types of the wallet's command definitions.\<close>

fun typed_server :: "nat http" where
  "typed_server url (Obj ((_, Str meth) # (_, Obj params) # _)) n =
     (if meth = ''get_address''
      then (Inr (Obj [(''result'', Obj [(''address'', Str ''XEQM9BXY''), (''addresses'', Arr [])])]), n)
      else if meth = ''transfer'' then
        (case map_of params ''destinations'' of
           Some (Arr [Obj [(_, Str address), (_, Num amount)]]) \<Rightarrow>
             (Inr (Obj [(''result'', Obj [(''tx_hash'', Str ''tx'')])]), n + nat amount)
         | _ \<Rightarrow> (Inr (Obj [(''error'', Str ''Invalid params'')]), n))
      else (Inr (Obj [(''error'', Str ''Method not found'')]), n))"
| "typed_server url body n = (Inr (Obj [(''error'', Str ''Parse error'')]), n)"

lemma typed_server_refuses: "refuses_object_addresses typed_server"
  by (simp add: refuses_object_addresses_def transfer_request_def rpc_request_def destinations_to_def)

theorem py_transfer_never_succeeds_witness:
  "refuses_object_addresses typed_server
    \<and> fst (typed_server ''u'' (transfer_request (destinations_to (Str ''XEQM9BXY'') (Num 7))) 0)
      = Inr (Obj [(''result'', Obj [(''tx_hash'', Str ''tx'')])])
    \<and> fst (transfer_xeq typed_server new_py_backend (Num 7) (Bool True) 0) = Null"
proof -
  have "fst (typed_server ''u'' (transfer_request (destinations_to (Str ''XEQM9BXY'') (Num 7))) 0)
      = Inr (Obj [(''result'', Obj [(''tx_hash'', Str ''tx'')])])"
    by (simp add: transfer_request_def rpc_request_def destinations_to_def)
  then show ?thesis
    using py_transfer_never_succeeds[OF typed_server_refuses, of new_py_backend "Num 7" "Bool True" 0]
      typed_server_refuses by auto
qed


end
