(* ===== verification/Varint.thy ===== *)
theory Varint
  imports Xeq_Prelude
begin

text \<open>
  The variable length integers of \<^verbatim>\<open>src/common/varint.h\<close>: the writer, the reader with its three
  error returns, and the proof that the reader accepts exactly what the writer produces.

  The unsigned type \<^verbatim>\<open>T\<close> of the templates is the type variable of \<open>'a word\<close>; the sources
  instantiate it with the types of 8, 16, 32 and 64 bits.
\<close>

section \<open>The code\<close>

text \<open>The negative results of \<^verbatim>\<open>read_varint\<close>.\<close>

definition EVARINT_OVERFLOW :: int where
  "EVARINT_OVERFLOW = -1"

definition EVARINT_REPRESENT :: int where
  "EVARINT_REPRESENT = -2"

definition EVARINT_TRUNCATED :: int where
  "EVARINT_TRUNCATED = -3"

definition VARINT_MAX_LENGTH :: "'a::len itself \<Rightarrow> nat" where
  "VARINT_MAX_LENGTH _ = (LENGTH('a) + 6) div 7"

text \<open>The writer's loop emits the low seven bits with the continuation bit while more remain.\<close>

function write_varint :: "'a::len word \<Rightarrow> bytes" where
  "write_varint i =
     (if unat i > 127
      then (ucast (i AND 127) OR 128) # write_varint (drop_bit 7 i)
      else [ucast i])"
  by pat_completeness auto
termination
  by (relation "measure unat") (auto simp only: unat_drop7 in_measure wf_measure)
declare write_varint.simps [simp del]

text \<open>
  The loop of \<^verbatim>\<open>read_varint\<close> from the state (iterator, \<^verbatim>\<open>shift\<close>, \<^verbatim>\<open>read\<close>, \<^verbatim>\<open>write\<close>); it returns the
  result code, the value of \<^verbatim>\<open>write\<close> and the advanced iterator.  The subtraction that computes
  \<^verbatim>\<open>bits_avail\<close> is on \<^verbatim>\<open>size_t\<close> and wraps.
\<close>

fun read_varint_loop ::
  "bytes \<Rightarrow> nat \<Rightarrow> int \<Rightarrow> 'a::len word \<Rightarrow> int \<times> 'a word \<times> bytes" where
  "read_varint_loop [] shift rd w = (EVARINT_TRUNCATED, w, [])"
| "read_varint_loop (byte # it) shift rd w =
     (let bits_avail = (LENGTH('a) + SIZE_T_MOD - shift) mod SIZE_T_MOD in
      if byte = 0 \<and> shift \<noteq> 0 then (EVARINT_REPRESENT, w, it)
      else if bits_avail \<le> 7 \<and> unat byte \<ge> 2 ^ bits_avail then (EVARINT_OVERFLOW, w, it)
      else
        let w' = w OR push_bit shift (ucast (byte AND 127)) in
        if byte AND 128 \<noteq> 0
        then read_varint_loop it ((shift + 7) mod SIZE_T_MOD) (rd + 1) w'
        else (rd + 1, w', it))"

definition read_varint :: "bytes \<Rightarrow> int \<times> 'a::len word \<times> bytes" where
  "read_varint bs = read_varint_loop bs 0 0 0"

text \<open>A reader's view of the result: the value and the rest of the input, or nothing on error.\<close>

definition varint_dec :: "bytes \<Rightarrow> ('a::len word \<times> bytes) option" where
  "varint_dec bs = (case read_varint bs of (n, x, rest) \<Rightarrow> if 0 < n then Some (x, rest) else None)"

section \<open>Steps of the two loops\<close>

lemma bits_avail: "shift \<le> LENGTH('a::len) \<Longrightarrow> LENGTH('a) \<le> 64 \<Longrightarrow>
   (LENGTH('a) + SIZE_T_MOD - shift) mod SIZE_T_MOD = LENGTH('a) - shift"
  using mod_add_self2[of "LENGTH('a) - shift" SIZE_T_MOD] by (simp add: SIZE_T_MOD_def)

lemma write_cont_byte:
  "unat (ucast (i AND 127 :: 'a::len word) OR 128 :: 8 word) = unat i mod 128 + 128"
  by (subst byte_or_128) (simp_all add: unat_ucast_to_byte unat_and_127)

lemma write_varint_cons:
  fixes y y' :: "'a::len word"
  assumes "unat y = unat b mod 128 + 128 * unat y'" "128 \<le> unat b" "y' \<noteq> 0"
  shows "write_varint y = b # write_varint y'"
proof -
  have "unat y' \<noteq> 0" using assms(3) by (simp add: unat_eq_0)
  then have big: "unat y > 127" using assms(1) by simp
  have "unat (ucast (y AND 127) OR 128 :: 8 word) = unat y mod 128 + 128" by (rule write_cont_byte)
  also have "unat y mod 128 = unat b mod 128" using assms(1) by simp
  also have "unat b mod 128 = unat b - 128"
  proof -
    have "unat b < 256" using unsigned_less[of b, where 'a=nat] by simp
    then show ?thesis using assms(2) by (simp add: le_mod_geq)
  qed
  finally have "ucast (y AND 127) OR 128 = b" using assms(2) by (simp add: word_unat_eq_iff)
  moreover have "drop_bit 7 y = y'" using assms(1) unat_drop7[of y] by (simp add: word_unat_eq_iff)
  ultimately show ?thesis using big by (simp add: write_varint.simps[of y])
qed

lemma read_step_write:
  fixes w :: "'a::len word" and b :: "8 word"
  assumes "unat w < 2 ^ s" "(unat b mod 128) * 2 ^ s < 2 ^ LENGTH('a)" "s < LENGTH('a)"
  shows "unat (w OR push_bit s (ucast (b AND 127))) = unat w + unat b mod 128 * 2 ^ s"
proof -
  have "unat b mod 128 \<le> (unat b mod 128) * 2 ^ s" by simp
  then have "unat b mod 128 < 2 ^ LENGTH('a)" using assms(2) by (rule le_less_trans)
  then have c: "unat (ucast (b AND 127) :: 'a word) = unat b mod 128"
    by (simp add: unat_ucast_byte unat_and_127)
  have "unat b mod 128 < 2 ^ (LENGTH('a) - s)" using assms by (intro pow_shift) auto
  then have "Suc (unat b mod 128) * 2 ^ s \<le> 2 ^ (LENGTH('a) - s) * 2 ^ s" 
    by (intro mult_le_mono1) simp
  also have "2 ^ (LENGTH('a) - s) * 2 ^ s = (2::nat) ^ LENGTH('a)"
    using assms(3) by (simp flip: power_add)
  finally have lt: "unat w + unat b mod 128 * 2 ^ s < 2 ^ LENGTH('a)" 
    using assms(1) by simp
  have "unat (w OR push_bit s (ucast (b AND 127))) = (unat w + unat b mod 128 * 2 ^ s) mod 2 ^ LENGTH('a)"
    using unat_or_disjoint[OF assms(1), of "ucast (b AND 127)", unfolded c, OF assms(2)] .
  then show ?thesis by (simp only: mod_less[OF lt])
qed

lemma read_loop_last:
  fixes w :: "'a::len word"
  assumes "LENGTH('a) \<le> 64" "s < LENGTH('a)" "b = 0 \<longrightarrow> s = 0" "unat b < 128" "unat b < 2 ^ (LENGTH('a) - s)"
  shows "read_varint_loop (b # it) s rd w = (rd + 1, w OR push_bit s (ucast (b AND 127)), it)"
proof -
  have "b AND 128 = 0" using assms(4) byte_and_128[of b] by simp
  moreover have "\<not> (b = 0 \<and> s \<noteq> 0)" using assms(3) by blast
  moreover have "\<not> 2 ^ (LENGTH('a) - s) \<le> unat b" using assms(5) by simp
  ultimately show ?thesis
    unfolding read_varint_loop.simps Let_def bits_avail[OF less_imp_le[OF assms(2)] assms(1)]
    by (cases "b = 0") simp_all
qed

lemma read_loop_more:
  fixes w :: "'a::len word"
  assumes "LENGTH('a) \<le> 64" "s + 7 < LENGTH('a)" "128 \<le> unat b"
  shows "read_varint_loop (b # it) s rd w
         = read_varint_loop it (s + 7) (rd + 1) (w OR push_bit s (ucast (b AND 127)))"
proof -
  have "b AND 128 \<noteq> 0" using assms(3) byte_and_128[of b] by simp
  moreover have "b \<noteq> 0" using assms(3) by auto
  moreover have "\<not> (LENGTH('a) - s \<le> 7)" using assms(2) by simp
  moreover have "(s + 7) mod SIZE_T_MOD = s + 7" using assms by (simp add: SIZE_T_MOD_def)
  moreover have "s \<le> LENGTH('a)" using assms(2) by simp
  note bits_avail[OF this assms(1)]
  ultimately show ?thesis unfolding read_varint_loop.simps Let_def by simp
qed

section \<open>Round trip and canonicity of the loops\<close>

lemma read_write_loop:
  fixes y w :: "'a::len word"
  assumes "LENGTH('a) \<le> 64" "unat w < 2 ^ s" "unat y * 2 ^ s < 2 ^ LENGTH('a)" "s = 0 \<or> y \<noteq> 0"
  shows "\<exists>x. read_varint_loop (write_varint y @ rest) s rd w
       = (rd + int (length (write_varint y)), x, rest) \<and> unat x = unat w + unat y * 2 ^ s"
  using assms
proof (induction y arbitrary: s rd w rule: write_varint.induct)
  case (1 y)
  have sl: "s < LENGTH('a)" using 1(4,5) shift_less[of "unat y" s "LENGTH('a)"]
    by (auto simp: unat_eq_0)
  show ?case
  proof (cases "unat y > 127")
    case True
    let ?b = "ucast (y AND 127 :: 'a word) OR 128 :: 8 word"
    let ?w = "w OR push_bit s (ucast (?b AND 127))"
    have s7: "s + 7 < LENGTH('a)" using shift7_less[OF _ 1(4)] True by simp
    have b: "unat ?b = unat y mod 128 + 128" by (rule write_cont_byte)
    have sp: "unat y mod 128 * 2 ^ s + unat y div 128 * 2 ^ (s + 7) = unat y * 2 ^ s" by (rule digit_split)
    have bm: "unat ?b mod 128 = unat y mod 128" unfolding b by simp
    have "unat ?b mod 128 * 2 ^ s < 2 ^ LENGTH('a)" unfolding bm using sp 1(4) by linarith
    then have w': "unat ?w = unat w + unat y mod 128 * 2 ^ s"
      using read_step_write[OF 1(3) _ sl, of ?b] unfolding bm by blast
    have "unat (drop_bit 7 y) \<noteq> 0" using True unfolding unat_drop7 by simp
    then have nz: "drop_bit 7 y \<noteq> 0" by auto
    have "\<exists>x. read_varint_loop (write_varint (drop_bit 7 y) @ rest) (s + 7) (rd + 1) ?w
       = (rd + 1 + int (length (write_varint (drop_bit 7 y))), x, rest)
          \<and> unat x = unat ?w + unat (drop_bit 7 y) * 2 ^ (s + 7)" (is "\<exists>x. ?l = ?r x \<and> _")
    proof (rule 1(1)[OF True 1(2)])
      show "unat ?w < 2 ^ (s + 7)" unfolding w' by (rule digit_bound[OF 1(3)])
      show "unat (drop_bit 7 y) * 2 ^ (s + 7) < 2 ^ LENGTH('a)" unfolding unat_drop7 using sp 1(4) by linarith
      show "s + 7 = 0 \<or> drop_bit 7 y \<noteq> 0" using nz by simp
    qed
    then obtain x where x: "?l = ?r x" "unat x = unat ?w + unat (drop_bit 7 y) * 2 ^ (s + 7)" by blast
    have ux: "unat x = unat w + unat y * 2 ^ s" using x(2) sp unfolding w' unat_drop7 by linarith
    have wy: "write_varint y = ?b # write_varint (drop_bit 7 y)"
      using True by (simp add: write_varint.simps[of y])
    have "128 \<le> unat ?b" using b by simp
    then have "read_varint_loop (write_varint y @ rest) s rd w = ?r x"
      unfolding wy append_Cons using read_loop_more[OF 1(2) s7] x(1) by simp
    then show ?thesis using ux unfolding wy by (intro exI[of _ x]) simp
  next
    case False
    let ?b = "ucast y :: 8 word"
    have b: "unat ?b = unat y" using False by (simp add: unat_ucast_to_byte)
    have c0: "?b = 0 \<longrightarrow> s = 0" using 1(5) b by (auto simp: unat_eq_0)
    have c1: "unat ?b < 2 ^ (LENGTH('a) - s)" unfolding b by (rule pow_shift[OF 1(4) less_imp_le[OF sl]])
    have c2: "unat ?b < 128" using b False by simp
    have "unat ?b mod 128 = unat y" using b False by simp
    then have c3: "unat (w OR push_bit s (ucast (?b AND 127))) = unat w + unat y * 2 ^ s" (is "unat ?w = _")
      using read_step_write[OF 1(3) _ sl, of ?b] 1(4) by metis
    have wy: "write_varint y = [?b]" using False by (simp add: write_varint.simps[of y])
    have "read_varint_loop (write_varint y @ rest) s rd w = (rd + int (length (write_varint y)), ?w, rest)"
      unfolding wy append_Cons append_Nil read_loop_last[OF 1(2) sl c0 c2 c1] by simp
    then show ?thesis using c3 by blast
  qed
qed

lemma varint_cons_exists:
  fixes y' :: "'a::len word"
  assumes y': "unat y' * 2 ^ (s + 7) < 2 ^ LENGTH('a)" "y' \<noteq> 0"
    and s7: "s + 7 < LENGTH('a)" and b: "128 \<le> unat b"
  obtains y :: "'a word" where "write_varint y = b # write_varint y'"
    and "unat b mod 128 * 2 ^ s + unat y' * 2 ^ (s + 7) = unat y * 2 ^ s"
    and "unat y * 2 ^ s < 2 ^ LENGTH('a)" and "y \<noteq> 0"
proof -
  let ?m = "unat b mod 128 + 128 * unat y'"
  have "unat y' < 2 ^ (LENGTH('a) - (s + 7))" using pow_shift[OF y'(1)] s7 by simp
  then have "Suc (unat y') * 128 \<le> 2 ^ (LENGTH('a) - (s + 7)) * 2 ^ 7"
    by (intro mult_le_mono) simp_all
  also have "\<dots> = 2 ^ (LENGTH('a) - (s + 7) + 7)" by (simp only: power_add)
  also have "LENGTH('a) - (s + 7) + 7 = LENGTH('a) - s" using s7 by simp
  finally have m: "?m < 2 ^ (LENGTH('a) - s)" by (simp add: less_le_trans)
  have "(2::nat) ^ (LENGTH('a) - s) \<le> 2 ^ LENGTH('a)" by (rule power_increasing) simp_all
  with m have "?m < 2 ^ LENGTH('a)" by (rule less_le_trans)
  then have uy: "unat (of_nat ?m :: 'a word) = ?m" by (simp only: unat_of_nat mod_less)
  define y :: "'a word" where "y = of_nat ?m"
  have wy: "write_varint y = b # write_varint y'"
    using uy b y'(2) unfolding y_def by (rule write_varint_cons)
  have "unat y mod 128 = unat b mod 128" "unat y div 128 = unat y'" unfolding y_def uy by simp_all
  then have sp: "unat b mod 128 * 2 ^ s + unat y' * 2 ^ (s + 7) = unat y * 2 ^ s"
    using digit_split[of "unat y" s] by simp
  have nz: "y \<noteq> 0" using y'(2) uy unfolding y_def by (auto simp: unat_eq_0)
  have "unat y * 2 ^ s < 2 ^ LENGTH('a)"
    using m s7 unfolding y_def uy by (intro pow_fit) auto
  from that[OF wy sp this nz] show ?thesis .
qed

lemma read_loop_canonical:
  fixes w x :: "'a::len word"
  assumes "LENGTH('a) \<le> 64" "s < LENGTH('a)" "unat w < 2 ^ s"
    and "read_varint_loop bs s rd w = (n, x, rest)" "0 < n"
  shows "\<exists>y::'a word. bs = write_varint y @ rest \<and> n = rd + int (length (write_varint y))
         \<and> unat x = unat w + unat y * 2 ^ s \<and> unat y * 2 ^ s < 2 ^ LENGTH('a) \<and> (y \<noteq> 0 \<or> s = 0)"
  using assms(2-)
proof (induction bs arbitrary: s rd w)
  case Nil
  then show ?case by (simp add: EVARINT_TRUNCATED_def)
next
  case (Cons b it)
  have neg: "\<not> EVARINT_REPRESENT > 0" "\<not> EVARINT_OVERFLOW > 0" 
    by (simp_all add: EVARINT_REPRESENT_def EVARINT_OVERFLOW_def)
  note ba = bits_avail[OF less_imp_le[OF Cons.prems(1)] assms(1)]
  have nz: "b = 0 \<longrightarrow> s = 0" using Cons.prems(3,4) neg 
    by (auto simp: Let_def split: if_splits)
  have no: "LENGTH('a) - s \<le> 7 \<longrightarrow> unat b < 2 ^ (LENGTH('a) - s)" using Cons.prems(3,4) neg nz
    by (auto simp: Let_def ba split: if_splits)
  have p7: "LENGTH('a) - s \<le> 7 \<Longrightarrow> (2::nat) ^ (LENGTH('a) - s) \<le> 2 ^ 7" by (rule power_increasing) simp_all
  let ?w = "w OR push_bit s (ucast (b AND 127))"
  show ?case
  proof (cases "128 \<le> unat b")
    case True
    have s7: "s + 7 < LENGTH('a)" using no p7 True by force
    have rec: "read_varint_loop it (s + 7) (rd + 1) ?w = (n, x, rest)"
      using Cons.prems(3) unfolding read_loop_more[OF assms(1) s7 True] .
    have "unat b mod 128 < 2 ^ (LENGTH('a) - s)"
    proof -
      have "(2::nat) ^ 7 \<le> 2 ^ (LENGTH('a) - s)" using s7 by (intro power_increasing) auto
      moreover have "unat b mod 128 < 128" by simp
      ultimately show ?thesis by simp
    qed
    then have bf: "unat b mod 128 * 2 ^ s < 2 ^ LENGTH('a)" 
      using Cons.prems(1) by (intro pow_fit) auto
    note w' = read_step_write[OF Cons.prems(2) bf Cons.prems(1)]
    have "unat ?w < 2 ^ (s + 7)" unfolding w' by (rule digit_bound[OF Cons.prems(2)])
    from Cons.IH[OF s7 this rec Cons.prems(4)] obtain y' :: "'a word" where y':
      "it = write_varint y' @ rest" "n = rd + 1 + int (length (write_varint y'))"
      "unat x = unat ?w + unat y' * 2 ^ (s + 7)" "unat y' * 2 ^ (s + 7) < 2 ^ LENGTH('a)" "y' \<noteq> 0"
      by (elim exE conjE disjE) (rule that, assumption+, simp)
    obtain y :: "'a word" where y: "write_varint y = b # write_varint y'"
      "unat b mod 128 * 2 ^ s + unat y' * 2 ^ (s + 7) = unat y * 2 ^ s"
      "unat y * 2 ^ s < 2 ^ LENGTH('a)" "y \<noteq> 0"
      using varint_cons_exists[OF y'(4,5) s7 True] .
    have "unat x = unat w + unat y * 2 ^ s" using y'(3) w' y(2) by linarith
    then show ?thesis using y y'(1,2) by (intro exI[of _ y]) auto
  next
    case False
    have bl: "unat b < 2 ^ (LENGTH('a) - s)"
    proof (cases "LENGTH('a) - s \<le> 7")
      case f: False
      then have "(2::nat) ^ 7 \<le> 2 ^ (LENGTH('a) - s)" by (intro power_increasing) auto
      then show ?thesis using False by simp
    qed (use no in simp)
    have last: "n = rd + 1" "x = ?w" "rest = it"
      using Cons.prems(3) read_loop_last[OF assms(1) Cons.prems(1) nz _ bl, of it rd w] False by auto
    have "(2::nat) ^ (LENGTH('a) - s) \<le> 2 ^ LENGTH('a)" by (rule power_increasing) simp_all
    with bl have "unat b < 2 ^ LENGTH('a)" by (rule less_le_trans)
    then have uy: "unat (ucast b :: 'a word) = unat b" by (simp only: unat_ucast_byte mod_less)
    have bf: "unat b * 2 ^ s < 2 ^ LENGTH('a)" using bl Cons.prems(1) by (intro pow_fit) auto
    have "unat b mod 128 = unat b" using False by simp
    then have w': "unat ?w = unat w + unat b * 2 ^ s"
      using read_step_write[OF Cons.prems(2) _ Cons.prems(1), of b] bf by simp
    have "unat (ucast (ucast b :: 'a word) :: 8 word) = unat b"
      using False by (simp add: unat_ucast_to_byte uy)
    then have "write_varint (ucast b :: 'a word) = [b]"
      using False by (simp add: write_varint.simps[of "ucast b"] uy word_unat_eq_iff)
    moreover have "(ucast b :: 'a word) \<noteq> 0 \<or> s = 0" using nz uy by (metis unat_eq_0)
    ultimately show ?thesis using last w' bf uy by (intro exI[of _ "ucast b"]) auto
  qed
qed

lemma write_varint_length:
  fixes y :: "'a::len word"
  assumes "unat y < 2 ^ (7 * k)" "0 < k"
  shows "length (write_varint y) \<le> k"
  using assms
proof (induction y arbitrary: k rule: write_varint.induct)
  case (1 y)
  show ?case
  proof (cases "unat y > 127")
    case True
    have "k \<noteq> 1" using True 1(2) by auto
    then obtain j where k: "k = Suc j" "0 < j" using 1(3) by (cases k) auto
    have "unat (drop_bit 7 y) < 2 ^ (7 * j)" using 1(2) unfolding unat_drop7 k
      by (simp add: power_add less_mult_imp_div_less mult.commute)
    from 1(1)[OF True this k(2)] True k(1) show ?thesis by (simp add: write_varint.simps[of y])
  qed (use 1 in \<open>simp add: write_varint.simps[of y]\<close>)
qed

section \<open>Properties\<close>

lemma read_write_varint:
  fixes x :: "'a::len word"
  assumes "LENGTH('a) \<le> 64"
  shows "read_varint (write_varint x @ rest) = (int (length (write_varint x)), x, rest)"
  using read_write_loop[OF assms, of 0 0 x rest 0] by (auto simp: read_varint_def dest!: unsigned_word_eqI)

lemma read_varint_exact:
  fixes x :: "'a::len word"
  assumes "LENGTH('a) \<le> 64" and "read_varint bs = (n, x, rest)" and "0 < n"
  shows "bs = write_varint x @ rest \<and> n = int (length (write_varint x))"
  using read_loop_canonical[OF assms(1), of 0 0 bs 0 n x rest] assms(2,3)
  by (auto simp: read_varint_def dest!: unsigned_word_eqI)

lemma write_varint_nonempty [simp]: "write_varint x \<noteq> []"
  by (simp add: write_varint.simps[of x])

lemma varint_codec:
  assumes "LENGTH('a::len) \<le> 64"
  shows "codec (write_varint :: 'a word \<Rightarrow> bytes) varint_dec"
proof
  fix v :: "'a word" and rest bs
  show "varint_dec (write_varint v @ rest) = Some (v, rest)"
    by (simp add: varint_dec_def read_write_varint[OF assms])
  show "varint_dec bs = Some (v, rest) \<Longrightarrow> bs = write_varint v @ rest"
    using read_varint_exact[OF assms] by (auto simp: varint_dec_def split: prod.splits if_splits)
qed

interpretation varint64: codec "write_varint :: u64 \<Rightarrow> bytes" varint_dec
  by (rule varint_codec) simp

interpretation varint32: codec "write_varint :: u32 \<Rightarrow> bytes" varint_dec
  by (rule varint_codec) simp

text \<open>Reading back a written value, whatever follows it in the stream, returns the number of
  bytes written, the value itself, and leaves the iterator right after it; for every unsigned type
  the sources use.\<close>

lemma varint_roundtrip:
  fixes x :: "'a::len word"
  assumes "LENGTH('a) \<le> 64"
  shows "read_varint (write_varint x @ rest) = (int (length (write_varint x)), x, rest)"
  using assms by (rule read_write_varint)

text \<open>The encoding is canonical: whenever the reader succeeds, the bytes it consumed are exactly
  the bytes the writer produces for the value read, so no value has a second accepted encoding.\<close>

lemma varint_canonical:
  fixes x :: "'a::len word"
  assumes "LENGTH('a) \<le> 64" and "read_varint bs = (n, x, rest)" and "0 < n"
  shows "bs = write_varint x @ rest \<and> n = int (length (write_varint x))"
  using assms by (rule read_varint_exact)

text \<open>The writer never emits more than \<^verbatim>\<open>VARINT_MAX_LENGTH\<close> bytes for its type, which is what its
  two assertions claim.\<close>

lemma varint_max_length:
  "length (write_varint (x :: 'a::len word)) \<le> VARINT_MAX_LENGTH TYPE('a)"
proof -
  have "LENGTH('a) \<le> 7 * ((LENGTH('a) + 6) div 7)" by linarith
  then have "(2::nat) ^ LENGTH('a) \<le> 2 ^ (7 * ((LENGTH('a) + 6) div 7))"
    by (rule power_increasing) simp
  then have "unat x < 2 ^ (7 * ((LENGTH('a) + 6) div 7))"
    using unsigned_less[of x, where 'a=nat] by (rule less_le_trans[rotated])
  moreover have "0 < (LENGTH('a) + 6) div 7" by (simp add: div_greater_zero_iff Suc_leI)
  ultimately show ?thesis unfolding VARINT_MAX_LENGTH_def by (rule write_varint_length)
qed

end
