(* ===== verification/Hardfork.thy ===== *)
theory Hardfork
  imports Xeq_Prelude
begin

text \<open>
  Hard forks and networks: the enumerations \<^verbatim>\<open>hf\<close> and \<^verbatim>\<open>network_type\<close> of
  \<^verbatim>\<open>src/cryptonote_config.h\<close>, the hard fork tables of \<^verbatim>\<open>src/cryptonote_basic/hardfork.cpp\<close> and the
  functions that read them.  The tables are ordered (the \<^verbatim>\<open>static_assert\<close>s of the source), and on an
  ordered table the height queries and the version queries agree.
\<close>

section \<open>Versions and networks\<close>

text \<open>The enumerators in the order of the source; \<^verbatim>\<open>none\<close> is 0 and \<^verbatim>\<open>hf7\<close> is 7.\<close>

datatype hf =
    hf_none
  | hf7 | hf8 | hf9_service_nodes | hf10_bulletproofs | hf11_infinite_staking
  | hf12_checkpointing | hf13_enforce_checkpoints | hf14_blink | hf15_ons | hf16_pulse
  | hf17 | hf18 | hf19_reward_batching | hf20_governance_payouts_fix | hf21_weekly_batching
  | hf22_sn_policy | hf20_eth_transition | hf21_eth | hf22_eth_fixup

fun hf_num :: "hf \<Rightarrow> nat" where
  "hf_num hf_none = 0"
| "hf_num hf7 = 7"
| "hf_num hf8 = 8"
| "hf_num hf9_service_nodes = 9"
| "hf_num hf10_bulletproofs = 10"
| "hf_num hf11_infinite_staking = 11"
| "hf_num hf12_checkpointing = 12"
| "hf_num hf13_enforce_checkpoints = 13"
| "hf_num hf14_blink = 14"
| "hf_num hf15_ons = 15"
| "hf_num hf16_pulse = 16"
| "hf_num hf17 = 17"
| "hf_num hf18 = 18"
| "hf_num hf19_reward_batching = 19"
| "hf_num hf20_governance_payouts_fix = 20"
| "hf_num hf21_weekly_batching = 21"
| "hf_num hf22_sn_policy = 22"
| "hf_num hf20_eth_transition = 23"
| "hf_num hf21_eth = 24"
| "hf_num hf22_eth_fixup = 25"

lemma hf_num_inj: "hf_num a = hf_num b \<Longrightarrow> a = b"
  by (cases a; cases b) simp_all

instantiation hf :: linorder
begin

definition less_eq_hf :: "hf \<Rightarrow> hf \<Rightarrow> bool" where
  "less_eq_hf a b \<longleftrightarrow> hf_num a \<le> hf_num b"

definition less_hf :: "hf \<Rightarrow> hf \<Rightarrow> bool" where
  "less_hf a b \<longleftrightarrow> hf_num a < hf_num b"

instance
  by standard (auto simp: less_eq_hf_def less_hf_def intro: hf_num_inj)

end

lemmas hf_order = less_eq_hf_def less_hf_def

lemma hf_none_least [simp]: "hf_none \<le> v" "\<not> v < hf_none"
  by (simp_all add: hf_order)

datatype network_type = MAINNET | TESTNET | DEVNET | STAGENET | LOCALDEV | FAKECHAIN | UNDEFINED

abbreviation ETH_TRANSITION :: hf where "ETH_TRANSITION \<equiv> hf20_eth_transition"
abbreviation ETH_BLS :: hf where "ETH_BLS \<equiv> hf21_eth"

text \<open>The predicate \<^verbatim>\<open>feature::pulse_recovery\<close>.\<close>

definition pulse_recovery :: "hf \<Rightarrow> nat \<Rightarrow> bool" where
  "pulse_recovery version snode_revision \<longleftrightarrow>
     version > hf22_sn_policy \<or> (version = hf22_sn_policy \<and> snode_revision \<ge> 1)"

definition hf_prev :: "hf \<Rightarrow> hf" where
  "hf_prev x =
     (if x \<le> hf7 then hf_none
      else case x of
        hf8 \<Rightarrow> hf7 | hf9_service_nodes \<Rightarrow> hf8 | hf10_bulletproofs \<Rightarrow> hf9_service_nodes
      | hf11_infinite_staking \<Rightarrow> hf10_bulletproofs | hf12_checkpointing \<Rightarrow> hf11_infinite_staking
      | hf13_enforce_checkpoints \<Rightarrow> hf12_checkpointing | hf14_blink \<Rightarrow> hf13_enforce_checkpoints
      | hf15_ons \<Rightarrow> hf14_blink | hf16_pulse \<Rightarrow> hf15_ons | hf17 \<Rightarrow> hf16_pulse | hf18 \<Rightarrow> hf17
      | hf19_reward_batching \<Rightarrow> hf18 | hf20_governance_payouts_fix \<Rightarrow> hf19_reward_batching
      | hf21_weekly_batching \<Rightarrow> hf20_governance_payouts_fix | hf22_sn_policy \<Rightarrow> hf21_weekly_batching
      | hf20_eth_transition \<Rightarrow> hf22_sn_policy | hf21_eth \<Rightarrow> hf20_eth_transition
      | hf22_eth_fixup \<Rightarrow> hf21_eth | _ \<Rightarrow> hf_none)"

section \<open>The hard fork tables\<close>

record hard_fork =
  hf_version :: hf
  snode_revision :: nat
  hf_height :: nat
  hf_time :: int

abbreviation hard_fork :: "hf \<Rightarrow> nat \<Rightarrow> nat \<Rightarrow> int \<Rightarrow> hard_fork" where
  "hard_fork v r h t \<equiv> \<lparr>hf_version = v, snode_revision = r, hf_height = h, hf_time = t\<rparr>"

definition mainnet_hard_forks :: "hard_fork list" where
  "mainnet_hard_forks =
     [hard_fork hf7 0 0 1653632397,
      hard_fork hf11_infinite_staking 0 2 1653632397,
      hard_fork hf12_checkpointing 0 3 1653632397,
      hard_fork hf13_enforce_checkpoints 0 4 1653632397,
      hard_fork hf14_blink 0 5 1653632397,
      hard_fork hf15_ons 0 6 1653632397,
      hard_fork hf16_pulse 0 750 1653632397,
      hard_fork hf17 0 751 1653632397,
      hard_fork hf18 0 752 1653632397,
      hard_fork hf19_reward_batching 0 753 1653632397,
      hard_fork hf19_reward_batching 1 754 1653632397,
      hard_fork hf19_reward_batching 2 755 1661205699,
      hard_fork hf19_reward_batching 3 756 1673385120,
      hard_fork hf20_governance_payouts_fix 0 37000 1781064000,
      hard_fork hf21_weekly_batching 0 99000 1784045460,
      hard_fork hf22_sn_policy 0 219120 1791226800,
      hard_fork hf22_sn_policy 1 236920 1792350000]"

definition testnet_hard_forks :: "hard_fork list" where
  "testnet_hard_forks =
     [hard_fork hf7 0 0 1653632397,
      hard_fork hf11_infinite_staking 0 2 1653632397,
      hard_fork hf12_checkpointing 0 3 1653632397,
      hard_fork hf13_enforce_checkpoints 0 4 1653632397,
      hard_fork hf14_blink 0 5 1653632397,
      hard_fork hf15_ons 0 6 1653632397,
      hard_fork hf16_pulse 0 750 1653632397,
      hard_fork hf17 0 751 1653632397,
      hard_fork hf18 0 752 1653632397,
      hard_fork hf19_reward_batching 0 753 1653632397,
      hard_fork hf19_reward_batching 1 754 1653632397,
      hard_fork hf19_reward_batching 2 755 1661205699,
      hard_fork hf19_reward_batching 3 756 1673385120,
      hard_fork hf20_governance_payouts_fix 0 760 1781064000,
      hard_fork hf21_weekly_batching 0 1000 1781064001,
      hard_fork hf22_sn_policy 0 1500 1781064002,
      hard_fork hf22_sn_policy 1 1600 1781064003]"

definition devnet_hard_forks :: "hard_fork list" where
  "devnet_hard_forks =
     [hard_fork hf7 0 0 1716310007,
      hard_fork hf14_blink 0 1 1716310014,
      hard_fork hf21_eth 0 2 1716310021]"

definition local_devnet_hard_forks :: "hard_fork list" where
  "local_devnet_hard_forks =
     [hard_fork hf7 0 0 1716310007,
      hard_fork hf14_blink 0 1 1716310014,
      hard_fork hf16_pulse 0 40 1716310016,
      hard_fork hf17 0 45 1716310017,
      hard_fork hf18 0 46 1716310018,
      hard_fork hf19_reward_batching 0 47 1716310019,
      hard_fork hf20_governance_payouts_fix 0 50 1716310020,
      hard_fork hf20_eth_transition 0 170 1716310020,
      hard_fork hf21_eth 0 171 1716310020]"

definition stagenet_hard_forks :: "hard_fork list" where
  "stagenet_hard_forks =
     [hard_fork hf7 0 0 1724084000,
      hard_fork hf14_blink 0 1 1724084014,
      hard_fork hf21_eth 0 250 1736985600]"

text \<open>The ordering check the source runs at compile time: the pair of version and revision grows
  strictly (lexicographically), so does the height, and the time never falls.\<close>

fun is_ordered_from :: "hard_fork \<Rightarrow> hard_fork list \<Rightarrow> bool" where
  "is_ordered_from prev [] = True"
| "is_ordered_from prev (h # hs) =
     (if (hf_version h < hf_version prev \<or>
          hf_version h = hf_version prev \<and> snode_revision h \<le> snode_revision prev)
         \<or> hf_height h \<le> hf_height prev \<or> hf_time h < hf_time prev
      then False
      else is_ordered_from h hs)"

definition is_ordered :: "hard_fork list \<Rightarrow> bool" where
  "is_ordered forks =
     (case forks of
        [] \<Rightarrow> False
      | h # hs \<Rightarrow> if hf_version h < hf7 then False else is_ordered_from h hs)"

text \<open>\<^verbatim>\<open>fakechain_hardforks\<close> is a global variable of the source, hence an argument here.\<close>

fun get_hard_forks :: "hard_fork list \<Rightarrow> network_type \<Rightarrow> hard_fork list" where
  "get_hard_forks fakechain MAINNET = mainnet_hard_forks"
| "get_hard_forks fakechain STAGENET = stagenet_hard_forks"
| "get_hard_forks fakechain TESTNET = testnet_hard_forks"
| "get_hard_forks fakechain DEVNET = devnet_hard_forks"
| "get_hard_forks fakechain LOCALDEV = local_devnet_hard_forks"
| "get_hard_forks fakechain FAKECHAIN = fakechain"
| "get_hard_forks fakechain UNDEFINED = []"

section \<open>Queries\<close>

text \<open>The loop of \<^verbatim>\<open>get_hard_fork_heights\<close>, with the pair found so far.  The heights are unsigned and
  the subtraction of one wraps at height 0.\<close>

definition u64_pred :: "nat \<Rightarrow> nat" where
  "u64_pred h = (if h = 0 then 2 ^ 64 - 1 else h - 1)"

fun get_hard_fork_heights_loop ::
  "hf \<Rightarrow> hard_fork list \<Rightarrow> nat option \<times> nat option \<Rightarrow> nat option \<times> nat option" where
  "get_hard_fork_heights_loop version [] found = found"
| "get_hard_fork_heights_loop version (h # hs) found =
     (if hf_version h > version then
        (if fst found \<noteq> None then (fst found, Some (u64_pred (hf_height h))) else found)
      else if hf_version h = version \<and> fst found = None then
        get_hard_fork_heights_loop version hs (Some (hf_height h), snd found)
      else get_hard_fork_heights_loop version hs found)"

text \<open>\<^verbatim>\<open>back()\<close> of an empty span is undefined behaviour, hence the option.\<close>

definition get_latest_hard_fork :: "hard_fork list \<Rightarrow> network_type \<Rightarrow> hard_fork option" where
  "get_latest_hard_fork fakechain nettype =
     (case get_hard_forks fakechain nettype of [] \<Rightarrow> None | hs \<Rightarrow> Some (last hs))"

definition get_hard_fork_heights ::
  "hard_fork list \<Rightarrow> network_type \<Rightarrow> hf \<Rightarrow> nat option \<times> nat option" where
  "get_hard_fork_heights fakechain nettype version =
     get_hard_fork_heights_loop version (get_hard_forks fakechain nettype) (None, None)"

fun hard_fork_ceil_loop :: "hf \<Rightarrow> hard_fork list \<Rightarrow> hf" where
  "hard_fork_ceil_loop version [] = version"
| "hard_fork_ceil_loop version (h # hs) =
     (if hf_version h \<ge> version then hf_version h else hard_fork_ceil_loop version hs)"

definition hard_fork_ceil :: "hard_fork list \<Rightarrow> network_type \<Rightarrow> hf \<Rightarrow> hf" where
  "hard_fork_ceil fakechain nettype version =
     hard_fork_ceil_loop version (get_hard_forks fakechain nettype)"

fun network_version_loop :: "nat \<Rightarrow> hard_fork list \<Rightarrow> hf \<times> nat \<Rightarrow> hf \<times> nat" where
  "network_version_loop height [] result = result"
| "network_version_loop height (h # hs) result =
     (if hf_height h \<le> height
      then network_version_loop height hs (hf_version h, snode_revision h)
      else result)"

definition get_network_version_revision ::
  "hard_fork list \<Rightarrow> network_type \<Rightarrow> nat \<Rightarrow> hf \<times> nat" where
  "get_network_version_revision fakechain nettype height =
     network_version_loop height (get_hard_forks fakechain nettype) (hf_none, 0)"

definition get_network_version :: "hard_fork list \<Rightarrow> network_type \<Rightarrow> nat \<Rightarrow> hf" where
  "get_network_version fakechain nettype height =
     fst (get_network_version_revision fakechain nettype height)"

definition is_hard_fork_at_least :: "hard_fork list \<Rightarrow> network_type \<Rightarrow> hf \<Rightarrow> nat \<Rightarrow> bool" where
  "is_hard_fork_at_least fakechain nettype version height \<longleftrightarrow>
     get_network_version fakechain nettype height \<ge> version"

definition hard_fork_begins :: "hard_fork list \<Rightarrow> network_type \<Rightarrow> hf \<Rightarrow> nat option" where
  "hard_fork_begins fakechain nettype version =
     fst (get_hard_fork_heights fakechain nettype (hard_fork_ceil fakechain nettype version))"

text \<open>This loop does not stop at the first fork of the future.\<close>

fun ideal_block_version_loop :: "nat \<Rightarrow> hard_fork list \<Rightarrow> hf \<times> nat \<Rightarrow> hf \<times> nat" where
  "ideal_block_version_loop height [] result = result"
| "ideal_block_version_loop height (h # hs) result =
     (let result1 = (if hf_height h \<le> height then (hf_version h, snode_revision h) else result);
          result2 = (if fst result1 < hf19_reward_batching
                     then (fst result1, hf_num (hf_version h)) else result1)
      in ideal_block_version_loop height hs result2)"

definition get_ideal_block_version :: "hard_fork list \<Rightarrow> network_type \<Rightarrow> nat \<Rightarrow> hf \<times> nat" where
  "get_ideal_block_version fakechain nettype height =
     ideal_block_version_loop height (get_hard_forks fakechain nettype) (hf_none, 0)"

section \<open>Ordered tables\<close>

lemma is_ordered_fromD:
  "is_ordered_from p hs \<Longrightarrow> q \<in> set hs \<Longrightarrow> hf_height p < hf_height q \<and> hf_version p \<le> hf_version q"
proof (induction p hs rule: is_ordered_from.induct)
  case (2 p h hs)
  then show ?case by (fastforce split: if_splits)
qed simp

text \<open>A property of versions that is closed upwards holds of the version active at a height exactly
  when the first table entry that has it is at or below the height.\<close>

lemma version_loop_find:
  assumes up: "\<And>a b. P a \<Longrightarrow> a \<le> b \<Longrightarrow> P b"
  shows "is_ordered_from p hs \<Longrightarrow> hf_height p \<le> height \<Longrightarrow>
    P (fst (network_version_loop height hs (hf_version p, r))) \<longleftrightarrow>
      P (hf_version p) \<or> (\<exists>q. find (\<lambda>h. P (hf_version h)) hs = Some q \<and> hf_height q \<le> height)"
proof (induction hs arbitrary: p r)
  case (Cons a hs)
  have a: "is_ordered_from a hs" "hf_version p \<le> hf_version a"
    using Cons.prems(1) by (auto split: if_splits)
  show ?case
  proof (cases "hf_height a \<le> height")
    case True
    then show ?thesis using Cons.IH[OF a(1) True] up[OF _ a(2)] by auto
  next
    case False
    have "\<not> hf_height q \<le> height" if "q \<in> set (a # hs)" for q
      using that False is_ordered_fromD[OF a(1)] by fastforce
    then show ?thesis using False by (auto simp: find_Some_iff split: if_splits)
  qed
qed simp

lemma network_version_find:
  assumes ord: "is_ordered hs" and up: "\<And>a b. P a \<Longrightarrow> a \<le> b \<Longrightarrow> P b" and none: "\<not> P hf_none"
  shows "P (fst (network_version_loop height hs (hf_none, 0))) \<longleftrightarrow>
           (\<exists>q. find (\<lambda>h. P (hf_version h)) hs = Some q \<and> hf_height q \<le> height)"
proof (cases hs)
  case Nil
  then show ?thesis using ord by (simp add: is_ordered_def)
next
  case (Cons p hs')
  have o: "is_ordered_from p hs'" using ord Cons by (simp add: is_ordered_def split: if_splits)
  show ?thesis
  proof (cases "hf_height p \<le> height")
    case True
    then show ?thesis using version_loop_find[of P, OF up o True] Cons by auto
  next
    case False
    have "\<not> hf_height q \<le> height" if "q \<in> set hs" for q
      using that False is_ordered_fromD[OF o] Cons by fastforce
    then show ?thesis using False none Cons by (auto simp: find_Some_iff split: if_splits)
  qed
qed

lemma ceil_loop_ge: "version \<le> hard_fork_ceil_loop version hs"
  by (induction hs) auto

lemma heights_loop_first: "fst (get_hard_fork_heights_loop v hs (Some a, b)) = Some a"
  by (induction hs arbitrary: b) auto

lemma begins_find:
  "fst (get_hard_fork_heights_loop (hard_fork_ceil_loop v hs) hs (None, None)) =
     map_option hf_height (find (\<lambda>h. v \<le> hf_version h) hs)"
proof (induction hs)
  case (Cons a hs)
  show ?case
  proof (cases "v \<le> hf_version a")
    case False
    then have "hf_version a < hard_fork_ceil_loop v hs" using ceil_loop_ge[of v hs] by simp
    then show ?thesis using False Cons by auto
  qed (simp add: heights_loop_first)
qed simp

lemma heights_loop_found:
  "get_hard_fork_heights_loop v hs (Some a, None) =
     (Some a, map_option (\<lambda>h. u64_pred (hf_height h)) (find (\<lambda>h. v < hf_version h) hs))"
  by (induction hs) auto

lemma heights_loop_find:
  "get_hard_fork_heights_loop v hs (None, None) =
     (case find (\<lambda>h. v \<le> hf_version h) hs of
        None \<Rightarrow> (None, None)
      | Some q \<Rightarrow> if hf_version q = v
          then (Some (hf_height q),
                map_option (\<lambda>h. u64_pred (hf_height h)) (find (\<lambda>h. v < hf_version h) hs))
          else (None, None))"
proof (induction hs)
  case (Cons a hs)
  consider "hf_version a < v" | "hf_version a = v" | "v < hf_version a" by fastforce
  then show ?case by cases (auto simp: Cons heights_loop_found split: option.split)
qed simp

lemma find_greater:
  "find (\<lambda>h. v \<le> hf_version h) hs = Some q \<Longrightarrow> hf_version q \<noteq> v \<Longrightarrow>
     find (\<lambda>h. v < hf_version h) hs = Some q"
  by (induction hs) (auto split: if_splits)

lemma u64_pred_less: "0 < q \<Longrightarrow> h \<le> u64_pred q \<longleftrightarrow> \<not> q \<le> h"
  by (auto simp: u64_pred_def)

text \<open>Entries after the first of an ordered table are at a positive height.\<close>

lemma find_later_positive:
  assumes "is_ordered hs" and "find (\<lambda>h. v < hf_version h) hs = Some q"
    and "find (\<lambda>h. v \<le> hf_version h) hs = Some q'" and "hf_version q' = v"
  shows "0 < hf_height q"
proof (cases hs)
  case (Cons p hs')
  have o: "is_ordered_from p hs'" using assms(1) Cons by (simp add: is_ordered_def split: if_splits)
  have "\<not> v < hf_version p" using assms(3,4) Cons by (auto split: if_splits)
  then have "find (\<lambda>h. v < hf_version h) hs' = Some q" using assms(2) Cons by simp
  then have "q \<in> set hs'" by (auto simp: find_Some_iff)
  then show ?thesis using is_ordered_fromD[OF o] by fastforce
qed (use assms in simp)

lemma network_version_loop_revision:
  "network_version_loop height hs (v, r) = (v', r') \<Longrightarrow>
     (v', r') = (v, r) \<or> (\<exists>q \<in> set hs. hf_version q = v' \<and> snode_revision q = r' \<and> hf_height q \<le> height)"
  by (induction hs arbitrary: v r) (auto split: if_splits)

lemma ideal_loop_future:
  assumes "\<forall>h \<in> set hs. \<not> hf_height h \<le> height"
  shows "ideal_block_version_loop height hs
           (v, if v < hf19_reward_batching then hf_num (hf_version q) else m) =
         (v, if v < hf19_reward_batching then hf_num (hf_version (last (q # hs))) else m)"
  using assms
proof (induction hs arbitrary: q)
  case (Cons h hs)
  then show ?case using Cons.IH[of h] by (auto simp: Let_def)
qed simp

lemma ideal_loop_spec:
  assumes "is_ordered_from p hs" and "hf_height p \<le> height"
  shows "ideal_block_version_loop height hs
           (hf_version p, if hf_version p < hf19_reward_batching then hf_num (hf_version p)
                          else snode_revision p) =
         (case network_version_loop height hs (hf_version p, snode_revision p) of (v, r) \<Rightarrow>
            (v, if v < hf19_reward_batching then hf_num (hf_version (last (p # hs))) else r))"
  using assms
proof (induction hs arbitrary: p)
  case (Cons h hs)
  have o: "is_ordered_from h hs" using Cons.prems by (auto split: if_splits)
  show ?case
  proof (cases "hf_height h \<le> height")
    case True
    then show ?thesis
      using Cons.IH[OF o True] by (cases "hf_version h < hf19_reward_batching") (simp_all add: Let_def split: prod.split)
  next
    case False
    then have "\<forall>q \<in> set (h # hs). \<not> hf_height q \<le> height" using is_ordered_fromD[OF o] by fastforce
    from ideal_loop_future[OF this, of "hf_version p" p "snode_revision p"] False
    show ?thesis by simp
  qed
qed simp

section \<open>Properties\<close>

text \<open>The hard fork table of every network compiled into the node passes the ordering check, also
  that of the local development network, which the source does not assert.\<close>

lemma hard_fork_tables_ordered:
  assumes "nettype \<notin> {FAKECHAIN, UNDEFINED}"
  shows "is_ordered (get_hard_forks fakechain nettype)"
  using assms
  by (cases nettype)
    (simp_all add: is_ordered_def hf_order mainnet_hard_forks_def testnet_hard_forks_def
      devnet_hard_forks_def local_devnet_hard_forks_def stagenet_hard_forks_def)

text \<open>The two ways of asking whether a fork is active agree on an ordered table: a height is at or
  past a version exactly when \<^verbatim>\<open>hard_fork_begins\<close> gives a start height not above it, also for
  versions the table skips.\<close>

lemma at_least_iff_begins:
  assumes "is_ordered (get_hard_forks fakechain nettype)" and "version \<noteq> hf_none"
  shows "is_hard_fork_at_least fakechain nettype version height \<longleftrightarrow>
           (\<exists>start. hard_fork_begins fakechain nettype version = Some start \<and> start \<le> height)"
proof -
  have "\<not> version \<le> hf_none" using assms(2) hf_none_least(1) antisym by blast
  then have "version \<le> fst (network_version_loop height (get_hard_forks fakechain nettype) (hf_none, 0))
      \<longleftrightarrow> (\<exists>q. find (\<lambda>h. version \<le> hf_version h) (get_hard_forks fakechain nettype) = Some q
            \<and> hf_height q \<le> height)"
    by (intro network_version_find[OF assms(1)]) auto
  then show ?thesis
    by (auto simp: is_hard_fork_at_least_def get_network_version_def hard_fork_begins_def
        get_network_version_revision_def get_hard_fork_heights_def hard_fork_ceil_def begins_find)
qed

text \<open>\<^verbatim>\<open>get_hard_fork_heights\<close> returns exactly the range of heights at which the version is the
  active one: the version at a height is the given one if and only if the height is at or above the
  first and at or below the last height returned (no last height meaning no bound).\<close>

lemma hard_fork_heights_range:
  assumes "is_ordered (get_hard_forks fakechain nettype)" and "version \<noteq> hf_none"
    and "get_hard_fork_heights fakechain nettype version = (start, finish)"
  shows "get_network_version fakechain nettype height = version \<longleftrightarrow>
           (\<exists>a. start = Some a \<and> a \<le> height) \<and> (\<forall>b. finish = Some b \<longrightarrow> height \<le> b)"
proof -
  let ?hs = "get_hard_forks fakechain nettype"
  let ?v = "fst (network_version_loop height ?hs (hf_none, 0))"
  have "\<not> version \<le> hf_none" using assms(2) hf_none_least(1) antisym by blast
  then have ge: "version \<le> ?v \<longleftrightarrow>
      (\<exists>q. find (\<lambda>h. version \<le> hf_version h) ?hs = Some q \<and> hf_height q \<le> height)"
    by (intro network_version_find[OF assms(1)]) auto
  have gt: "version < ?v \<longleftrightarrow>
      (\<exists>q. find (\<lambda>h. version < hf_version h) ?hs = Some q \<and> hf_height q \<le> height)"
    by (intro network_version_find[OF assms(1)]) auto
  have eq: "?v = version \<longleftrightarrow> version \<le> ?v \<and> \<not> version < ?v" by auto
  note defs = get_network_version_def get_network_version_revision_def get_hard_fork_heights_def
  show ?thesis
  proof (cases "find (\<lambda>h. version \<le> hf_version h) ?hs")
    case None
    then show ?thesis using assms(3) unfolding defs eq ge by (auto simp: heights_loop_find)
  next
    case (Some q)
    show ?thesis
    proof (cases "hf_version q = version")
      case True
      have "start = Some (hf_height q)"
        and l: "finish = map_option (\<lambda>h. u64_pred (hf_height h)) (find (\<lambda>h. version < hf_version h) ?hs)"
        using assms(3) Some True by (auto simp: defs heights_loop_find)
      moreover have "(\<forall>b. finish = Some b \<longrightarrow> height \<le> b) \<longleftrightarrow>
          \<not> (\<exists>q. find (\<lambda>h. version < hf_version h) ?hs = Some q \<and> hf_height q \<le> height)"
        unfolding l using find_later_positive[OF assms(1) _ Some True] by (auto simp: u64_pred_less)
      ultimately show ?thesis using Some unfolding defs eq ge gt by auto
    next
      case False
      then have "start = None" using assms(3) Some by (auto simp: defs heights_loop_find)
      then show ?thesis using find_greater[OF Some False] Some unfolding defs eq ge gt by auto
    qed
  qed
qed

text \<open>On the main network the pulse recovery rules are in force exactly from height 236920, and no
  height ever reaches the Ethereum fork, so the version stays below it as the comments promise.\<close>

lemma mainnet_pulse_recovery:
  "((case get_network_version_revision fakechain MAINNET height of (v, r) \<Rightarrow> pulse_recovery v r)
     \<longleftrightarrow> 236920 \<le> height)
   \<and> \<not> is_hard_fork_at_least fakechain MAINNET ETH_TRANSITION height"
  by (simp add: get_network_version_revision_def get_network_version_def is_hard_fork_at_least_def
      mainnet_hard_forks_def pulse_recovery_def hf_order)

text \<open>The version a node puts on its own blocks: the major version is the active network version;
  from HF19 on the minor version is the active service node revision, before it the largest version
  in the table.\<close>

lemma ideal_block_version:
  assumes "get_hard_forks fakechain nettype = p # hs" and "is_ordered (p # hs)"
    and "hf_height p \<le> height"
  shows "get_ideal_block_version fakechain nettype height =
     (case get_network_version_revision fakechain nettype height of (v, r) \<Rightarrow>
        (v, if v < hf19_reward_batching then hf_num (hf_version (last (p # hs))) else r))"
proof -
  have "is_ordered_from p hs" using assms(2) by (simp add: is_ordered_def split: if_splits)
  from ideal_loop_spec[OF this assms(3)] show ?thesis
    using assms(1,3)
    by (cases "hf_version p < hf19_reward_batching")
      (simp_all add: get_ideal_block_version_def get_network_version_revision_def Let_def)
qed

end
