(* ===== verification/Network_Config.thy ===== *)
theory Network_Config
  imports Hardfork
begin

text \<open>
  The parameters of the networks: \<^verbatim>\<open>struct network_config\<close> of
  \<^verbatim>\<open>src/network_config/network_config.h\<close> and its six values in \<^verbatim>\<open>mainnet.h\<close>, \<^verbatim>\<open>testnet.h\<close>,
  \<^verbatim>\<open>devnet.h\<close>, \<^verbatim>\<open>stagenet.h\<close>, \<^verbatim>\<open>localdev.h\<close> and \<^verbatim>\<open>fakechain.h\<close>.  Durations are in seconds, except
  \<^verbatim>\<open>L2_BLOCK_TIME\<close> in milliseconds.  A field that an initialiser leaves out is zero, false or empty,
  as in C++.  The text fields that no modelled function reads (sub directory, network id, seed nodes,
  genesis transaction, contract addresses, URL) are left out.
\<close>

record network_config =
  NETWORK_TYPE :: network_type
  HEIGHT_ESTIMATE_HEIGHT :: nat
  HEIGHT_ESTIMATE_TIMESTAMP :: int
  PUBLIC_ADDRESS_BASE58_PREFIX :: nat
  PUBLIC_INTEGRATED_ADDRESS_BASE58_PREFIX :: nat
  PUBLIC_SUBADDRESS_BASE58_PREFIX :: nat
  P2P_DEFAULT_PORT :: nat
  RPC_DEFAULT_PORT :: nat
  QNET_DEFAULT_PORT :: nat
  GENESIS_NONCE :: nat
  GOVERNANCE_REWARD_INTERVAL :: int
  GOVERNANCE_WALLET_ADDRESS :: "string list"
  UPTIME_PROOF_TOLERANCE :: int
  UPTIME_PROOF_STARTUP_DELAY :: int
  UPTIME_PROOF_CHECK_INTERVAL :: int
  UPTIME_PROOF_FREQUENCY :: int
  UPTIME_PROOF_VALIDITY :: int
  MAX_DEACTIVATE_PER_BLOCK :: nat
  HAVE_STORAGE_SERVER :: bool
  HAVE_SESSION_ROUTER :: bool
  HAVE_LOKINET :: bool
  TARGET_BLOCK_TIME :: int
  PULSE_STAGE_TIMEOUT :: int
  PULSE_ROUND_TIMEOUT :: int
  PULSE_MAX_START_ADJUSTMENT :: int
  PULSE_MINER_FALLBACK_ROUNDS :: nat
  FALLBACK_MINER_PUBKEYS :: "string list"
  PULSE_MIN_SERVICE_NODES :: nat
  BATCHING_INTERVAL :: nat
  MIN_BATCH_PAYMENT_AMOUNT :: nat
  BATCHING_INTERVAL_V2 :: nat
  MIN_BATCH_PAYMENT_AMOUNT_V2 :: nat
  LIMIT_BATCH_OUTPUTS :: nat
  SERVICE_NODE_PAYABLE_AFTER_BLOCKS :: nat
  DEREGISTRATION_LOCK_DURATION :: int
  DEREGISTRATION_LOCK_DURATION_V2 :: int
  UNLOCK_DURATION :: int
  HARDFORK_DEREGISTRATION_GRACE_PERIOD :: nat
  HISTORY_ARCHIVE_INTERVAL :: nat
  HISTORY_ARCHIVE_KEEP_WINDOW :: nat
  HISTORY_RECENT_KEEP_WINDOW :: nat
  ETH_EXIT_BUFFER :: nat
  ETH_DEREG_BUFFER :: nat
  ETHEREUM_CHAIN_ID :: nat
  L2_REWARD_POOL_UPDATE_BLOCKS :: nat
  L2_TRACKER_SAFE_BLOCKS :: nat
  L2_NODE_LIST_PURGE_BLOCKS :: nat
  L2_NODE_LIST_PURGE_MIN_OXEN_AGE :: nat

definition L2_BLOCK_TIME :: int where
  "L2_BLOCK_TIME = 250"

definition mainnet_TARGET_BLOCK_TIME :: int where
  "mainnet_TARGET_BLOCK_TIME = 1 * 60"

definition localdev_TARGET_BLOCK_TIME :: int where
  "localdev_TARGET_BLOCK_TIME = 5"

definition mainnet_fallback_miner_pubkeys :: "string list" where
  "mainnet_fallback_miner_pubkeys = [
     ''69c287255899a3633906b4c3e358f42748c0894987672a28730e9bb7b31b27c9'',
     ''bdffb531a652ce95e7ba62c4589d7f7138cbbfe10927cc1f2708c7ea4603aab1'',
     ''e1a49dc9488e43e4099028e8c7209b062cbdf1f48ff6467ad4dd6ba71c6ab46b'']"

definition testnet_fallback_miner_pubkeys :: "string list" where
  "testnet_fallback_miner_pubkeys = [
     ''fc3f4e927eb61bc9e2edcff069936a96bdb893f74f7c9ec80f8fc52983e349f5'']"

definition mainnet_config :: network_config where
  "mainnet_config = \<lparr>
     NETWORK_TYPE = MAINNET,
     HEIGHT_ESTIMATE_HEIGHT = 32322,
     HEIGHT_ESTIMATE_TIMESTAMP = 1710140000,
     PUBLIC_ADDRESS_BASE58_PREFIX = 0x191eb4,
     PUBLIC_INTEGRATED_ADDRESS_BASE58_PREFIX = 0x191eb3,
     PUBLIC_SUBADDRESS_BASE58_PREFIX = 0x191eb2,
     P2P_DEFAULT_PORT = 9230,
     RPC_DEFAULT_PORT = 9231,
     QNET_DEFAULT_PORT = 9232,
     GENESIS_NONCE = 12345,
     GOVERNANCE_REWARD_INTERVAL = 24 * 3600,
     GOVERNANCE_WALLET_ADDRESS = [''XEQM9BXYDV2A6wudXpKNLd9zQbC7HCGaYiKWC1ew6xyFhL81ds3E5TiMAqUsTg5VXqKvKvGbDHcbKERfxKgND6Xw5fDLZzgswz'', ''''],
     UPTIME_PROOF_TOLERANCE = 5 * 60,
     UPTIME_PROOF_STARTUP_DELAY = 30,
     UPTIME_PROOF_CHECK_INTERVAL = 30,
     UPTIME_PROOF_FREQUENCY = 10 * 60,
     UPTIME_PROOF_VALIDITY = 21 * 60,
     MAX_DEACTIVATE_PER_BLOCK = 1,
     HAVE_STORAGE_SERVER = False,
     HAVE_SESSION_ROUTER = False,
     HAVE_LOKINET = False,
     TARGET_BLOCK_TIME = mainnet_TARGET_BLOCK_TIME,
     PULSE_STAGE_TIMEOUT = 10,
     PULSE_ROUND_TIMEOUT = 30,
     PULSE_MAX_START_ADJUSTMENT = 15,
     PULSE_MINER_FALLBACK_ROUNDS = 2,
     FALLBACK_MINER_PUBKEYS = mainnet_fallback_miner_pubkeys,
     PULSE_MIN_SERVICE_NODES = 12,
     BATCHING_INTERVAL = 20,
     MIN_BATCH_PAYMENT_AMOUNT = 100000000,
     BATCHING_INTERVAL_V2 = 10080,
     MIN_BATCH_PAYMENT_AMOUNT_V2 = 1000000000,
     LIMIT_BATCH_OUTPUTS = 15,
     SERVICE_NODE_PAYABLE_AFTER_BLOCKS = 4,
     DEREGISTRATION_LOCK_DURATION = 7 * 24 * 3600,
     DEREGISTRATION_LOCK_DURATION_V2 = 14 * 24 * 3600,
     UNLOCK_DURATION = 14 * 24 * 3600,
     HARDFORK_DEREGISTRATION_GRACE_PERIOD = nat (5 * 24 * 3600 div mainnet_TARGET_BLOCK_TIME),
     HISTORY_ARCHIVE_INTERVAL = 10000,
     HISTORY_ARCHIVE_KEEP_WINDOW = nat (2 * 365 * 24 * 3600 div mainnet_TARGET_BLOCK_TIME),
     HISTORY_RECENT_KEEP_WINDOW = 65,
     ETH_EXIT_BUFFER = nat (1 * 3600 div mainnet_TARGET_BLOCK_TIME),
     ETH_DEREG_BUFFER = nat (1 * 3600 div mainnet_TARGET_BLOCK_TIME),
     ETHEREUM_CHAIN_ID = 421614,
     L2_REWARD_POOL_UPDATE_BLOCKS = nat (10 * 60000 div L2_BLOCK_TIME div 4),
     L2_TRACKER_SAFE_BLOCKS = nat (70 * 1000 div L2_BLOCK_TIME),
     L2_NODE_LIST_PURGE_BLOCKS = nat (1 * 3600000 div L2_BLOCK_TIME div 2),
     L2_NODE_LIST_PURGE_MIN_OXEN_AGE = nat (24 * 3600 div mainnet_TARGET_BLOCK_TIME)\<rparr>"

definition testnet_config :: network_config where
  "testnet_config = \<lparr>
     NETWORK_TYPE = TESTNET,
     HEIGHT_ESTIMATE_HEIGHT = 0,
     HEIGHT_ESTIMATE_TIMESTAMP = 0,
     PUBLIC_ADDRESS_BASE58_PREFIX = 0x1c1eb4,
     PUBLIC_INTEGRATED_ADDRESS_BASE58_PREFIX = 0x179eb4,
     PUBLIC_SUBADDRESS_BASE58_PREFIX = 0x0f1eb4,
     P2P_DEFAULT_PORT = 38156,
     RPC_DEFAULT_PORT = 38157,
     QNET_DEFAULT_PORT = 38159,
     GENESIS_NONCE = 12345,
     GOVERNANCE_REWARD_INTERVAL = 2000 * 60,
     GOVERNANCE_WALLET_ADDRESS = [''XEQT8QP2BWFevNjsrvAqipQdCF7C6WdXs5BPWfa2vZRH4h1ZfuRr9wtds5gAwCGqoAd5psteQiTwdH17Fe3Vb7G25BkRFEo2MC'', ''''],
     UPTIME_PROOF_TOLERANCE = UPTIME_PROOF_TOLERANCE mainnet_config,
     UPTIME_PROOF_STARTUP_DELAY = UPTIME_PROOF_STARTUP_DELAY mainnet_config,
     UPTIME_PROOF_CHECK_INTERVAL = UPTIME_PROOF_CHECK_INTERVAL mainnet_config,
     UPTIME_PROOF_FREQUENCY = 10 * 60,
     UPTIME_PROOF_VALIDITY = 21 * 60,
     MAX_DEACTIVATE_PER_BLOCK = 0,
     HAVE_STORAGE_SERVER = False,
     HAVE_SESSION_ROUTER = False,
     HAVE_LOKINET = False,
     TARGET_BLOCK_TIME = (TARGET_BLOCK_TIME mainnet_config),
     PULSE_STAGE_TIMEOUT = PULSE_STAGE_TIMEOUT mainnet_config,
     PULSE_ROUND_TIMEOUT = PULSE_ROUND_TIMEOUT mainnet_config,
     PULSE_MAX_START_ADJUSTMENT = PULSE_MAX_START_ADJUSTMENT mainnet_config,
     PULSE_MINER_FALLBACK_ROUNDS = PULSE_MINER_FALLBACK_ROUNDS mainnet_config,
     FALLBACK_MINER_PUBKEYS = testnet_fallback_miner_pubkeys,
     PULSE_MIN_SERVICE_NODES = 12,
     BATCHING_INTERVAL = 20,
     MIN_BATCH_PAYMENT_AMOUNT = MIN_BATCH_PAYMENT_AMOUNT mainnet_config,
     BATCHING_INTERVAL_V2 = BATCHING_INTERVAL_V2 mainnet_config,
     MIN_BATCH_PAYMENT_AMOUNT_V2 = MIN_BATCH_PAYMENT_AMOUNT_V2 mainnet_config,
     LIMIT_BATCH_OUTPUTS = LIMIT_BATCH_OUTPUTS mainnet_config,
     SERVICE_NODE_PAYABLE_AFTER_BLOCKS = 4,
     DEREGISTRATION_LOCK_DURATION = 48 * 3600,
     DEREGISTRATION_LOCK_DURATION_V2 = 24 * 3600,
     UNLOCK_DURATION = 24 * 3600,
     HARDFORK_DEREGISTRATION_GRACE_PERIOD = HARDFORK_DEREGISTRATION_GRACE_PERIOD mainnet_config,
     HISTORY_ARCHIVE_INTERVAL = HISTORY_ARCHIVE_INTERVAL mainnet_config,
     HISTORY_ARCHIVE_KEEP_WINDOW = HISTORY_ARCHIVE_KEEP_WINDOW mainnet_config,
     HISTORY_RECENT_KEEP_WINDOW = HISTORY_RECENT_KEEP_WINDOW mainnet_config,
     ETH_EXIT_BUFFER = nat (1 * 3600 div (TARGET_BLOCK_TIME mainnet_config)),
     ETH_DEREG_BUFFER = 0,
     ETHEREUM_CHAIN_ID = 421614,
     L2_REWARD_POOL_UPDATE_BLOCKS = L2_REWARD_POOL_UPDATE_BLOCKS mainnet_config div 4,
     L2_TRACKER_SAFE_BLOCKS = L2_TRACKER_SAFE_BLOCKS mainnet_config,
     L2_NODE_LIST_PURGE_BLOCKS = L2_NODE_LIST_PURGE_BLOCKS mainnet_config div 2,
     L2_NODE_LIST_PURGE_MIN_OXEN_AGE = L2_NODE_LIST_PURGE_MIN_OXEN_AGE mainnet_config\<rparr>"

definition devnet_config :: network_config where
  "devnet_config = \<lparr>
     NETWORK_TYPE = DEVNET,
     HEIGHT_ESTIMATE_HEIGHT = 0,
     HEIGHT_ESTIMATE_TIMESTAMP = 1597170000,
     PUBLIC_ADDRESS_BASE58_PREFIX = 3930,
     PUBLIC_INTEGRATED_ADDRESS_BASE58_PREFIX = 4442,
     PUBLIC_SUBADDRESS_BASE58_PREFIX = 5850,
     P2P_DEFAULT_PORT = 38856,
     RPC_DEFAULT_PORT = 38857,
     QNET_DEFAULT_PORT = 38859,
     GENESIS_NONCE = 12345,
     GOVERNANCE_REWARD_INTERVAL = GOVERNANCE_REWARD_INTERVAL mainnet_config,
     GOVERNANCE_WALLET_ADDRESS = [''XEQDTcb2KBmevAwaP56ru33ffLHouCPnCKDjK3R8tQVmg7zrDsujZLFGwnuQ7EFL3iSK8dVn7nPgWTrAbAybU5d84MsQoWGdmR'', ''''],
     UPTIME_PROOF_TOLERANCE = UPTIME_PROOF_TOLERANCE mainnet_config,
     UPTIME_PROOF_STARTUP_DELAY = 5,
     UPTIME_PROOF_CHECK_INTERVAL = UPTIME_PROOF_CHECK_INTERVAL mainnet_config,
     UPTIME_PROOF_FREQUENCY = UPTIME_PROOF_FREQUENCY testnet_config,
     UPTIME_PROOF_VALIDITY = UPTIME_PROOF_VALIDITY testnet_config,
     MAX_DEACTIVATE_PER_BLOCK = MAX_DEACTIVATE_PER_BLOCK testnet_config,
     HAVE_STORAGE_SERVER = False,
     HAVE_SESSION_ROUTER = False,
     HAVE_LOKINET = False,
     TARGET_BLOCK_TIME = 30,
     PULSE_STAGE_TIMEOUT = 10,
     PULSE_ROUND_TIMEOUT = 30,
     PULSE_MAX_START_ADJUSTMENT = 10,
     PULSE_MINER_FALLBACK_ROUNDS = 0,
     FALLBACK_MINER_PUBKEYS = [],
     PULSE_MIN_SERVICE_NODES = PULSE_MIN_SERVICE_NODES testnet_config,
     BATCHING_INTERVAL = BATCHING_INTERVAL testnet_config,
     MIN_BATCH_PAYMENT_AMOUNT = MIN_BATCH_PAYMENT_AMOUNT mainnet_config,
     BATCHING_INTERVAL_V2 = BATCHING_INTERVAL testnet_config,
     MIN_BATCH_PAYMENT_AMOUNT_V2 = MIN_BATCH_PAYMENT_AMOUNT mainnet_config,
     LIMIT_BATCH_OUTPUTS = LIMIT_BATCH_OUTPUTS mainnet_config,
     SERVICE_NODE_PAYABLE_AFTER_BLOCKS = SERVICE_NODE_PAYABLE_AFTER_BLOCKS testnet_config,
     DEREGISTRATION_LOCK_DURATION = DEREGISTRATION_LOCK_DURATION testnet_config,
     DEREGISTRATION_LOCK_DURATION_V2 = DEREGISTRATION_LOCK_DURATION_V2 testnet_config,
     UNLOCK_DURATION = UNLOCK_DURATION testnet_config,
     HARDFORK_DEREGISTRATION_GRACE_PERIOD = 100,
     HISTORY_ARCHIVE_INTERVAL = HISTORY_ARCHIVE_INTERVAL mainnet_config,
     HISTORY_ARCHIVE_KEEP_WINDOW = HISTORY_ARCHIVE_KEEP_WINDOW mainnet_config,
     HISTORY_RECENT_KEEP_WINDOW = HISTORY_RECENT_KEEP_WINDOW mainnet_config,
     ETH_EXIT_BUFFER = ETH_EXIT_BUFFER testnet_config,
     ETH_DEREG_BUFFER = ETH_DEREG_BUFFER testnet_config,
     ETHEREUM_CHAIN_ID = 42161,
     L2_REWARD_POOL_UPDATE_BLOCKS = L2_REWARD_POOL_UPDATE_BLOCKS testnet_config,
     L2_TRACKER_SAFE_BLOCKS = L2_TRACKER_SAFE_BLOCKS mainnet_config,
     L2_NODE_LIST_PURGE_BLOCKS = nat (10 * 60000 div L2_BLOCK_TIME),
     L2_NODE_LIST_PURGE_MIN_OXEN_AGE = L2_NODE_LIST_PURGE_MIN_OXEN_AGE mainnet_config\<rparr>"

definition stagenet_config :: network_config where
  "stagenet_config = \<lparr>
     NETWORK_TYPE = STAGENET,
     HEIGHT_ESTIMATE_HEIGHT = 0,
     HEIGHT_ESTIMATE_TIMESTAMP = 1710140000,
     PUBLIC_ADDRESS_BASE58_PREFIX = 0x1b9eb4,
     PUBLIC_INTEGRATED_ADDRESS_BASE58_PREFIX = 0x1b9eb4,
     PUBLIC_SUBADDRESS_BASE58_PREFIX = 0x1b9eb4,
     P2P_DEFAULT_PORT = 11022,
     RPC_DEFAULT_PORT = 11023,
     QNET_DEFAULT_PORT = 11025,
     GENESIS_NONCE = 12345,
     GOVERNANCE_REWARD_INTERVAL = GOVERNANCE_REWARD_INTERVAL mainnet_config,
     GOVERNANCE_WALLET_ADDRESS = [''XEQSRiaXQU1QrCLQWGKKfPjcu4vYKpPAbbZmxY73dvHsEdvfDpfgf1zdnwmF3Xy7HrUNgbUB3eAJvcupZaFUo2pE4MVToAJUy5'', ''''],
     UPTIME_PROOF_TOLERANCE = UPTIME_PROOF_TOLERANCE mainnet_config,
     UPTIME_PROOF_STARTUP_DELAY = 5,
     UPTIME_PROOF_CHECK_INTERVAL = UPTIME_PROOF_CHECK_INTERVAL mainnet_config,
     UPTIME_PROOF_FREQUENCY = UPTIME_PROOF_FREQUENCY testnet_config,
     UPTIME_PROOF_VALIDITY = UPTIME_PROOF_VALIDITY testnet_config,
     MAX_DEACTIVATE_PER_BLOCK = MAX_DEACTIVATE_PER_BLOCK testnet_config,
     HAVE_STORAGE_SERVER = False,
     HAVE_SESSION_ROUTER = False,
     HAVE_LOKINET = False,
     TARGET_BLOCK_TIME = mainnet_TARGET_BLOCK_TIME,
     PULSE_STAGE_TIMEOUT = PULSE_STAGE_TIMEOUT mainnet_config,
     PULSE_ROUND_TIMEOUT = PULSE_ROUND_TIMEOUT mainnet_config,
     PULSE_MAX_START_ADJUSTMENT = PULSE_MAX_START_ADJUSTMENT mainnet_config,
     PULSE_MINER_FALLBACK_ROUNDS = 0,
     FALLBACK_MINER_PUBKEYS = [],
     PULSE_MIN_SERVICE_NODES = PULSE_MIN_SERVICE_NODES testnet_config,
     BATCHING_INTERVAL = BATCHING_INTERVAL testnet_config,
     MIN_BATCH_PAYMENT_AMOUNT = MIN_BATCH_PAYMENT_AMOUNT mainnet_config,
     BATCHING_INTERVAL_V2 = BATCHING_INTERVAL testnet_config,
     MIN_BATCH_PAYMENT_AMOUNT_V2 = MIN_BATCH_PAYMENT_AMOUNT mainnet_config,
     LIMIT_BATCH_OUTPUTS = LIMIT_BATCH_OUTPUTS mainnet_config,
     SERVICE_NODE_PAYABLE_AFTER_BLOCKS = SERVICE_NODE_PAYABLE_AFTER_BLOCKS testnet_config,
     DEREGISTRATION_LOCK_DURATION = DEREGISTRATION_LOCK_DURATION testnet_config,
     DEREGISTRATION_LOCK_DURATION_V2 = DEREGISTRATION_LOCK_DURATION_V2 testnet_config,
     UNLOCK_DURATION = UNLOCK_DURATION testnet_config,
     HARDFORK_DEREGISTRATION_GRACE_PERIOD = HARDFORK_DEREGISTRATION_GRACE_PERIOD mainnet_config,
     HISTORY_ARCHIVE_INTERVAL = HISTORY_ARCHIVE_INTERVAL mainnet_config,
     HISTORY_ARCHIVE_KEEP_WINDOW = HISTORY_ARCHIVE_KEEP_WINDOW mainnet_config,
     HISTORY_RECENT_KEEP_WINDOW = HISTORY_RECENT_KEEP_WINDOW mainnet_config,
     ETH_EXIT_BUFFER = nat (2 * 3600 div (TARGET_BLOCK_TIME mainnet_config)),
     ETH_DEREG_BUFFER = nat (2 * 3600 div (TARGET_BLOCK_TIME mainnet_config)),
     ETHEREUM_CHAIN_ID = 421614,
     L2_REWARD_POOL_UPDATE_BLOCKS = L2_REWARD_POOL_UPDATE_BLOCKS testnet_config,
     L2_TRACKER_SAFE_BLOCKS = L2_TRACKER_SAFE_BLOCKS mainnet_config,
     L2_NODE_LIST_PURGE_BLOCKS = L2_NODE_LIST_PURGE_BLOCKS testnet_config,
     L2_NODE_LIST_PURGE_MIN_OXEN_AGE = L2_NODE_LIST_PURGE_MIN_OXEN_AGE testnet_config\<rparr>"

definition localdev_config :: network_config where
  "localdev_config = \<lparr>
     NETWORK_TYPE = LOCALDEV,
     HEIGHT_ESTIMATE_HEIGHT = HEIGHT_ESTIMATE_HEIGHT devnet_config,
     HEIGHT_ESTIMATE_TIMESTAMP = HEIGHT_ESTIMATE_TIMESTAMP devnet_config,
     PUBLIC_ADDRESS_BASE58_PREFIX = PUBLIC_ADDRESS_BASE58_PREFIX devnet_config,
     PUBLIC_INTEGRATED_ADDRESS_BASE58_PREFIX = PUBLIC_INTEGRATED_ADDRESS_BASE58_PREFIX devnet_config,
     PUBLIC_SUBADDRESS_BASE58_PREFIX = PUBLIC_SUBADDRESS_BASE58_PREFIX devnet_config,
     P2P_DEFAULT_PORT = P2P_DEFAULT_PORT devnet_config,
     RPC_DEFAULT_PORT = RPC_DEFAULT_PORT devnet_config,
     QNET_DEFAULT_PORT = QNET_DEFAULT_PORT devnet_config,
     GENESIS_NONCE = GENESIS_NONCE devnet_config,
     GOVERNANCE_REWARD_INTERVAL = GOVERNANCE_REWARD_INTERVAL mainnet_config,
     GOVERNANCE_WALLET_ADDRESS = GOVERNANCE_WALLET_ADDRESS devnet_config,
     UPTIME_PROOF_TOLERANCE = UPTIME_PROOF_TOLERANCE mainnet_config,
     UPTIME_PROOF_STARTUP_DELAY = UPTIME_PROOF_STARTUP_DELAY mainnet_config,
     UPTIME_PROOF_CHECK_INTERVAL = UPTIME_PROOF_CHECK_INTERVAL mainnet_config,
     UPTIME_PROOF_FREQUENCY = UPTIME_PROOF_FREQUENCY testnet_config,
     UPTIME_PROOF_VALIDITY = UPTIME_PROOF_VALIDITY testnet_config,
     MAX_DEACTIVATE_PER_BLOCK = MAX_DEACTIVATE_PER_BLOCK testnet_config,
     HAVE_STORAGE_SERVER = False,
     HAVE_SESSION_ROUTER = False,
     HAVE_LOKINET = False,
     TARGET_BLOCK_TIME = localdev_TARGET_BLOCK_TIME,
     PULSE_STAGE_TIMEOUT = 3,
     PULSE_ROUND_TIMEOUT = 4,
     PULSE_MAX_START_ADJUSTMENT = 4,
     PULSE_MINER_FALLBACK_ROUNDS = 0,
     FALLBACK_MINER_PUBKEYS = [],
     PULSE_MIN_SERVICE_NODES = PULSE_MIN_SERVICE_NODES testnet_config,
     BATCHING_INTERVAL = BATCHING_INTERVAL testnet_config,
     MIN_BATCH_PAYMENT_AMOUNT = MIN_BATCH_PAYMENT_AMOUNT mainnet_config,
     BATCHING_INTERVAL_V2 = BATCHING_INTERVAL testnet_config,
     MIN_BATCH_PAYMENT_AMOUNT_V2 = MIN_BATCH_PAYMENT_AMOUNT mainnet_config,
     LIMIT_BATCH_OUTPUTS = LIMIT_BATCH_OUTPUTS mainnet_config,
     SERVICE_NODE_PAYABLE_AFTER_BLOCKS = 1,
     DEREGISTRATION_LOCK_DURATION = 10 * localdev_TARGET_BLOCK_TIME,
     DEREGISTRATION_LOCK_DURATION_V2 = 10 * localdev_TARGET_BLOCK_TIME,
     UNLOCK_DURATION = 0 * localdev_TARGET_BLOCK_TIME,
     HARDFORK_DEREGISTRATION_GRACE_PERIOD = HARDFORK_DEREGISTRATION_GRACE_PERIOD mainnet_config,
     HISTORY_ARCHIVE_INTERVAL = HISTORY_ARCHIVE_INTERVAL mainnet_config,
     HISTORY_ARCHIVE_KEEP_WINDOW = HISTORY_ARCHIVE_KEEP_WINDOW mainnet_config,
     HISTORY_RECENT_KEEP_WINDOW = HISTORY_RECENT_KEEP_WINDOW mainnet_config,
     ETH_EXIT_BUFFER = 1,
     ETH_DEREG_BUFFER = 1,
     ETHEREUM_CHAIN_ID = 31337,
     L2_REWARD_POOL_UPDATE_BLOCKS = 4,
     L2_TRACKER_SAFE_BLOCKS = 1,
     L2_NODE_LIST_PURGE_BLOCKS = 20,
     L2_NODE_LIST_PURGE_MIN_OXEN_AGE = 19\<rparr>"

definition fakechain_config :: network_config where
  "fakechain_config = \<lparr>
     NETWORK_TYPE = FAKECHAIN,
     HEIGHT_ESTIMATE_HEIGHT = HEIGHT_ESTIMATE_HEIGHT mainnet_config,
     HEIGHT_ESTIMATE_TIMESTAMP = HEIGHT_ESTIMATE_TIMESTAMP mainnet_config,
     PUBLIC_ADDRESS_BASE58_PREFIX = PUBLIC_ADDRESS_BASE58_PREFIX mainnet_config,
     PUBLIC_INTEGRATED_ADDRESS_BASE58_PREFIX = PUBLIC_INTEGRATED_ADDRESS_BASE58_PREFIX mainnet_config,
     PUBLIC_SUBADDRESS_BASE58_PREFIX = PUBLIC_SUBADDRESS_BASE58_PREFIX mainnet_config,
     P2P_DEFAULT_PORT = P2P_DEFAULT_PORT mainnet_config,
     RPC_DEFAULT_PORT = RPC_DEFAULT_PORT mainnet_config,
     QNET_DEFAULT_PORT = QNET_DEFAULT_PORT mainnet_config,
     GENESIS_NONCE = GENESIS_NONCE mainnet_config,
     GOVERNANCE_REWARD_INTERVAL = 200 * 60,
     GOVERNANCE_WALLET_ADDRESS = GOVERNANCE_WALLET_ADDRESS mainnet_config,
     UPTIME_PROOF_TOLERANCE = UPTIME_PROOF_TOLERANCE mainnet_config,
     UPTIME_PROOF_STARTUP_DELAY = 5,
     UPTIME_PROOF_CHECK_INTERVAL = 5,
     UPTIME_PROOF_FREQUENCY = 1 * 60,
     UPTIME_PROOF_VALIDITY = 2 * 60 + 5,
     MAX_DEACTIVATE_PER_BLOCK = MAX_DEACTIVATE_PER_BLOCK testnet_config,
     HAVE_STORAGE_SERVER = False,
     HAVE_SESSION_ROUTER = False,
     HAVE_LOKINET = False,
     TARGET_BLOCK_TIME = (TARGET_BLOCK_TIME mainnet_config),
     PULSE_STAGE_TIMEOUT = PULSE_STAGE_TIMEOUT mainnet_config,
     PULSE_ROUND_TIMEOUT = PULSE_ROUND_TIMEOUT mainnet_config,
     PULSE_MAX_START_ADJUSTMENT = PULSE_MAX_START_ADJUSTMENT mainnet_config,
     PULSE_MINER_FALLBACK_ROUNDS = 0,
     FALLBACK_MINER_PUBKEYS = [],
     PULSE_MIN_SERVICE_NODES = PULSE_MIN_SERVICE_NODES testnet_config,
     BATCHING_INTERVAL = BATCHING_INTERVAL testnet_config,
     MIN_BATCH_PAYMENT_AMOUNT = MIN_BATCH_PAYMENT_AMOUNT mainnet_config,
     BATCHING_INTERVAL_V2 = BATCHING_INTERVAL testnet_config,
     MIN_BATCH_PAYMENT_AMOUNT_V2 = MIN_BATCH_PAYMENT_AMOUNT mainnet_config,
     LIMIT_BATCH_OUTPUTS = LIMIT_BATCH_OUTPUTS mainnet_config,
     SERVICE_NODE_PAYABLE_AFTER_BLOCKS = SERVICE_NODE_PAYABLE_AFTER_BLOCKS testnet_config,
     DEREGISTRATION_LOCK_DURATION = 1 * 3600,
     DEREGISTRATION_LOCK_DURATION_V2 = 1 * 3600,
     UNLOCK_DURATION = 30 * 60,
     HARDFORK_DEREGISTRATION_GRACE_PERIOD = HARDFORK_DEREGISTRATION_GRACE_PERIOD mainnet_config,
     HISTORY_ARCHIVE_INTERVAL = HISTORY_ARCHIVE_INTERVAL mainnet_config,
     HISTORY_ARCHIVE_KEEP_WINDOW = HISTORY_ARCHIVE_KEEP_WINDOW mainnet_config,
     HISTORY_RECENT_KEEP_WINDOW = HISTORY_RECENT_KEEP_WINDOW mainnet_config,
     ETH_EXIT_BUFFER = ETH_EXIT_BUFFER testnet_config,
     ETH_DEREG_BUFFER = ETH_DEREG_BUFFER testnet_config,
     ETHEREUM_CHAIN_ID = ETHEREUM_CHAIN_ID mainnet_config,
     L2_REWARD_POOL_UPDATE_BLOCKS = L2_REWARD_POOL_UPDATE_BLOCKS mainnet_config,
     L2_TRACKER_SAFE_BLOCKS = L2_TRACKER_SAFE_BLOCKS mainnet_config,
     L2_NODE_LIST_PURGE_BLOCKS = L2_NODE_LIST_PURGE_BLOCKS mainnet_config,
     L2_NODE_LIST_PURGE_MIN_OXEN_AGE = L2_NODE_LIST_PURGE_MIN_OXEN_AGE mainnet_config\<rparr>"


section \<open>Derived parameters\<close>

text \<open>Division of durations truncates; every duration of the tables is positive.\<close>

definition BLOCKS_IN :: "network_config \<Rightarrow> int \<Rightarrow> int" where
  "BLOCKS_IN conf interval = interval div TARGET_BLOCK_TIME conf"

definition BLOCKS_PER_DAY :: "network_config \<Rightarrow> int" where
  "BLOCKS_PER_DAY conf = BLOCKS_IN conf (24 * 3600)"

definition BLOCKS_PER_HOUR :: "network_config \<Rightarrow> int" where
  "BLOCKS_PER_HOUR conf = BLOCKS_IN conf (1 * 3600)"

definition PULSE_MIN_TARGET_BLOCK_TIME :: "network_config \<Rightarrow> int" where
  "PULSE_MIN_TARGET_BLOCK_TIME conf = TARGET_BLOCK_TIME conf - PULSE_MAX_START_ADJUSTMENT conf"

definition PULSE_MAX_TARGET_BLOCK_TIME :: "network_config \<Rightarrow> int" where
  "PULSE_MAX_TARGET_BLOCK_TIME conf = TARGET_BLOCK_TIME conf + PULSE_MAX_START_ADJUSTMENT conf"

definition batching_interval :: "network_config \<Rightarrow> hf \<Rightarrow> nat" where
  "batching_interval conf v =
     (if v \<ge> hf21_weekly_batching then BATCHING_INTERVAL_V2 conf else BATCHING_INTERVAL conf)"

definition min_batch_payment_amount :: "network_config \<Rightarrow> hf \<Rightarrow> nat" where
  "min_batch_payment_amount conf v =
     (if v \<ge> hf21_weekly_batching then MIN_BATCH_PAYMENT_AMOUNT_V2 conf
      else MIN_BATCH_PAYMENT_AMOUNT conf)"

definition governance_wallet_address :: "network_config \<Rightarrow> hf \<Rightarrow> string" where
  "governance_wallet_address conf hard_fork_version =
     (if hard_fork_version \<ge> hf20_governance_payouts_fix then GOVERNANCE_WALLET_ADDRESS conf ! 0
      else
        let wallet_switch =
              (if NETWORK_TYPE conf = MAINNET \<or> NETWORK_TYPE conf = FAKECHAIN
               then hf11_infinite_staking else hf10_bulletproofs)
        in GOVERNANCE_WALLET_ADDRESS conf ! (if hard_fork_version \<ge> wallet_switch then 1 else 0))"

section \<open>The networks\<close>

definition ALL_NETWORKS :: "network_type list" where
  "ALL_NETWORKS = [MAINNET, STAGENET, TESTNET, DEVNET, LOCALDEV, FAKECHAIN]"

definition network_type_from_string :: "string \<Rightarrow> network_type" where
  "network_type_from_string s =
     (if s = ''mainnet'' then MAINNET
      else if s = ''testnet'' then TESTNET
      else if s = ''devnet'' then DEVNET
      else if s = ''stagenet'' then STAGENET
      else if s = ''localdev'' then LOCALDEV
      else if s = ''fakechain'' then FAKECHAIN
      else UNDEFINED)"

fun network_type_to_string :: "network_type \<Rightarrow> string" where
  "network_type_to_string MAINNET = ''mainnet''"
| "network_type_to_string TESTNET = ''testnet''"
| "network_type_to_string DEVNET = ''devnet''"
| "network_type_to_string STAGENET = ''stagenet''"
| "network_type_to_string LOCALDEV = ''localdev''"
| "network_type_to_string FAKECHAIN = ''fakechain''"
| "network_type_to_string UNDEFINED = ''undefined''"

text \<open>\<^verbatim>\<open>get_config\<close> throws on an undefined network: \<^term>\<open>None\<close>.\<close>

fun get_config :: "network_type \<Rightarrow> network_config option" where
  "get_config MAINNET = Some mainnet_config"
| "get_config STAGENET = Some stagenet_config"
| "get_config TESTNET = Some testnet_config"
| "get_config DEVNET = Some devnet_config"
| "get_config LOCALDEV = Some localdev_config"
| "get_config FAKECHAIN = Some fakechain_config"
| "get_config UNDEFINED = None"

lemmas time_defs = mainnet_TARGET_BLOCK_TIME_def localdev_TARGET_BLOCK_TIME_def

lemma mainnet_target [simp]: "TARGET_BLOCK_TIME mainnet_config = 60"
  by (simp add: mainnet_config_def time_defs)

lemma testnet_target [simp]: "TARGET_BLOCK_TIME testnet_config = 60"
  by (simp add: testnet_config_def time_defs)

lemma devnet_target [simp]: "TARGET_BLOCK_TIME devnet_config = 30"
  by (simp add: devnet_config_def time_defs)

lemma stagenet_target [simp]: "TARGET_BLOCK_TIME stagenet_config = 60"
  by (simp add: stagenet_config_def time_defs)

lemma localdev_target [simp]: "TARGET_BLOCK_TIME localdev_config = 5"
  by (simp add: localdev_config_def time_defs)

lemma fakechain_target [simp]: "TARGET_BLOCK_TIME fakechain_config = 60"
  by (simp add: fakechain_config_def time_defs)

lemma mainnet_min_nodes [simp]: "PULSE_MIN_SERVICE_NODES mainnet_config = 12"
  by (simp add: mainnet_config_def time_defs)

lemma testnet_min_nodes [simp]: "PULSE_MIN_SERVICE_NODES testnet_config = 12"
  by (simp add: testnet_config_def time_defs)

lemma devnet_min_nodes [simp]: "PULSE_MIN_SERVICE_NODES devnet_config = 12"
  by (simp add: devnet_config_def time_defs)

lemma stagenet_min_nodes [simp]: "PULSE_MIN_SERVICE_NODES stagenet_config = 12"
  by (simp add: stagenet_config_def time_defs)

lemma localdev_min_nodes [simp]: "PULSE_MIN_SERVICE_NODES localdev_config = 12"
  by (simp add: localdev_config_def time_defs)

lemma fakechain_min_nodes [simp]: "PULSE_MIN_SERVICE_NODES fakechain_config = 12"
  by (simp add: fakechain_config_def time_defs)

lemma mainnet_max_deactivate [simp]: "MAX_DEACTIVATE_PER_BLOCK mainnet_config = 1"
  by (simp add: mainnet_config_def time_defs)

lemma testnet_max_deactivate [simp]: "MAX_DEACTIVATE_PER_BLOCK testnet_config = 0"
  by (simp add: testnet_config_def time_defs)

lemma devnet_max_deactivate [simp]: "MAX_DEACTIVATE_PER_BLOCK devnet_config = 0"
  by (simp add: devnet_config_def time_defs)

lemma stagenet_max_deactivate [simp]: "MAX_DEACTIVATE_PER_BLOCK stagenet_config = 0"
  by (simp add: stagenet_config_def time_defs)

lemma localdev_max_deactivate [simp]: "MAX_DEACTIVATE_PER_BLOCK localdev_config = 0"
  by (simp add: localdev_config_def time_defs)

lemma fakechain_max_deactivate [simp]: "MAX_DEACTIVATE_PER_BLOCK fakechain_config = 0"
  by (simp add: fakechain_config_def time_defs)

end
