(* ===== verification/Int_Util.thy ===== *)
theory Int_Util
  imports Xeq_Prelude
begin

text \<open>
  The 128 bit helpers of \<^verbatim>\<open>contrib/epee/include/epee/int-util.h\<close>.  Each has two bodies, one for
  compilers with \<^verbatim>\<open>__int128\<close> and a portable one on 64 bit words; both are modelled and proved to
  compute the same results.  Functions with output pointers return tuples.
\<close>

section \<open>The code\<close>

definition hi_dword :: "u64 \<Rightarrow> u64" where
  "hi_dword val = drop_bit 32 val"

definition lo_dword :: "u64 \<Rightarrow> u64" where
  "lo_dword val = val AND 0xFFFFFFFF"

text \<open>\<^verbatim>\<open>mul128\<close> returns the low and the high half of the product.\<close>

definition mul128 :: "u64 \<Rightarrow> u64 \<Rightarrow> u64 \<times> u64" where
  "mul128 multiplier multiplicand =
     (let result = (ucast multiplier * ucast multiplicand :: 128 word)
      in (ucast result, ucast (drop_bit 64 result)))"

definition mul128_portable :: "u64 \<Rightarrow> u64 \<Rightarrow> u64 \<times> u64" where
  "mul128_portable multiplier multiplicand =
     (let a = hi_dword multiplier; b = lo_dword multiplier;
          c = hi_dword multiplicand; d = lo_dword multiplicand;
          ac = a * c; ad = a * d; bc = b * c; bd = b * d;
          adbc = ad + bc;
          adbc_carry = (if adbc < ad then 1 else 0);
          product_lo = bd + push_bit 32 adbc;
          product_lo_carry = (if product_lo < bd then 1 else 0);
          product_hi = ac + drop_bit 32 adbc + push_bit 32 adbc_carry + product_lo_carry
      in (product_lo, product_hi))"

text \<open>\<^verbatim>\<open>div_with_remainder\<close> returns the quotient and updates the 32 bit remainder.\<close>

definition div_with_remainder :: "u64 \<Rightarrow> u32 \<Rightarrow> u32 \<Rightarrow> u64 \<times> u32" where
  "div_with_remainder dividend divisor remainder =
     (let dividend' = dividend OR push_bit 32 (ucast remainder)
      in (dividend' div ucast divisor, ucast (dividend' mod ucast divisor)))"

definition div128_32 :: "u64 \<Rightarrow> u64 \<Rightarrow> u32 \<Rightarrow> u64 \<times> u64" where
  "div128_32 dividend_hi dividend_lo divisor =
     (let result = (push_bit 64 (ucast dividend_hi) OR ucast dividend_lo :: 128 word) div ucast divisor
      in (ucast (drop_bit 64 result), ucast result))"

definition div128_32_portable :: "u64 \<Rightarrow> u64 \<Rightarrow> u32 \<Rightarrow> u64 \<times> u64" where
  "div128_32_portable dividend_hi dividend_lo divisor =
     (let (q3, r3) = div_with_remainder (hi_dword dividend_hi) divisor 0;
          (q2, r2) = div_with_remainder (lo_dword dividend_hi) divisor r3;
          (q1, r1) = div_with_remainder (hi_dword dividend_lo) divisor r2;
          (q0, r0) = div_with_remainder (lo_dword dividend_lo) divisor r1
      in (push_bit 32 q3 OR q2, push_bit 32 q1 OR q0))"

text \<open>\<^verbatim>\<open>shl128\<close> shifts the pair left by one and returns the bit shifted out.\<close>

definition shl128 :: "u64 \<Rightarrow> u64 \<Rightarrow> bool \<times> u64 \<times> u64" where
  "shl128 hi lo =
     (drop_bit 63 hi \<noteq> 0, push_bit 1 hi + drop_bit 63 lo, push_bit 1 lo)"

definition div128_64 :: "u64 \<Rightarrow> u64 \<Rightarrow> u64 \<Rightarrow> u64 \<times> u64" where
  "div128_64 dividend_hi dividend_lo divisor =
     (let result = (push_bit 64 (ucast dividend_hi) OR ucast dividend_lo :: 128 word) div ucast divisor
      in (ucast (drop_bit 64 result), ucast result))"

definition div128_64_step :: "u64 \<Rightarrow> u64 \<times> u64 \<times> u64 \<Rightarrow> u64 \<times> u64 \<times> u64" where
  "div128_64_step divisor = (\<lambda>(remainder, dividend_hi, dividend_lo).
     let carry = (drop_bit 63 remainder \<noteq> 0);
         remainder1 = push_bit 1 remainder;
         (out, hi, lo) = shl128 dividend_hi dividend_lo;
         remainder2 = (if out then remainder1 OR 1 else remainder1)
     in if carry \<or> remainder2 \<ge> divisor
        then (remainder2 - divisor, hi, lo OR 1)
        else (remainder2, hi, lo))"

definition div128_64_portable :: "u64 \<Rightarrow> u64 \<Rightarrow> u64 \<Rightarrow> u64 \<times> u64" where
  "div128_64_portable dividend_hi dividend_lo divisor =
     snd ((div128_64_step divisor ^^ 128) (0, dividend_hi, dividend_lo))"

definition mul128_div64 :: "u64 \<Rightarrow> u64 \<Rightarrow> u64 \<Rightarrow> u64" where
  "mul128_div64 a b c = ucast ((ucast a * ucast b :: 128 word) div ucast c)"

definition mul128_div64_portable :: "u64 \<Rightarrow> u64 \<Rightarrow> u64 \<Rightarrow> u64" where
  "mul128_div64_portable a b c =
     (let (lo, hi) = mul128_portable a b;
          (resulthi, resultlo) = div128_64_portable hi lo c
      in resultlo)"

section \<open>Readings on natural numbers\<close>

lemma u64_less: "unat (x :: u64) < 2 ^ 64"
  using unsigned_less[of x, where 'a=nat] by simp

lemma unat_ucast_128 [simp]: "unat (ucast (x :: u64) :: 128 word) = unat x"
  by (simp add: unsigned_ucast_eq take_bit_nat_eq_self_iff less_trans[OF u64_less])

lemma unat_ucast_64: "unat (ucast (x :: 128 word) :: u64) = unat x mod 2 ^ 64"
  by (simp add: unsigned_ucast_eq take_bit_eq_mod)

lemma mult_u64_less: "unat (a :: u64) * unat (b :: u64) < 2 ^ 128"
proof -
  have "unat a * unat b < 2 ^ 64 * 2 ^ 64"
    using u64_less by (intro mult_strict_mono) auto
  then show ?thesis by (simp flip: power_add)
qed

lemma unat_mult_128: "unat (ucast (a :: u64) * ucast (b :: u64) :: 128 word) = unat a * unat b"
  using mult_u64_less[of a b] by (simp add: unat_word_ariths)

lemma unat_drop_128: "unat (drop_bit 64 (x :: 128 word)) = unat x div 2 ^ 64"
  by (subst unat_drop_bit_eq) (simp add: drop_bit_eq_div)

lemma mul128_unat:
  "unat (fst (mul128 a b)) = (unat a * unat b) mod 2 ^ 64"
  "unat (snd (mul128 a b)) = (unat a * unat b) div 2 ^ 64"
proof -
  show "unat (fst (mul128 a b)) = (unat a * unat b) mod 2 ^ 64"
    by (simp only: mul128_def Let_def fst_conv unat_ucast_64 unat_mult_128)
  have "(unat a * unat b) div 2 ^ 64 < 2 ^ 64"
    using mult_u64_less[of a b] by (simp add: less_mult_imp_div_less)
  then show "unat (snd (mul128 a b)) = (unat a * unat b) div 2 ^ 64"
    by (simp only: mul128_def Let_def snd_conv unat_ucast_64 unat_mult_128 unat_drop_128 mod_less)
qed

lemma unat_div128:
  fixes hi lo :: u64
  shows "unat (push_bit 64 (ucast hi) OR ucast lo :: 128 word) = unat hi * 2 ^ 64 + unat lo"
proof -
  have fit: "unat hi * 2 ^ 64 < 2 ^ 128"
    using u64_less[of hi] by simp
  have "unat (ucast lo OR push_bit 64 (ucast hi) :: 128 word)
      = (unat lo + unat hi * 2 ^ 64) mod 2 ^ 128"
    using fit u64_less[of lo] unat_or_disjoint[of "ucast lo :: 128 word" 64 "ucast hi"] by simp
  moreover have "unat lo + unat hi * 2 ^ 64 < 2 ^ 128"
    using u64_less[of lo] u64_less[of hi] by simp
  ultimately show ?thesis by (simp add: or.commute)
qed

lemma div128_64_unat:
  "unat (fst (div128_64 hi lo d)) = (unat hi * 2 ^ 64 + unat lo) div unat d div 2 ^ 64"
  "unat (snd (div128_64 hi lo d)) = (unat hi * 2 ^ 64 + unat lo) div unat d mod 2 ^ 64"
proof -
  let ?n = "unat hi * 2 ^ 64 + unat lo"
  have q: "unat ((push_bit 64 (ucast hi) OR ucast lo :: 128 word) div ucast d) = ?n div unat d"
    by (simp only: unat_div unat_div128 unat_ucast_128)
  have "?n < 2 ^ 128"
    using u64_less[of hi] u64_less[of lo] by simp
  then have "?n div unat d < 2 ^ 64 * 2 ^ 64"
    using le_less_trans[OF div_le_dividend[of ?n "unat d"]] by (simp flip: power_add)
  then have "?n div unat d div 2 ^ 64 < 2 ^ 64"
    by (rule less_mult_imp_div_less)
  then show "unat (fst (div128_64 hi lo d)) = ?n div unat d div 2 ^ 64"
    by (simp only: div128_64_def Let_def fst_conv unat_ucast_64 unat_drop_128 q mod_less)
  show "unat (snd (div128_64 hi lo d)) = ?n div unat d mod 2 ^ 64"
    by (simp only: div128_64_def Let_def snd_conv unat_ucast_64 q)
qed

lemma mul128_div64_unat:
  "unat (mul128_div64 a b c) = (unat a * unat b) div unat c mod 2 ^ 64"
  by (simp only: mul128_div64_def unat_ucast_64 unat_div unat_mult_128 unat_ucast_128)

section \<open>The portable multiplication\<close>

lemma unat_hi_dword: "unat (hi_dword x) = unat x div 2 ^ 32"
  unfolding hi_dword_def by (subst unat_drop_bit_eq) (simp add: drop_bit_eq_div)

lemma unat_lo_dword: "unat (lo_dword x) = unat x mod 2 ^ 32"
proof -
  have "lo_dword x = take_bit 32 x"
    by (simp add: lo_dword_def take_bit_eq_mask mask_eq_exp_minus_1)
  then show ?thesis by (simp only: unsigned_take_bit_eq) (simp only: take_bit_eq_mod)
qed

lemma dword_bounds: "unat (hi_dword x) < 2 ^ 32" "unat (lo_dword x) < 2 ^ 32"
  using u64_less[of x] by (auto simp: unat_hi_dword unat_lo_dword less_mult_imp_div_less)

lemma unat_dword_mult:
  assumes "unat (x :: u64) < 2 ^ 32" "unat (y :: u64) < 2 ^ 32"
  shows "unat (x * y) = unat x * unat y"
proof -
  have "unat x * unat y < 2 ^ 32 * 2 ^ 32"
    using assms by (intro mult_strict_mono) auto
  then show ?thesis by (simp add: unat_word_ariths)
qed

text \<open>An unsigned sum is read back from the wrapped sum and the carry test of the source.\<close>

lemma carry_add:
  fixes x y :: u64
  shows "unat x + unat y = unat (x + y) + (if x + y < x then 1 else 0) * 2 ^ 64"
proof (cases "unat x + unat y < 2 ^ 64")
  case True
  then have "unat (x + y) = unat x + unat y" by (simp add: unat_word_ariths)
  then show ?thesis by (simp add: word_less_nat_alt)
next
  case False
  then have "unat (x + y) = unat x + unat y - 2 ^ 64"
    using u64_less[of x] u64_less[of y] by (simp add: unat_word_ariths le_mod_geq)
  then show ?thesis using False u64_less[of y] by (simp add: word_less_nat_alt)
qed

lemma unat_push32: "unat (push_bit 32 (x :: u64)) = (unat x mod 2 ^ 32) * 2 ^ 32"
proof -
  have "unat (push_bit 32 x) = (2 ^ 32 * unat x) mod (2 ^ 32 * 2 ^ 32)"
    by (simp add: push_bit_eq_mult unat_word_ariths mult.commute)
  then show ?thesis by (simp only: mult_mod_right mult.commute)
qed

lemma quot_rem:
  assumes "(r :: nat) < m"
  shows "(q * m + r) div m = q" "(q * m + r) mod m = r"
  using assms by simp_all

lemma mul128_nat_identity:
  fixes A B C D adbc k lo c :: nat
  assumes "A * D + B * C = adbc + k * 2 ^ 64"
    and "B * D + (adbc mod 2 ^ 32) * 2 ^ 32 = lo + c * 2 ^ 64"
  shows "(A * 2 ^ 32 + B) * (C * 2 ^ 32 + D)
    = (A * C + adbc div 2 ^ 32 + k * 2 ^ 32 + c) * 2 ^ 64 + lo"
proof -
  define q r where "q = adbc div 2 ^ 32" and "r = adbc mod 2 ^ 32"
  have adbc: "adbc = q * 2 ^ 32 + r" by (simp add: q_def r_def)
  have "(A * 2 ^ 32 + B) * (C * 2 ^ 32 + D)
      = A * C * 2 ^ 64 + (A * D + B * C) * 2 ^ 32 + B * D"
    by (simp add: algebra_simps)
  also have "\<dots> = A * C * 2 ^ 64 + (q * 2 ^ 32 + r + k * 2 ^ 64) * 2 ^ 32 + B * D"
    by (simp only: assms(1) flip: adbc)
  also have "\<dots> = (A * C + q + k * 2 ^ 32) * 2 ^ 64 + (B * D + r * 2 ^ 32)"
    by (simp add: algebra_simps)
  also have "\<dots> = (A * C + q + k * 2 ^ 32 + c) * 2 ^ 64 + lo"
    unfolding assms(2)[folded r_def] by (simp add: algebra_simps)
  finally show ?thesis by (simp only: q_def)
qed

lemma mul128_portable_eq: "mul128_portable m n = mul128 m n"
proof -
  define a b c d where "a = hi_dword m" and "b = lo_dword m" and "c = hi_dword n" and "d = lo_dword n"
  define adbc where "adbc = a * d + b * c"
  define k :: u64 where "k = (if adbc < a * d then 1 else 0)"
  define lo where "lo = b * d + push_bit 32 adbc"
  define cy :: u64 where "cy = (if lo < b * d then 1 else 0)"
  define hi where "hi = a * c + drop_bit 32 adbc + push_bit 32 k + cy"
  note bounds = dword_bounds[of m, folded a_def b_def] dword_bounds[of n, folded c_def d_def]
  have m: "unat m = unat a * 2 ^ 32 + unat b" and n: "unat n = unat c * 2 ^ 32 + unat d"
    by (simp_all only: a_def b_def c_def d_def unat_hi_dword unat_lo_dword div_mult_mod_eq)
  have 1: "unat a * unat d + unat b * unat c = unat adbc + unat k * 2 ^ 64"
    using carry_add[of "a * d" "b * c"] bounds by (simp add: unat_dword_mult adbc_def k_def)
  have 2: "unat b * unat d + (unat adbc mod 2 ^ 32) * 2 ^ 32 = unat lo + unat cy * 2 ^ 64"
    using carry_add[of "b * d" "push_bit 32 adbc"] bounds
    by (simp add: unat_dword_mult unat_push32 lo_def cy_def)
  have prod: "unat m * unat n
      = (unat a * unat c + unat adbc div 2 ^ 32 + unat k * 2 ^ 32 + unat cy) * 2 ^ 64 + unat lo"
    unfolding m n by (rule mul128_nat_identity[OF 1 2])
  let ?hi = "unat a * unat c + unat adbc div 2 ^ 32 + unat k * 2 ^ 32 + unat cy"
  have "?hi * 2 ^ 64 < 2 ^ 64 * 2 ^ 64"
    using mult_u64_less[of m n] unfolding prod by simp
  then have small: "?hi < 2 ^ 64" by simp
  have k: "unat (push_bit 32 k) = unat k * 2 ^ 32"
    by (simp add: unat_push32 k_def)
  have q: "unat (drop_bit 32 adbc) = unat adbc div 2 ^ 32"
    by (rule unat_hi_dword[unfolded hi_dword_def])
  have hi: "unat hi = ?hi"
    using small k q bounds by (simp add: hi_def unat_word_ariths unat_dword_mult mod_simps)
  have "unat (fst (mul128 m n)) = unat lo" "unat (snd (mul128 m n)) = unat hi"
    by (simp_all only: mul128_unat prod hi quot_rem[OF u64_less])
  then have "mul128 m n = (lo, hi)"
    by (metis prod.collapse word_unat_eq_iff)
  then show ?thesis
    by (simp add: mul128_portable_def Let_def a_def b_def c_def d_def adbc_def k_def lo_def cy_def hi_def)
qed

section \<open>The portable division\<close>

abbreviation pair_nat :: "u64 \<Rightarrow> u64 \<Rightarrow> nat" where
  "pair_nat hi lo \<equiv> unat hi * 2 ^ 64 + unat lo"

lemma pair_less: "pair_nat hi lo < 2 ^ 128"
  using u64_less[of hi] u64_less[of lo] by simp

lemma unat_shl1: "unat (push_bit 1 (x :: u64)) = 2 * unat x mod 2 ^ 64"
  by (subst unat_push_bit) (simp add: mult.commute)

lemma top_bit: "(drop_bit 63 (x :: u64) \<noteq> 0) = (2 ^ 63 \<le> unat x)"
proof -
  have "unat (drop_bit 63 x) = unat x div 2 ^ 63"
    by (subst unat_drop_bit_eq) (simp add: drop_bit_eq_div)
  then show ?thesis
    by (metis div_eq_0_iff le_less_linear less_le_not_le power_not_zero unat_eq_0 zero_neq_numeral)
qed

lemma unat_top_bit: "unat (drop_bit 63 (x :: u64)) = (if 2 ^ 63 \<le> unat x then 1 else 0)"
proof -
  have "unat (drop_bit 63 x) = unat x div 2 ^ 63"
    by (subst unat_drop_bit_eq) (simp add: drop_bit_eq_div)
  then show ?thesis using u64_less[of x] by (simp add: div_nat_eqI)
qed

lemma unat_shl1_or_1: "unat (push_bit 1 (x :: u64) OR 1) = 2 * unat x mod 2 ^ 64 + 1"
proof -
  have "push_bit 1 x OR 1 = push_bit 1 x + 1" by (simp add: or_one_eq push_bit_eq_mult)
  moreover have "2 * unat x mod 2 ^ 64 + 1 < 2 ^ 64"
  proof -
    have "2 * unat x mod (2 * 2 ^ 63) = 2 * (unat x mod 2 ^ 63)" by (rule mult_mod_right[symmetric])
    moreover have "unat x mod 2 ^ 63 < 2 ^ 63" by simp
    ultimately show ?thesis by simp
  qed
  ultimately show ?thesis
    using unat_shl1[of x] by (simp add: unat_word_ariths mult.commute)
qed

lemma wrap_double:
  "(2 * n) mod (2 * m) = (if m \<le> n then 2 * n - 2 * m else 2 * n)" if "n < 2 * m" for n m :: nat
  using that by (auto simp: le_mod_geq)

lemma shl128_unat:
  assumes "shl128 hi lo = (out, hi', lo')"
  shows "out = (2 ^ 127 \<le> pair_nat hi lo)"
    and "pair_nat hi' lo' = 2 * pair_nat hi lo - (if out then 2 ^ 128 else 0)"
    and "even (unat lo')"
proof -
  have lo': "lo' = push_bit 1 lo" and hi': "hi' = push_bit 1 hi + drop_bit 63 lo"
    and out: "out = (2 ^ 63 \<le> unat hi)"
    using assms by (auto simp: shl128_def top_bit)
  have dlo: "unat lo' = (if 2 ^ 63 \<le> unat lo then 2 * unat lo - 2 ^ 64 else 2 * unat lo)"
    using wrap_double[of "unat lo" "2 ^ 63"] u64_less[of lo] unfolding lo' unat_shl1 by simp
  have dhi: "unat (push_bit 1 hi) = (if 2 ^ 63 \<le> unat hi then 2 * unat hi - 2 ^ 64 else 2 * unat hi)"
    using wrap_double[of "unat hi" "2 ^ 63"] u64_less[of hi] unfolding unat_shl1 by simp
  have hi'_nat: "unat hi' = unat (push_bit 1 hi) + (if 2 ^ 63 \<le> unat lo then 1 else 0)"
    using u64_less[of hi] dhi unfolding hi' by (auto simp: unat_word_ariths unat_top_bit split: if_splits)
  show "out = (2 ^ 127 \<le> pair_nat hi lo)"
    using u64_less[of lo] unfolding out by auto
  show "pair_nat hi' lo' = 2 * pair_nat hi lo - (if out then 2 ^ 128 else 0)"
    using u64_less[of lo] u64_less[of hi] dlo dhi hi'_nat out by (auto split: if_splits)
  show "even (unat lo')"
    using dlo by auto
qed

lemma div128_64_step_unat:
  assumes d: "unat r < unat d"
    and step: "div128_64_step d (r, hi, lo) = (r', hi', lo')"
  defines "b \<equiv> (if 2 ^ 127 \<le> pair_nat hi lo then 1 else 0)"
  defines "t \<equiv> 2 * unat r + b"
  shows "unat r' = (if unat d \<le> t then t - unat d else t)"
    and "pair_nat hi' lo' = 2 * pair_nat hi lo - b * 2 ^ 128 + (if unat d \<le> t then 1 else 0)"
proof -
  obtain out h l where shl: "shl128 hi lo = (out, h, l)" by (metis prod_cases3)
  note shl_facts = shl128_unat[OF shl]
  define r2 where "r2 = (if out then push_bit 1 r OR 1 else push_bit 1 r)"
  have r2: "unat r2 = 2 * unat r mod 2 ^ 64 + b"
    unfolding r2_def b_def using shl_facts(1) by (simp only: unat_shl1 unat_shl1_or_1 split: if_split) simp
  have dbl: "2 * unat r mod 2 ^ 64 = (if 2 ^ 63 \<le> unat r then 2 * unat r - 2 ^ 64 else 2 * unat r)"
    using wrap_double[of "unat r" "2 ^ 63"] u64_less[of r] by simp
  have test: "(drop_bit 63 r \<noteq> 0 \<or> d \<le> r2) = (unat d \<le> t)"
    using u64_less[of d] r2 dbl unfolding top_bit word_le_nat_alt t_def by (auto split: if_splits)
  have res: "(r', hi', lo') = (if unat d \<le> t then (r2 - d, h, l OR 1) else (r2, h, l))"
    using step by (simp only: div128_64_step_def shl Let_def case_prod_conv flip: r2_def) (simp only: test)
  have "unat (r2 - d) = t - unat d" if "unat d \<le> t"
  proof (cases "2 ^ 63 \<le> unat r")
    case True
    then have "\<not> unat d \<le> unat r2" "unat r2 + 2 ^ 64 = t"
      using r2 dbl d u64_less[of d] unfolding t_def b_def by (auto split: if_splits)
    then show ?thesis using that by (simp add: unat_sub_if')
  next
    case False
    then show ?thesis using that r2 dbl by (simp add: unat_sub_if' t_def)
  qed
  moreover have "unat r2 = t" if "\<not> unat d \<le> t"
    using that u64_less[of d] r2 dbl unfolding t_def by (auto split: if_splits)
  ultimately show "unat r' = (if unat d \<le> t then t - unat d else t)"
    using res by (auto split: if_splits)
  have "unat (l OR 1) = unat l + 1"
  proof -
    have "l = push_bit 1 lo" using shl by (simp add: shl128_def)
    then show ?thesis by (simp only: unat_shl1 unat_shl1_or_1)
  qed
  then show "pair_nat hi' lo' = 2 * pair_nat hi lo - b * 2 ^ 128 + (if unat d \<le> t then 1 else 0)"
    using res shl_facts(1,2) unfolding b_def by (auto split: if_splits)
qed

text \<open>One digit of schoolbook division in base two, on natural numbers.\<close>

lemma long_division_step:
  fixes T Q R d b :: nat
  assumes "R < d" "T = Q * d + R" "b \<le> 1"
  shows "(2 * T + b) mod d = (if d \<le> 2 * R + b then 2 * R + b - d else 2 * R + b)"
    and "(2 * T + b) div d = 2 * Q + (if d \<le> 2 * R + b then 1 else 0)"
proof -
  have eq: "2 * T + b = (2 * Q + (if d \<le> 2 * R + b then 1 else 0)) * d
      + (if d \<le> 2 * R + b then 2 * R + b - d else 2 * R + b)"
    using assms by (simp add: algebra_simps)
  have less: "(if d \<le> 2 * R + b then 2 * R + b - d else 2 * R + b) < d"
    using assms by auto
  show "(2 * T + b) mod d = (if d \<le> 2 * R + b then 2 * R + b - d else 2 * R + b)"
    by (simp only: eq quot_rem[OF less])
  show "(2 * T + b) div d = 2 * Q + (if d \<le> 2 * R + b then 1 else 0)"
    by (simp only: eq quot_rem[OF less])
qed

text \<open>
  After \<^term>\<open>i\<close> rounds the remainder is that of the first \<^term>\<open>i\<close> bits of the dividend and the
  pair holds the bits still to come above the quotient found so far.
\<close>

definition div_inv :: "nat \<Rightarrow> nat \<Rightarrow> nat \<Rightarrow> u64 \<times> u64 \<times> u64 \<Rightarrow> bool" where
  "div_inv D d i = (\<lambda>(r, hi, lo).
     unat r = D div 2 ^ (128 - i) mod d \<and>
     pair_nat hi lo = (D mod 2 ^ (128 - i)) * 2 ^ i + D div 2 ^ (128 - i) div d)"

lemma div_inv_nat:
  fixes D d P M T b u N Q R :: nat
  assumes "P * M = 2 ^ 127" "D = (2 * T + b) * P + u" "u < P" "b \<le> 1" "D < 2 ^ 128"
    and Q: "T = Q * d + R" "R < d" and N: "N = (b * P + u) * M + Q"
  shows "(if 2 ^ 127 \<le> N then 1 else 0) = b" "2 * N - b * 2 ^ 128 = u * (2 * M) + 2 * Q"
proof -
  have "T * (2 * P) \<le> D" using assms by (simp add: algebra_simps)
  also have "D < M * (2 * P)" using assms by (simp add: algebra_simps)
  finally have "T < M" using mult_less_cancel2 by blast
  moreover have "Q \<le> T" using Q by (cases d) auto
  ultimately have "Q < M" by simp
  then have "u * M + Q < (u + 1) * M" by simp
  also have "\<dots> \<le> P * M" using \<open>u < P\<close> by (intro mult_le_mono1) simp
  finally have low: "u * M + Q < 2 ^ 127" using assms(1) by simp
  have N': "N = b * 2 ^ 127 + (u * M + Q)" using N assms(1) by (simp add: algebra_simps)
  show "(if 2 ^ 127 \<le> N then 1 else 0) = b"
    using low N' \<open>b \<le> 1\<close> by (cases b) auto
  show "2 * N - b * 2 ^ 128 = u * (2 * M) + 2 * Q"
    using N' by (simp add: algebra_simps)
qed

lemma div_inv_step:
  assumes "div_inv D (unat d) i s" "i < 128" "D < 2 ^ 128" "0 < unat d"
  shows "div_inv D (unat d) (Suc i) (div128_64_step d s)"
proof -
  obtain r hi lo where s: "s = (r, hi, lo)" by (metis prod_cases3)
  obtain r' hi' lo' where step: "div128_64_step d (r, hi, lo) = (r', hi', lo')" by (metis prod_cases3)
  define P M :: nat where "P = 2 ^ (127 - i)" and "M = 2 ^ i"
  define T Q R b u where "T = D div (P * 2)" and "Q = T div unat d" and "R = T mod unat d"
    and "b = D div P mod 2" and "u = D mod P"
  have "128 - i = Suc (127 - i)" using \<open>i < 128\<close> by simp
  then have pow: "2 ^ (128 - i) = P * 2" by (simp only: P_def power_Suc mult.commute)
  have PM: "P * M = 2 ^ 127"
    using \<open>i < 128\<close> by (simp only: P_def M_def flip: power_add) simp
  have D2: "D div P = 2 * T + b" by (simp add: T_def b_def div_mult2_eq)
  have D: "D = (2 * T + b) * P + u" unfolding D2[symmetric] u_def by simp
  have DM: "D mod (P * 2) = b * P + u" by (simp add: mod_mult2_eq b_def u_def)
  have r: "unat r = R" and N: "pair_nat hi lo = (b * P + u) * M + Q"
    using assms(1) unfolding s div_inv_def by (simp_all add: pow DM M_def R_def Q_def T_def)
  have Rd: "R < unat d" using \<open>0 < unat d\<close> by (simp add: R_def)
  have T: "T = Q * unat d + R" by (simp add: Q_def R_def)
  have u: "u < P" by (simp add: u_def P_def)
  have b: "b \<le> 1" by (simp add: b_def)
  note nat = div_inv_nat[OF PM D u b \<open>D < 2 ^ 128\<close> T Rd N]
  note res = div128_64_step_unat[OF _ step, unfolded r nat, OF Rd]
  note digit = long_division_step[OF Rd T b]
  have next_pow: "(128 - Suc i) = 127 - i" by simp
  show ?thesis
    unfolding s step div_inv_def prod.case next_pow P_def[symmetric]
    using res digit by (simp add: D2 u_def M_def)
qed

lemma div_inv_loop:
  assumes "D < 2 ^ 128" "0 < unat d" "i \<le> 128" "pair_nat hi lo = D"
  shows "div_inv D (unat d) i ((div128_64_step d ^^ i) (0, hi, lo))"
  using assms(3)
proof (induction i)
  case 0
  then show ?case using assms by (simp add: div_inv_def)
next
  case (Suc i)
  then show ?case using div_inv_step[OF Suc.IH _ assms(1,2)] by simp
qed

lemma div128_64_portable_eq:
  assumes "d \<noteq> 0"
  shows "div128_64_portable hi lo d = div128_64 hi lo d"
proof -
  obtain r h l where loop: "(div128_64_step d ^^ 128) (0, hi, lo) = (r, h, l)" by (metis prod_cases3)
  let ?q = "pair_nat hi lo div unat d"
  have "div_inv (pair_nat hi lo) (unat d) 128 (r, h, l)"
    using div_inv_loop[OF pair_less, of d 128 hi lo] assms loop by (simp add: unat_gt_0)
  then have q: "pair_nat h l = ?q" by (simp add: div_inv_def)
  have "?q div 2 ^ 64 = unat h" "?q mod 2 ^ 64 = unat l"
    unfolding q[symmetric] by (rule quot_rem[OF u64_less])+
  then have "unat (fst (div128_64 hi lo d)) = unat h" "unat (snd (div128_64 hi lo d)) = unat l"
    by (simp_all only: div128_64_unat)
  then have "div128_64 hi lo d = (h, l)" by (metis prod.collapse word_unat_eq_iff)
  then show ?thesis by (simp add: div128_64_portable_def loop)
qed

lemma mul128_div64_portable_eq:
  assumes "c \<noteq> 0"
  shows "mul128_div64_portable a b c = mul128_div64 a b c"
proof -
  obtain lo hi where m: "mul128 a b = (lo, hi)" by fastforce
  have "pair_nat hi lo = unat a * unat b"
    using mul128_unat[of a b] unfolding m by simp
  then have "unat (snd (div128_64 hi lo c)) = unat (mul128_div64 a b c)"
    by (simp only: div128_64_unat mul128_div64_unat)
  then show ?thesis
    by (simp add: mul128_div64_portable_def mul128_portable_eq m div128_64_portable_eq[OF assms]
        case_prod_beta word_unat_eq_iff)
qed

section \<open>The portable division by 32 bits\<close>

lemma unat_ucast_32_64 [simp]: "unat (ucast (x :: u32) :: u64) = unat x"
  using unsigned_less[of x, where 'a=nat]
  by (simp add: unsigned_ucast_eq take_bit_nat_eq_self_iff)

lemma unat_ucast_32_128 [simp]: "unat (ucast (x :: u32) :: 128 word) = unat x"
  using unsigned_less[of x, where 'a=nat]
  by (simp add: unsigned_ucast_eq take_bit_nat_eq_self_iff)

lemma or_shl32:
  fixes x y :: u64
  assumes "unat x < 2 ^ 32" "unat y < 2 ^ 32"
  shows "unat (x OR push_bit 32 y) = unat y * 2 ^ 32 + unat x"
  using unat_or_disjoint[of x 32 y] assms by simp

lemma div_with_remainder_unat:
  assumes x: "unat x < 2 ^ 32" and r: "unat r < unat d"
    and eq: "div_with_remainder x d r = (q, r')"
  shows "unat r * 2 ^ 32 + unat x = unat q * unat d + unat r'" "unat r' < unat d" "unat q < 2 ^ 32"
proof -
  let ?n = "x OR push_bit 32 (ucast r)"
  have n: "unat ?n = unat r * 2 ^ 32 + unat x"
    using or_shl32[OF x, of "ucast r"] unsigned_less[of r, where 'a=nat] by simp
  have q: "unat q = (unat r * 2 ^ 32 + unat x) div unat d"
    and r': "r' = ucast (?n mod ucast d)"
    using eq by (auto simp: div_with_remainder_def Let_def unat_div n)
  have "unat (?n mod ucast d) = (unat r * 2 ^ 32 + unat x) mod unat d"
    by (simp add: unat_mod n)
  moreover have "(unat r * 2 ^ 32 + unat x) mod unat d < unat d" using r by (simp add: mod_less_divisor)
  moreover have "unat d < 2 ^ 32" using unsigned_less[of d, where 'a=nat] by simp
  ultimately have r'': "unat r' = (unat r * 2 ^ 32 + unat x) mod unat d"
    unfolding r' by (simp add: unsigned_ucast_eq take_bit_nat_eq_self_iff)
  show "unat r * 2 ^ 32 + unat x = unat q * unat d + unat r'" unfolding q r'' by simp
  show "unat r' < unat d" unfolding r'' using r by (simp add: mod_less_divisor)
  have "unat r * 2 ^ 32 + unat x < (unat r + 1) * 2 ^ 32" using x by simp
  also have "\<dots> \<le> unat d * 2 ^ 32" using r by (intro mult_le_mono1) simp
  finally show "unat q < 2 ^ 32" unfolding q by (simp add: less_mult_imp_div_less mult.commute)
qed

lemma div128_32_unat:
  "unat (fst (div128_32 hi lo d)) = pair_nat hi lo div unat d div 2 ^ 64"
  "unat (snd (div128_32 hi lo d)) = pair_nat hi lo div unat d mod 2 ^ 64"
proof -
  have "div128_32 hi lo d = div128_64 hi lo (ucast d)"
  proof -
    have "(ucast d :: 128 word) = ucast (ucast d :: u64)" by (simp add: word_unat_eq_iff)
    then show ?thesis by (simp only: div128_32_def div128_64_def)
  qed
  then show "unat (fst (div128_32 hi lo d)) = pair_nat hi lo div unat d div 2 ^ 64"
    "unat (snd (div128_32 hi lo d)) = pair_nat hi lo div unat d mod 2 ^ 64"
    by (simp_all only: div128_64_unat unat_ucast_32_64)
qed

lemma pair_dwords:
  "pair_nat hi lo = ((unat (hi_dword hi) * 2 ^ 32 + unat (lo_dword hi)) * 2 ^ 32
     + unat (hi_dword lo)) * 2 ^ 32 + unat (lo_dword lo)"
proof -
  have *: "unat (hi_dword x) * 2 ^ 32 + unat (lo_dword x) = unat x" for x
    by (simp only: unat_hi_dword unat_lo_dword div_mult_mod_eq)
  show ?thesis unfolding * using *[of lo] by (simp add: algebra_simps)
qed

lemma div128_32_portable_eq:
  assumes "d \<noteq> 0"
  shows "div128_32_portable hi lo d = div128_32 hi lo d"
proof -
  have d: "unat (0 :: u32) < unat d" using assms by (simp add: unat_gt_0)
  obtain q3 r3 where 3: "div_with_remainder (hi_dword hi) d 0 = (q3, r3)" by fastforce
  note s3 = div_with_remainder_unat[OF dword_bounds(1) d 3]
  obtain q2 r2 where 2: "div_with_remainder (lo_dword hi) d r3 = (q2, r2)" by fastforce
  note s2 = div_with_remainder_unat[OF dword_bounds(2) s3(2) 2]
  obtain q1 r1 where 1: "div_with_remainder (hi_dword lo) d r2 = (q1, r1)" by fastforce
  note s1 = div_with_remainder_unat[OF dword_bounds(1) s2(2) 1]
  obtain q0 r0 where 0: "div_with_remainder (lo_dword lo) d r1 = (q0, r0)" by fastforce
  note s0 = div_with_remainder_unat[OF dword_bounds(2) s1(2) 0]
  define h l where "h = q2 OR push_bit 32 q3" and "l = q0 OR push_bit 32 q1"
  have h: "unat h = unat q3 * 2 ^ 32 + unat q2" and l: "unat l = unat q1 * 2 ^ 32 + unat q0"
    unfolding h_def l_def using s0 s1 s2 s3 by (simp_all only: or_shl32)
  have "pair_nat hi lo = pair_nat h l * unat d + unat r0"
    unfolding pair_dwords h l using s3(1) s2(1) s1(1) s0(1) by (simp add: algebra_simps)
  then have q: "pair_nat hi lo div unat d = pair_nat h l"
    using quot_rem(1)[OF s0(2)] by simp
  have "unat (fst (div128_32 hi lo d)) = unat h" "unat (snd (div128_32 hi lo d)) = unat l"
    by (simp_all only: div128_32_unat q quot_rem[OF u64_less])
  then have "div128_32 hi lo d = (h, l)" by (metis prod.collapse word_unat_eq_iff)
  then show ?thesis
    by (simp add: div128_32_portable_def 0 1 2 3 h_def l_def or.commute)
qed

section \<open>Properties\<close>

text \<open>C34. The portable bodies of \<^verbatim>\<open>mul128\<close>, \<^verbatim>\<open>div128_32\<close>, \<^verbatim>\<open>div128_64\<close> and \<^verbatim>\<open>mul128_div64\<close>, built on
  64 bit words with carries, long division and the 128 rounds of shift and subtract, compute what
  the bodies on 128 bit integers compute, for every operand and every nonzero divisor.\<close>

theorem portable_int128_equiv:
  assumes "d32 \<noteq> 0" "d \<noteq> 0"
  shows "mul128_portable a b = mul128 a b
    \<and> div128_32_portable a b d32 = div128_32 a b d32
    \<and> div128_64_portable a b d = div128_64 a b d
    \<and> mul128_div64_portable a b d = mul128_div64 a b d"
  using assms
  by (simp add: mul128_portable_eq div128_32_portable_eq div128_64_portable_eq mul128_div64_portable_eq)

theorem portable_int128_equiv_witness:
  "(10 :: u32) \<noteq> 0 \<and> (7 :: u64) \<noteq> 0
    \<and> mul128_portable (2 ^ 40 + 5) (2 ^ 41) = (10 * 2 ^ 40, 2 ^ 17)
    \<and> mul128 (2 ^ 40 + 5) (2 ^ 41) = mul128_portable (2 ^ 40 + 5) (2 ^ 41)
    \<and> div128_64_portable (2 ^ 40 + 5) (2 ^ 41) 7 = div128_64 (2 ^ 40 + 5) (2 ^ 41) 7"
proof -
  have "mul128_portable (2 ^ 40 + 5) (2 ^ 41) = (10 * 2 ^ 40, 2 ^ 17)" by code_simp
  then show ?thesis
    using portable_int128_equiv[of 10 7 "2 ^ 40 + 5" "2 ^ 41"] by simp
qed

text \<open>Whenever the quotient of the exact product fits 64 bits, in particular when the divisor is
  above one of the factors, \<^verbatim>\<open>mul128_div64\<close> returns the floor of a*b/c with no wrap around.\<close>

lemma mul128_div64_exact:
  assumes "a < c \<or> b < c"
  shows "unat (mul128_div64 a b c) = unat a * unat b div unat c"
proof -
  have c: "0 < unat c" using assms by (auto simp: word_less_nat_alt)
  have "unat a * unat b < 2 ^ 64 * unat c"
  proof (cases "a < c")
    case True
    then show ?thesis
      using u64_less[of b] mult_strict_mono[of "unat a" "unat c" "unat b" "2 ^ 64"] c
      by (simp add: word_less_nat_alt mult.commute)
  next
    case False
    then show ?thesis
      using assms u64_less[of a] mult_strict_mono[of "unat a" "2 ^ 64" "unat b" "unat c"]
      by (simp add: word_less_nat_alt)
  qed
  then have "unat a * unat b div unat c < 2 ^ 64" by (rule less_mult_imp_div_less)
  then show ?thesis by (simp only: mul128_div64_unat mod_less)
qed

end
