(* ===== verification/Stake_Rules.thy ===== *)
theory Stake_Rules
  imports Network_Config Int_Util
begin

text \<open>
  The service node rules of \<^verbatim>\<open>src/cryptonote_core/service_node_rules.cpp\<close> and \<^verbatim>\<open>.h\<close> with the
  constants of \<^verbatim>\<open>src/oxen_economy.h\<close>: staking requirements, the contribution a new contributor must
  make, the checks of a registration in portions and in amounts, and the conversions between
  portions and amounts.  Amounts are 64 bit words.
\<close>

section \<open>Constants\<close>

definition COIN :: u64 where "COIN = 1000000000"

definition STAKING_PORTIONS :: u64 where "STAKING_PORTIONS = 0xfffffffffffffffc"
definition UINT64_MAX :: u64 where "UINT64_MAX = 0xffffffffffffffff"

definition MAX_CONTRIBUTORS_HF19 :: nat where "MAX_CONTRIBUTORS_HF19 = 11"
definition MAX_CONTRIBUTORS_V1 :: nat where "MAX_CONTRIBUTORS_V1 = 4"

definition OXEN_STAKING_REQUIREMENT :: u64 where "OXEN_STAKING_REQUIREMENT = 200000 * COIN"
definition OXEN_STAKING_REQUIREMENT_TESTNET :: u64 where
  "OXEN_STAKING_REQUIREMENT_TESTNET = 100000 * COIN"
definition SESH_STAKING_REQUIREMENT :: u64 where "SESH_STAKING_REQUIREMENT = 100000 * COIN"
definition SESH_STAKING_REQUIREMENT_TESTNET :: u64 where
  "SESH_STAKING_REQUIREMENT_TESTNET = 100000 * COIN"
definition SESH_STAKING_REQUIREMENT_LOCALDEV :: u64 where
  "SESH_STAKING_REQUIREMENT_LOCALDEV = 100000 * COIN"

definition MINIMUM_OPERATOR_CONTRIBUTION :: "u64 \<Rightarrow> u64" where
  "MINIMUM_OPERATOR_CONTRIBUTION staking_requirement = staking_requirement div 2"

datatype quorum_type = obligations | checkpointing | blink | pulse

definition PULSE_QUORUM_NUM_VALIDATORS :: nat where "PULSE_QUORUM_NUM_VALIDATORS = 11"
definition PULSE_QUORUM_SIZE :: nat where "PULSE_QUORUM_SIZE = PULSE_QUORUM_NUM_VALIDATORS + 1"
definition PULSE_BLOCK_REQUIRED_SIGNATURES :: nat where "PULSE_BLOCK_REQUIRED_SIGNATURES = 7"
definition FALLBACK_MINER_VOTER_INDEX :: nat where "FALLBACK_MINER_VOTER_INDEX = 0xFFFF"

definition pulse_validator_bit_mask :: u16 where
  "pulse_validator_bit_mask =
     fold (\<lambda>validator_index result. result OR push_bit validator_index 1)
       [0..<PULSE_QUORUM_NUM_VALIDATORS] 0"

definition STATE_CHANGE_MIN_VOTES_TO_CHANGE_STATE :: nat where
  "STATE_CHANGE_MIN_VOTES_TO_CHANGE_STATE = 7"
definition STATE_CHANGE_QUORUM_SIZE :: nat where "STATE_CHANGE_QUORUM_SIZE = 10"
definition CHECKPOINT_QUORUM_SIZE :: nat where "CHECKPOINT_QUORUM_SIZE = 20"
definition CHECKPOINT_MIN_VOTES :: nat where "CHECKPOINT_MIN_VOTES = 13"
definition BLINK_SUBQUORUM_SIZE :: nat where "BLINK_SUBQUORUM_SIZE = 10"
definition BLINK_MIN_VOTES :: nat where "BLINK_MIN_VOTES = 7"

definition CHECKPOINT_INTERVAL :: nat where "CHECKPOINT_INTERVAL = 4"
definition CHECKPOINT_NUM_CHECKPOINTS_FOR_CHAIN_FINALITY :: nat where
  "CHECKPOINT_NUM_CHECKPOINTS_FOR_CHAIN_FINALITY = 2"
definition CHECKPOINT_STORE_PERSISTENTLY_INTERVAL :: nat where
  "CHECKPOINT_STORE_PERSISTENTLY_INTERVAL = 60"
definition VOTE_LIFETIME :: nat where "VOTE_LIFETIME = 60"
definition REORG_SAFETY_BUFFER_BLOCKS_POST_HF12 :: nat where
  "REORG_SAFETY_BUFFER_BLOCKS_POST_HF12 =
     CHECKPOINT_INTERVAL * CHECKPOINT_NUM_CHECKPOINTS_FOR_CHAIN_FINALITY + (CHECKPOINT_INTERVAL - 1)"
definition REORG_SAFETY_BUFFER_BLOCKS_PRE_HF12 :: nat where
  "REORG_SAFETY_BUFFER_BLOCKS_PRE_HF12 = 20"
definition VOTE_OR_TX_VERIFY_HEIGHT_BUFFER :: nat where "VOTE_OR_TX_VERIFY_HEIGHT_BUFFER = 5"

definition DECOMMISSION_MAX_CREDIT :: int where "DECOMMISSION_MAX_CREDIT = 48 * 3600"

definition min_votes_for_quorum_type :: "quorum_type \<Rightarrow> nat" where
  "min_votes_for_quorum_type q =
     (if q = obligations then STATE_CHANGE_MIN_VOTES_TO_CHANGE_STATE
      else if q = checkpointing then CHECKPOINT_MIN_VOTES
      else if q = blink then BLINK_MIN_VOTES
      else 2 ^ 64 - 1)"

definition max_quorum_type_for_hf :: "hf \<Rightarrow> quorum_type" where
  "max_quorum_type_for_hf version =
     (if version \<le> hf12_checkpointing then obligations
      else if version < hf14_blink then checkpointing
      else if version < hf16_pulse then blink
      else pulse)"

section \<open>The recommission credit and the parameter checks\<close>

definition RECOMMISSION_CREDIT :: "int \<Rightarrow> int \<Rightarrow> int" where
  "RECOMMISSION_CREDIT credit_at_decomm decomm_blocks = max 0 (credit_at_decomm - 2 * decomm_blocks)"

text \<open>The compile time checks of \<^verbatim>\<open>has_valid_parameters\<close> for one network.\<close>

definition has_valid_parameters :: "network_config \<Rightarrow> bool" where
  "has_valid_parameters conf \<longleftrightarrow>
     (let m = BLOCKS_IN conf DECOMMISSION_MAX_CREDIT in
      PULSE_MIN_SERVICE_NODES conf \<ge> PULSE_QUORUM_SIZE \<and>
      RECOMMISSION_CREDIT m 0 \<le> m \<and>
      RECOMMISSION_CREDIT m m \<le> RECOMMISSION_CREDIT m (m div 2) \<and>
      RECOMMISSION_CREDIT m (m div 2) \<le> RECOMMISSION_CREDIT m 0 \<and>
      RECOMMISSION_CREDIT (m div 2) (m div 2) \<le> RECOMMISSION_CREDIT (m div 2) 0 \<and>
      RECOMMISSION_CREDIT (m div 2) 1 \<le> RECOMMISSION_CREDIT m 1 \<and>
      RECOMMISSION_CREDIT 0 1 \<le> RECOMMISSION_CREDIT (m div 2) 1 \<and>
      RECOMMISSION_CREDIT m 0 \<ge> 0 \<and>
      RECOMMISSION_CREDIT m m \<ge> 0 \<and>
      RECOMMISSION_CREDIT m (2 * m) \<ge> 0)"

section \<open>Requirements and contributions\<close>

definition get_default_staking_requirement :: "network_type \<Rightarrow> hf \<Rightarrow> u64" where
  "get_default_staking_requirement nettype hardfork =
     (if hardfork < hf16_pulse then
        (if nettype = MAINNET then OXEN_STAKING_REQUIREMENT else OXEN_STAKING_REQUIREMENT_TESTNET)
      else if hardfork \<ge> ETH_BLS then
        (if nettype = MAINNET then SESH_STAKING_REQUIREMENT
         else if nettype = LOCALDEV then SESH_STAKING_REQUIREMENT_LOCALDEV
         else SESH_STAKING_REQUIREMENT_TESTNET)
      else
        (if nettype = MAINNET then OXEN_STAKING_REQUIREMENT else OXEN_STAKING_REQUIREMENT_TESTNET))"

definition get_default_staking_requirement_at :: "hard_fork list \<Rightarrow> network_type \<Rightarrow> nat \<Rightarrow> u64" where
  "get_default_staking_requirement_at fakechain nettype height =
     get_default_staking_requirement nettype (get_network_version fakechain nettype height)"

definition portions_to_amount :: "u64 \<Rightarrow> u64 \<Rightarrow> u64" where
  "portions_to_amount portions staking_requirement =
     mul128_div64 staking_requirement portions STAKING_PORTIONS"

definition staking_num_lock_blocks :: "network_type \<Rightarrow> int option" where
  "staking_num_lock_blocks nettype =
     (case nettype of
        FAKECHAIN \<Rightarrow> Some 30
      | TESTNET \<Rightarrow> map_option (\<lambda>conf. BLOCKS_IN conf (48 * 3600)) (get_config nettype)
      | _ \<Rightarrow> map_option (\<lambda>conf. BLOCKS_IN conf (14 * 24 * 3600)) (get_config nettype))"

definition get_min_node_contribution_pre_v11 :: "u64 \<Rightarrow> u64 \<Rightarrow> u64" where
  "get_min_node_contribution_pre_v11 staking_requirement total_reserved =
     min (staking_requirement - total_reserved) (staking_requirement div of_nat MAX_CONTRIBUTORS_V1)"

definition get_max_node_contribution :: "hf \<Rightarrow> u64 \<Rightarrow> u64 \<Rightarrow> u64" where
  "get_max_node_contribution version staking_requirement total_reserved =
     (if version \<ge> hf16_pulse then (staking_requirement - total_reserved) * 101 div 100
      else UINT64_MAX)"

definition get_min_node_contribution :: "hf \<Rightarrow> u64 \<Rightarrow> u64 \<Rightarrow> nat \<Rightarrow> u64" where
  "get_min_node_contribution version staking_requirement total_reserved num_contributions =
     (if version < hf11_infinite_staking
      then get_min_node_contribution_pre_v11 staking_requirement total_reserved
      else
        let needed = staking_requirement - total_reserved;
            max_contributors =
              (if version \<ge> hf19_reward_batching then MAX_CONTRIBUTORS_HF19 else MAX_CONTRIBUTORS_V1)
        in if max_contributors \<le> num_contributions then UINT64_MAX
           else if version \<ge> ETH_BLS then 1
           else needed div of_nat (max_contributors - num_contributions))"

text \<open>\<^verbatim>\<open>get_portions_to_make_amount\<close> rounds the 128 bit quotient up.\<close>

definition get_portions_to_make_amount :: "u64 \<Rightarrow> u64 \<Rightarrow> u64 \<Rightarrow> u64" where
  "get_portions_to_make_amount staking_requirement amount max_portions =
     (let (lo, hi) = mul128 amount max_portions;
          hi = (if lo > UINT64_MAX - (staking_requirement - 1) then hi + 1 else hi);
          lo = lo + (staking_requirement - 1);
          (resulthi, resultlo) = div128_64 hi lo staking_requirement
      in resultlo)"

definition get_min_node_contribution_in_portions :: "hf \<Rightarrow> u64 \<Rightarrow> u64 \<Rightarrow> nat \<Rightarrow> u64" where
  "get_min_node_contribution_in_portions version staking_requirement total_reserved num_contributions =
     (let atomic_amount =
            get_min_node_contribution version staking_requirement total_reserved num_contributions
      in if atomic_amount = UINT64_MAX then UINT64_MAX
         else get_portions_to_make_amount staking_requirement atomic_amount STAKING_PORTIONS)"

section \<open>Registration checks\<close>

text \<open>The loop of \<^verbatim>\<open>check_service_node_portions\<close>; an address is of any type.\<close>

fun portions_loop :: "hf \<Rightarrow> nat \<Rightarrow> u64 \<Rightarrow> u64 \<Rightarrow> ('addr \<times> u64) list \<Rightarrow> bool" where
  "portions_loop version i reserved remaining [] \<longleftrightarrow> True"
| "portions_loop version i reserved remaining (p # portions) \<longleftrightarrow>
     (let min_portions = get_min_node_contribution version STAKING_PORTIONS reserved i in
      if snd p < min_portions then False
      else if snd p > remaining then False
      else portions_loop version (i + 1) (reserved + snd p) (remaining - snd p) portions)"

definition check_service_node_portions :: "hf \<Rightarrow> ('addr \<times> u64) list \<Rightarrow> bool" where
  "check_service_node_portions version portions \<longleftrightarrow>
     (if version > hf19_reward_batching then False
      else
        let version = (if version = hf19_reward_batching then hf18 else version)
        in if length portions > MAX_CONTRIBUTORS_V1 then False
           else portions_loop version 0 0 STAKING_PORTIONS portions)"

text \<open>The loop of \<^verbatim>\<open>check_service_node_stakes\<close> gives the stake left over, or \<^term>\<open>None\<close> on rejection.\<close>

fun stakes_loop :: "hf \<Rightarrow> u64 \<Rightarrow> u64 \<Rightarrow> nat \<Rightarrow> u64 \<Rightarrow> u64 \<Rightarrow> u64 list \<Rightarrow> u64 option" where
  "stakes_loop version operator_requirement staking_requirement i reserved remaining [] =
     Some remaining"
| "stakes_loop version operator_requirement staking_requirement i reserved remaining (s # stakes) =
     (let min_stake =
            (if i = 0 then operator_requirement
             else get_min_node_contribution version staking_requirement reserved i) in
      if s < min_stake then None
      else if s > remaining then None
      else stakes_loop version operator_requirement staking_requirement (i + 1)
             (reserved + s) (remaining - s) stakes)"

definition check_service_node_stakes :: "hf \<Rightarrow> u64 \<Rightarrow> u64 list \<Rightarrow> bool" where
  "check_service_node_stakes version staking_requirement stakes \<longleftrightarrow>
     (if version < hf19_reward_batching then False
      else if length stakes > MAX_CONTRIBUTORS_HF19 then False
      else
        let operator_requirement = MINIMUM_OPERATOR_CONTRIBUTION staking_requirement
        in case stakes_loop version operator_requirement staking_requirement 0 0
                  staking_requirement stakes of
             None \<Rightarrow> False
           | Some remaining \<Rightarrow> \<not> (version \<ge> ETH_BLS \<and> remaining \<noteq> 0))"

text \<open>\<^verbatim>\<open>generate_request_stake_unlock_hash\<close>: the little endian nonce, eight times.\<close>

definition u32_le :: "u32 \<Rightarrow> bytes" where
  "u32_le n = map (\<lambda>i. ucast (drop_bit (8 * i) n)) [0..<4]"

definition generate_request_stake_unlock_hash :: "u32 \<Rightarrow> bytes" where
  "generate_request_stake_unlock_hash nonce = concat (replicate 8 (u32_le nonce))"

section \<open>Lists of contributions\<close>

text \<open>The true total of a list of amounts, without wrap around.\<close>

definition total_amount :: "u64 list \<Rightarrow> nat" where
  "total_amount xs = sum_list (map unat xs)"

lemma total_amount_simps [simp]: "total_amount [] = 0" "total_amount (x # xs) = unat x + total_amount xs"
  "total_amount (xs @ ys) = total_amount xs + total_amount ys"
  by (simp_all add: total_amount_def)

lemma total_amount_split: "total_amount (take j xs) + total_amount (drop j xs) = total_amount xs"
  by (metis append_take_drop_id total_amount_simps(3))

text \<open>The common shape of the two registration loops: the minimum of the slot is a function of the
  amount reserved so far and of the slot.\<close>

fun contrib_loop :: "(u64 \<Rightarrow> nat \<Rightarrow> u64) \<Rightarrow> nat \<Rightarrow> u64 \<Rightarrow> u64 \<Rightarrow> u64 list \<Rightarrow> u64 option" where
  "contrib_loop mn i reserved remaining [] = Some remaining"
| "contrib_loop mn i reserved remaining (x # xs) =
     (if x < mn reserved i then None
      else if x > remaining then None
      else contrib_loop mn (i + 1) (reserved + x) (remaining - x) xs)"

lemma stakes_loop_contrib:
  "stakes_loop v oper req i reserved remaining xs
   = contrib_loop (\<lambda>r i. if i = 0 then oper else get_min_node_contribution v req r i)
       i reserved remaining xs"
  by (induction xs arbitrary: i reserved remaining) (simp_all add: Let_def)

lemma portions_loop_contrib:
  "portions_loop v i reserved remaining ps
   \<longleftrightarrow> contrib_loop (get_min_node_contribution v STAKING_PORTIONS) i reserved remaining (map snd ps) \<noteq> None"
  by (induction ps arbitrary: i reserved remaining) (simp_all add: Let_def)

lemma contrib_loop_iff:
  assumes "unat reserved + unat remaining < 2 ^ 64"
  shows "contrib_loop mn i reserved remaining xs = Some r \<longleftrightarrow>
    total_amount xs + unat r = unat remaining \<and>
    (\<forall>j<length xs. mn (reserved + sum_list (take j xs)) (i + j) \<le> xs ! j)"
  using assms
proof (induction xs arbitrary: i reserved remaining)
  case Nil
  then show ?case by (auto simp: word_unat_eq_iff)
next
  case (Cons x xs)
  show ?case
  proof (cases "x > remaining \<or> x < mn reserved i")
    case True
    then have "contrib_loop mn i reserved remaining (x # xs) = None" by auto
    moreover have "\<not> (unat x + total_amount xs + unat r = unat remaining \<and> mn reserved i \<le> x)"
    proof (cases "x > remaining")
      case True
      then have "unat remaining < unat x" by (simp add: word_less_nat_alt)
      then show ?thesis by linarith
    next
      case False
      then show ?thesis using \<open>x > remaining \<or> x < mn reserved i\<close> by auto
    qed
    moreover have "mn reserved i \<le> x" if
      "\<forall>j<length (x # xs). mn (reserved + sum_list (take j (x # xs))) (i + j) \<le> (x # xs) ! j"
      using that by (auto dest: spec[of _ 0])
    ultimately show ?thesis by (simp only: option.distinct total_amount_simps) blast
  next
    case False
    then have le: "x \<le> remaining" and mn: "mn reserved i \<le> x" by auto
    then have sub: "unat (remaining - x) = unat remaining - unat x" by (simp add: unat_sub)
    have xr: "unat x \<le> unat remaining" using le by (simp add: word_le_nat_alt)
    have add: "unat (reserved + x) = unat reserved + unat x"
      using Cons.prems xr by (simp add: unat_word_ariths)
    have inv: "unat (reserved + x) + unat (remaining - x) < 2 ^ 64"
      unfolding add sub using Cons.prems xr by simp
    have all: "(\<forall>j<length (x # xs). mn (reserved + sum_list (take j (x # xs))) (i + j) \<le> (x # xs) ! j)
        \<longleftrightarrow> (\<forall>j<length xs. mn (reserved + x + sum_list (take j xs)) (i + 1 + j) \<le> xs ! j)"
      using mn by (auto simp: less_Suc_eq_0_disj add.assoc)
    have tot: "total_amount (x # xs) + unat r = unat remaining \<longleftrightarrow> total_amount xs + unat r = unat remaining - unat x"
      using xr by auto
    have "contrib_loop mn i reserved remaining (x # xs) = contrib_loop mn (i + 1) (reserved + x) (remaining - x) xs"
      using le mn by (simp add: not_less[symmetric])
    then show ?thesis unfolding all tot using Cons.IH[OF inv, of "i + 1"] sub by simp
  qed
qed

lemma sum_list_word:
  assumes "total_amount xs < 2 ^ 64"
  shows "unat (sum_list xs) = total_amount xs"
  using assms
proof (induction xs)
  case (Cons x xs)
  then show ?case by (simp add: unat_word_ariths)
qed simp

lemma total_take_le: "total_amount (take j xs) \<le> total_amount xs"
  using total_amount_split[of j xs] by linarith

lemma reserved_sub:
  assumes "total_amount xs \<le> unat R"
  shows "unat (R - sum_list (take j xs)) = unat R - total_amount (take j xs)"
proof -
  have le: "total_amount (take j xs) \<le> unat R" using total_take_le assms by (rule le_trans)
  then have s: "unat (sum_list (take j xs)) = total_amount (take j xs)"
    using u64_less[of R] by (intro sum_list_word) linarith
  then have "sum_list (take j xs) \<le> R" using le by (simp add: word_le_nat_alt)
  then show ?thesis by (simp add: unat_sub s)
qed

text \<open>The least amount for slot \<^term>\<open>j\<close> of a registration in amounts, in true arithmetic.\<close>

definition slot_minimum :: "hf \<Rightarrow> nat \<Rightarrow> u64 list \<Rightarrow> nat \<Rightarrow> nat" where
  "slot_minimum v R xs j =
     (if j = 0 then R div 2 else if v \<ge> ETH_BLS then 1
      else (R - total_amount (take j xs)) div (11 - j))"

lemma unat_small: "n < 2 ^ 64 \<Longrightarrow> unat (of_nat n :: u64) = n"
  by (simp add: unat_of_nat)

lemma min_contribution_slot:
  assumes "v \<ge> hf19_reward_batching" "total_amount xs \<le> unat R" "j < length xs" "length xs \<le> 11"
  shows "unat (if j = 0 then MINIMUM_OPERATOR_CONTRIBUTION R
      else get_min_node_contribution v R (sum_list (take j xs)) j) = slot_minimum v (unat R) xs j"
proof -
  have "j < 11" using assms(3,4) by simp
  moreover have "\<not> v < hf11_infinite_staking" using assms(1) by (simp add: hf_order)
  moreover have "unat (of_nat (11 - j) :: u64) = 11 - j" by (rule unat_small) simp
  ultimately show ?thesis
    using assms(1) reserved_sub[OF assms(2), of j]
    by (simp add: get_min_node_contribution_def MINIMUM_OPERATOR_CONTRIBUTION_def slot_minimum_def
        MAX_CONTRIBUTORS_HF19_def unat_div)
qed

lemma stakes_iff:
  "check_service_node_stakes v R xs \<longleftrightarrow>
    v \<ge> hf19_reward_batching \<and> length xs \<le> 11 \<and> total_amount xs \<le> unat R
    \<and> (\<forall>j<length xs. slot_minimum v (unat R) xs j \<le> unat (xs ! j))
    \<and> (v \<ge> ETH_BLS \<longrightarrow> total_amount xs = unat R)"
proof (cases "v \<ge> hf19_reward_batching \<and> length xs \<le> 11")
  case False
  then show ?thesis by (auto simp: check_service_node_stakes_def MAX_CONTRIBUTORS_HF19_def)
next
  case True
  let ?mn = "\<lambda>r i. if i = 0 then MINIMUM_OPERATOR_CONTRIBUTION R else get_min_node_contribution v R r i"
  let ?loop = "contrib_loop ?mn 0 0 R xs"
  let ?all = "\<forall>j<length xs. slot_minimum v (unat R) xs j \<le> unat (xs ! j)"
  have loop: "?loop = Some r \<longleftrightarrow> total_amount xs + unat r = unat R \<and> ?all" for r
  proof (cases "total_amount xs \<le> unat R")
    case le: True
    have "(?mn (0 + sum_list (take j xs)) (0 + j) \<le> xs ! j) = (slot_minimum v (unat R) xs j \<le> unat (xs ! j))"
      if "j < length xs" for j
      using min_contribution_slot[OF conjunct1[OF True] le that conjunct2[OF True]]
      by (simp only: word_le_nat_alt add_0)
    then show ?thesis by (subst contrib_loop_iff) (auto simp: u64_less[of R, simplified])
  next
    case False
    then show ?thesis by (subst contrib_loop_iff) (auto simp: u64_less[of R, simplified])
  qed
  have "check_service_node_stakes v R xs \<longleftrightarrow> (\<exists>r. ?loop = Some r \<and> \<not> (v \<ge> ETH_BLS \<and> r \<noteq> 0))"
    using True unfolding check_service_node_stakes_def stakes_loop_contrib
    by (auto simp: MAX_CONTRIBUTORS_HF19_def Let_def not_le[symmetric] split: option.split)
  also have "\<dots> \<longleftrightarrow> (\<exists>r :: u64. total_amount xs + unat r = unat R \<and> ?all \<and> \<not> (v \<ge> ETH_BLS \<and> r \<noteq> 0))"
    by (simp only: loop conj_assoc)
  also have "\<dots> \<longleftrightarrow> total_amount xs \<le> unat R \<and> ?all \<and> (v \<ge> ETH_BLS \<longrightarrow> total_amount xs = unat R)"
  proof -
    have "\<exists>r :: u64. total_amount xs + unat r = unat R" if "total_amount xs \<le> unat R"
    proof -
      have "unat (of_nat (unat R - total_amount xs) :: u64) = unat R - total_amount xs"
        using u64_less[of R] by (intro unat_small) linarith
      then show ?thesis using that by (metis le_add_diff_inverse)
    qed
    then show ?thesis
      by (cases "v \<ge> ETH_BLS") (auto simp: unat_eq_0)
  qed
  finally show ?thesis using True by blast
qed

section \<open>Properties\<close>

text \<open>C19. Exactly which amounts a registration may reserve: from HF19 on, at most eleven
  contributors, a true total (no wrap around) within the requirement, the operator at least half of
  it, every other contributor at least an equal share of what is still open over the slots still
  open, and from the ETH fork on the whole requirement with positive shares.\<close>

theorem check_service_node_stakes_iff:
  "check_service_node_stakes v R xs \<longleftrightarrow>
    v \<ge> hf19_reward_batching \<and> length xs \<le> 11 \<and> total_amount xs \<le> unat R
    \<and> (\<forall>j<length xs. (if j = 0 then unat R div 2 else if v \<ge> ETH_BLS then 1
          else (unat R - total_amount (take j xs)) div (11 - j)) \<le> unat (xs ! j))
    \<and> (v \<ge> ETH_BLS \<longrightarrow> total_amount xs = unat R)"
  using stakes_iff[of v R xs] unfolding slot_minimum_def .

theorem check_service_node_stakes_iff_witness:
  "check_service_node_stakes hf19_reward_batching (100 * COIN) [50 * COIN, 30 * COIN]
    \<and> \<not> check_service_node_stakes hf19_reward_batching (100 * COIN) [50 * COIN, 4 * COIN]
    \<and> \<not> check_service_node_stakes hf21_eth (100 * COIN) [50 * COIN, 30 * COIN]"
  unfolding check_service_node_stakes_iff
  by (simp add: COIN_def hf_order All_less_Suc2)

text \<open>Before the ETH fork, a registration that uses all eleven slots is fully funded: the minimum of
  the last slot is all that is left.\<close>

lemma full_slots_fully_funded:
  assumes "check_service_node_stakes v R xs" "v < ETH_BLS" "length xs = MAX_CONTRIBUTORS_HF19"
  shows "total_amount xs = unat R"
proof -
  have len: "length xs = 11" using assms(3) by (simp add: MAX_CONTRIBUTORS_HF19_def)
  have "slot_minimum v (unat R) xs 10 \<le> unat (xs ! 10)" "total_amount xs \<le> unat R"
    using assms(1) len unfolding stakes_iff by auto
  moreover have "slot_minimum v (unat R) xs 10 = unat R - total_amount (take 10 xs)"
    using assms(2) by (simp add: slot_minimum_def)
  moreover have "total_amount xs = total_amount (take 10 xs) + unat (xs ! 10)"
  proof -
    have "drop 10 xs = [xs ! 10]" using len by (simp add: Cons_nth_drop_Suc[symmetric])
    then show ?thesis using total_amount_split[of 10 xs] by simp
  qed
  ultimately show ?thesis by linarith
qed

lemma total_le_bound: "(\<And>x. x \<in> set xs \<Longrightarrow> unat x \<le> b) \<Longrightarrow> total_amount xs \<le> length xs * b"
  by (induction xs) (auto intro: add_mono)

text \<open>The argument the source gives for leaving the ETH registrations unchecked: shares that make up
  the full requirement, the operator's at least half and the others in descending order, always meet
  the contributor minimums of the HF19 rule.\<close>

lemma descending_full_stakes_accepted:
  assumes "total_amount (oper # xs) = unat R" "unat R div 2 \<le> unat oper"
    and "sorted_wrt (\<ge>) xs" "length xs \<le> 10"
    and v: "v \<ge> hf19_reward_batching" "v < ETH_BLS"
  shows "check_service_node_stakes v R (oper # xs)"
proof -
  have "slot_minimum v (unat R) (oper # xs) j \<le> unat ((oper # xs) ! j)" if j: "j < length (oper # xs)" for j
  proof (cases j)
    case 0
    then show ?thesis using assms(2) by (simp add: slot_minimum_def)
  next
    case (Suc i)
    then have i: "i < length xs" using j by simp
    have rest: "unat R - total_amount (take j (oper # xs)) = total_amount (drop i xs)"
      using total_amount_split[of j "oper # xs"] assms(1) Suc by simp
    have "unat x \<le> unat (xs ! i)" if x: "x \<in> set (drop i xs)" for x
    proof -
      obtain m where m: "m < length (drop i xs)" "x = drop i xs ! m"
        using x unfolding in_set_conv_nth by auto
      then have "x = xs ! (i + m)" "i + m < length xs" using i by auto
      then show ?thesis
        using assms(3) by (cases "m = 0") (auto simp: sorted_wrt_iff_nth_less word_le_nat_alt)
    qed
    then have "total_amount (drop i xs) \<le> length (drop i xs) * unat (xs ! i)" by (rule total_le_bound)
    also have "\<dots> \<le> (11 - j) * unat (xs ! i)" using assms(4) Suc by (intro mult_le_mono1) simp
    finally have *: "total_amount (drop i xs) \<le> (11 - j) * unat (xs ! i)" .
    have "total_amount (drop i xs) div (11 - j) \<le> unat (xs ! i)"
    proof -
      have "total_amount (drop i xs) div (11 - j) \<le> (11 - j) * unat (xs ! i) div (11 - j)"
        using * by (rule div_le_mono)
      also have "\<dots> = unat (xs ! i)"
        using i assms(4) Suc by (intro nonzero_mult_div_cancel_left) simp
      finally show ?thesis .
    qed
    then show ?thesis unfolding slot_minimum_def rest using Suc v(2)[unfolded not_le[symmetric]] by auto
  qed
  then show ?thesis
    unfolding stakes_iff using assms v(2)[unfolded not_le[symmetric]] by auto
qed

section \<open>Portions\<close>

lemma ceil_div_add:
  fixes n r :: nat
  assumes "0 < r"
  shows "(n + (r - 1)) div r * r < n + r" "n \<le> (n + (r - 1)) div r * r"
proof -
  have "(n + (r - 1)) div r * r \<le> n + (r - 1)" by simp
  then show "(n + (r - 1)) div r * r < n + r" using assms by linarith
  have "n + (r - 1) = (n + (r - 1)) div r * r + (n + (r - 1)) mod r" by simp
  moreover have "(n + (r - 1)) mod r < r" using assms by simp
  ultimately show "n \<le> (n + (r - 1)) div r * r" by linarith
qed

lemma portions_unat:
  assumes "R \<noteq> 0"
  shows "unat (get_portions_to_make_amount R a P)
    = (unat a * unat P + (unat R - 1)) div unat R mod 2 ^ 64"
proof -
  obtain lo hi where m: "mul128 a P = (lo, hi)" by fastforce
  define hi' where "hi' = (if lo > UINT64_MAX - (R - 1) then hi + 1 else hi)"
  have lo: "unat lo = unat a * unat P mod 2 ^ 64" and hi: "unat hi = unat a * unat P div 2 ^ 64"
    using mul128_unat[of a P] unfolding m by simp_all
  have R1: "unat (R - 1) = unat R - 1" using assms by (simp add: unat_gt_0 unat_minus_one)
  have mx: "unat (UINT64_MAX - (R - 1)) = 2 ^ 64 - 1 - (unat R - 1)"
  proof -
    have "R - 1 \<le> UINT64_MAX" by (simp add: UINT64_MAX_def word_le_nat_alt)  (use u64_less[of "R - 1"] in simp)
    then show ?thesis by (simp add: unat_sub R1) (simp add: UINT64_MAX_def)
  qed
  have small: "unat hi < 2 ^ 64 - 1"
  proof -
    have "unat a * unat P \<le> (2 ^ 64 - 1) * (2 ^ 64 - 1)"
      using u64_less[of a] u64_less[of P] by (intro mult_le_mono) simp_all
    then show ?thesis unfolding hi by (simp add: less_mult_imp_div_less)
  qed
  have carry: "(lo > UINT64_MAX - (R - 1)) = (2 ^ 64 \<le> unat lo + (unat R - 1))"
    using u64_less[of R] by (simp add: word_less_nat_alt mx) linarith
  have sum: "pair_nat hi' (lo + (R - 1)) = unat a * unat P + (unat R - 1)"
  proof -
    have "(lo > UINT64_MAX - (R - 1)) = (lo + (R - 1) < lo)"
      using carry_add[of lo "R - 1"] u64_less[of "lo + (R - 1)"] unfolding carry R1
      by (simp split: if_splits)
    then have hi': "unat hi' = unat hi + (if lo + (R - 1) < lo then 1 else 0)"
      using small by (simp add: hi'_def unat_word_ariths)
    have "unat a * unat P = pair_nat hi lo" unfolding hi lo by simp
    then show ?thesis unfolding hi' using carry_add[of lo "R - 1"] R1 by (simp split: if_splits)
  qed
  show ?thesis
    unfolding get_portions_to_make_amount_def m Let_def case_prod_conv
    by (simp only: case_prod_beta div128_64_unat sum flip: hi'_def)
qed

lemma portions_to_amount_unat:
  "unat (portions_to_amount p R) = unat R * unat p div unat STAKING_PORTIONS mod 2 ^ 64"
  by (simp add: portions_to_amount_def mul128_div64_unat)

text \<open>The conversion of an amount to portions and back loses nothing: for every requirement that is
  not above the number of portions, and every amount up to it, the portions computed for the amount
  are worth exactly that amount.\<close>

lemma portions_amount_roundtrip:
  assumes "R \<noteq> 0" "R \<le> STAKING_PORTIONS" "a \<le> R"
  shows "portions_to_amount (get_portions_to_make_amount R a STAKING_PORTIONS) R = a"
proof -
  define P where "P = unat STAKING_PORTIONS"
  define q where "q = (unat a * P + (unat R - 1)) div unat R"
  have R: "0 < unat R" using assms(1) by (simp add: unat_gt_0)
  have RP: "unat R \<le> P" and aR: "unat a \<le> unat R" using assms by (simp_all add: word_le_nat_alt P_def)
  note q = ceil_div_add[OF R, of "unat a * P", folded q_def]
  have "q * unat R < (P + 1) * unat R"
  proof -
    have "unat a * P \<le> unat R * P" using aR by (rule mult_le_mono1)
    then have "q * unat R < unat R * P + unat R" using q(1) by linarith
    then show ?thesis by (simp add: algebra_simps)
  qed
  then have qP: "q \<le> P" by (simp only: mult_less_cancel2) linarith
  have P64: "P < 2 ^ 64" unfolding P_def by (rule u64_less)
  have up: "unat (get_portions_to_make_amount R a STAKING_PORTIONS) = q"
    using portions_unat[OF assms(1), of a STAKING_PORTIONS] qP P64 by (simp add: q_def P_def)
  have "unat R * q div P = unat a"
  proof (rule div_nat_eqI)
    show "P * unat a \<le> unat R * q" using q(2) by (simp add: mult.commute)
    show "unat R * q < P * Suc (unat a)" using q(1) RP by (simp add: mult.commute)
  qed
  then have "unat (portions_to_amount (get_portions_to_make_amount R a STAKING_PORTIONS) R) = unat a"
    using u64_less[of a] by (simp add: portions_to_amount_unat up flip: P_def)
  then show ?thesis by (simp add: word_unat_eq_iff)
qed

lemma portions_total:
  assumes "check_service_node_portions v ps"
  shows "length ps \<le> 4" "total_amount (map snd ps) \<le> unat STAKING_PORTIONS"
proof -
  show "length ps \<le> 4"
    using assms by (auto simp: check_service_node_portions_def MAX_CONTRIBUTORS_V1_def Let_def split: if_splits)
  obtain w r where "contrib_loop (get_min_node_contribution w STAKING_PORTIONS) 0 0 STAKING_PORTIONS
      (map snd ps) = Some r"
    using assms by (auto simp: check_service_node_portions_def portions_loop_contrib Let_def split: if_splits)
  then show "total_amount (map snd ps) \<le> unat STAKING_PORTIONS"
    using u64_less[of STAKING_PORTIONS] by (subst (asm) contrib_loop_iff) auto
qed

lemma sum_div_le: "(\<Sum>x\<leftarrow>xs. f x div P) \<le> (\<Sum>x\<leftarrow>xs. f x) div P" for f :: "'a \<Rightarrow> nat"
proof (induction xs)
  case (Cons x xs)
  have "f x div P + (\<Sum>x\<leftarrow>xs. f x) div P \<le> (f x + (\<Sum>x\<leftarrow>xs. f x)) div P"
    by (cases "P = 0") (simp_all add: div_add1_eq[of "f x"])
  then show ?case using Cons by simp
qed simp

text \<open>A registration in portions that passes the check never promises more than the requirement: the
  amounts its at most four portions are worth add up to at most the requirement, without wrap
  around.\<close>

lemma portions_within_requirement:
  assumes "check_service_node_portions v ps"
  shows "length ps \<le> MAX_CONTRIBUTORS_V1
    \<and> total_amount (map (\<lambda>p. portions_to_amount (snd p) R) ps) \<le> unat R"
proof -
  define P where "P = unat STAKING_PORTIONS"
  have P: "0 < P" by (simp add: P_def STAKING_PORTIONS_def)
  have tot: "(\<Sum>p\<leftarrow>ps. unat (snd p)) \<le> P"
    using portions_total(2)[OF assms] by (simp add: total_amount_def P_def o_def)
  have "total_amount (map (\<lambda>p. portions_to_amount (snd p) R) ps)
      \<le> (\<Sum>p\<leftarrow>ps. unat R * unat (snd p) div P)"
    unfolding total_amount_def map_map o_def portions_to_amount_unat P_def[symmetric]
    by (intro sum_list_mono) simp
  also have "\<dots> \<le> (\<Sum>p\<leftarrow>ps. unat R * unat (snd p)) div P" by (rule sum_div_le)
  also have "\<dots> = unat R * (\<Sum>p\<leftarrow>ps. unat (snd p)) div P" by (simp add: sum_list_const_mult)
  also have "\<dots> \<le> unat R * P div P" using tot by (intro div_le_mono mult_le_mono2)
  also have "\<dots> = unat R" using P by simp
  finally show ?thesis using portions_total(1)[OF assms] by (simp add: MAX_CONTRIBUTORS_V1_def)
qed

lemma recommission_credit_bounds:
  "0 \<le> c \<Longrightarrow> 0 \<le> d \<Longrightarrow> 0 \<le> RECOMMISSION_CREDIT c d \<and> RECOMMISSION_CREDIT c d \<le> c"
  by (simp add: RECOMMISSION_CREDIT_def)

lemma recommission_credit_mono:
  "c \<le> c' \<Longrightarrow> d' \<le> d \<Longrightarrow> RECOMMISSION_CREDIT c d \<le> RECOMMISSION_CREDIT c' d'"
  unfolding RECOMMISSION_CREDIT_def by (rule max.mono) simp_all

lemma has_valid_parametersI:
  assumes "12 \<le> PULSE_MIN_SERVICE_NODES conf" "0 < TARGET_BLOCK_TIME conf"
  shows "has_valid_parameters conf"
proof -
  define m where "m = BLOCKS_IN conf DECOMMISSION_MAX_CREDIT"
  have m: "0 \<le> m" unfolding m_def BLOCKS_IN_def DECOMMISSION_MAX_CREDIT_def
    by (rule pos_imp_zdiv_nonneg_iff[THEN iffD2, OF assms(2)]) simp
  then have half: "0 \<le> m div 2" "m div 2 \<le> m" by simp_all
  show ?thesis
    unfolding has_valid_parameters_def Let_def m_def[symmetric]
    using assms(1) m half recommission_credit_bounds
    by (simp add: recommission_credit_mono PULSE_QUORUM_SIZE_def PULSE_QUORUM_NUM_VALIDATORS_def)
qed

text \<open>The compile time parameter checks hold on every network, and the laws they sample hold in
  general: the recommission credit is never negative nor above the credit at decommission, shrinks
  with the length of the decommission and grows with the credit.\<close>

lemma network_parameters_valid:
  "(\<forall>net\<in>set ALL_NETWORKS. \<exists>conf. get_config net = Some conf \<and> has_valid_parameters conf)
    \<and> (\<forall>c d c' d'. 0 \<le> c \<longrightarrow> 0 \<le> d \<longrightarrow> c \<le> c' \<longrightarrow> d' \<le> d \<longrightarrow>
         0 \<le> RECOMMISSION_CREDIT c d \<and> RECOMMISSION_CREDIT c d \<le> c
         \<and> RECOMMISSION_CREDIT c d \<le> RECOMMISSION_CREDIT c' d')"
proof -
  have "\<forall>net\<in>set ALL_NETWORKS. \<exists>conf. get_config net = Some conf \<and> has_valid_parameters conf"
    by (simp add: ALL_NETWORKS_def has_valid_parametersI)
  then show ?thesis using recommission_credit_bounds recommission_credit_mono by blast
qed

end
