(* ===== verification/Voting.thy ===== *)
theory Voting
  imports Stake_Rules
begin

text \<open>
  The votes of the service node quorums and their verification,
  \<^verbatim>\<open>src/cryptonote_core/service_node_voting.cpp\<close>: the hash that a state change vote signs, the making
  of votes, and the checks of a state change transaction, of a list of quorum signatures, of a
  checkpoint and of a single vote.  The hash function and the signature scheme are parameters.

  Enumerations with a fixed underlying type can hold any value of that type once they have been
  deserialised, so the fields of a vote hold the raw number.  An access outside a fixed size array
  and a shift by more than the width, which C++ leaves undefined, are the value \<^const>\<open>None\<close>.
\<close>

section \<open>Data\<close>

definition quorum_type_num :: "quorum_type \<Rightarrow> u8" where
  "quorum_type_num q = (case q of obligations \<Rightarrow> 0 | checkpointing \<Rightarrow> 1 | blink \<Rightarrow> 2 | pulse \<Rightarrow> 3)"

definition quorum_group_validator :: u8 where "quorum_group_validator = 1"
definition quorum_group_worker :: u8 where "quorum_group_worker = 2"

definition new_state_deregister :: u16 where "new_state_deregister = 0"
definition new_state_count :: u16 where "new_state_count = 4"

record quorum =
  validators :: "bytes list"
  workers :: "bytes list"

record service_node_keys =
  keys_pub :: bytes
  keys_key :: bytes

record state_change_vote =
  worker_index :: u16
  vote_state :: u16
  vote_reason :: u16

text \<open>The union of \<^verbatim>\<open>quorum_vote_t\<close> is two fields, of which the code reads the one of the vote's type.\<close>

record quorum_vote_t =
  vote_version :: u8
  vote_type :: u8
  vote_height :: u64
  vote_group :: u8
  index_in_group :: u16
  vote_signature :: bytes
  state_change :: state_change_vote
  checkpoint_hash :: bytes

record vote_verification_context =
  m_verification_failed :: bool
  m_invalid_block_height :: bool
  m_duplicate_voters :: bool
  m_validator_index_out_of_bounds :: bool
  m_worker_index_out_of_bounds :: bool
  m_signature_not_valid :: bool
  m_added_to_pool :: bool
  m_not_enough_votes :: bool
  m_incorrect_voting_group :: bool
  m_invalid_vote_type :: bool
  m_votes_not_sorted :: bool

definition empty_vvc :: vote_verification_context where
  "empty_vvc = \<lparr>m_verification_failed = False, m_invalid_block_height = False,
     m_duplicate_voters = False, m_validator_index_out_of_bounds = False,
     m_worker_index_out_of_bounds = False, m_signature_not_valid = False,
     m_added_to_pool = False, m_not_enough_votes = False, m_incorrect_voting_group = False,
     m_invalid_vote_type = False, m_votes_not_sorted = False\<rparr>"

text \<open>Of \<^verbatim>\<open>tx_verification_context\<close> the two fields that the vote checks use.\<close>

record tx_verification_context =
  m_verifivation_failed :: bool
  m_vote_ctx :: vote_verification_context

record tx_vote =
  tx_vote_signature :: bytes
  validator_index :: u32

record tx_extra_service_node_state_change =
  sc_version :: u8
  sc_state :: u16
  sc_height :: u64
  service_node_index :: u32
  reason_consensus_all :: u16
  reason_consensus_any :: u16
  sc_votes :: "tx_vote list"

record quorum_signature =
  voter_index :: u16
  voter_signature :: bytes

datatype checkpoint_type = hardcoded | service_node | checkpoint_type_count

record checkpoint_t =
  cp_version :: u8
  cp_type :: checkpoint_type
  cp_height :: u64
  cp_hash :: bytes
  cp_signatures :: "quorum_signature list"
  prev_height :: u64

text \<open>Of a block, the participation bits of its pulse header.\<close>

record pulse_block =
  validator_bitset :: u16

section \<open>Hashes and the making of votes\<close>

definition little_endian :: "nat \<Rightarrow> 'a::len word \<Rightarrow> bytes" where
  "little_endian n w = map (\<lambda>i. ucast (drop_bit (8 * i) w)) [0..<n]"

definition make_state_change_vote_hash :: "(bytes \<Rightarrow> bytes) \<Rightarrow> u64 \<Rightarrow> u32 \<Rightarrow> u16 \<Rightarrow> bytes" where
  "make_state_change_vote_hash cn_fast_hash block_height index state =
     (let buf = little_endian 8 block_height @ little_endian 4 index @ little_endian 2 state;
          sz = (if state = new_state_deregister then length buf - 2 else length buf)
      in cn_fast_hash (take sz buf))"

definition zero_signature :: bytes where "zero_signature = replicate 64 0"

definition make_signature_from_vote ::
  "(bytes \<Rightarrow> bytes) \<Rightarrow> (bytes \<Rightarrow> bytes \<Rightarrow> bytes \<Rightarrow> bytes) \<Rightarrow> quorum_vote_t \<Rightarrow> service_node_keys \<Rightarrow> bytes" where
  "make_signature_from_vote cn_fast_hash generate_signature vote keys =
     (if vote_type vote = quorum_type_num obligations then
        generate_signature
          (make_state_change_vote_hash cn_fast_hash (vote_height vote)
             (ucast (worker_index (state_change vote))) (vote_state (state_change vote)))
          (keys_pub keys) (keys_key keys)
      else if vote_type vote = quorum_type_num checkpointing then
        generate_signature (checkpoint_hash vote) (keys_pub keys) (keys_key keys)
      else zero_signature)"

definition make_signature_from_tx_state_change ::
  "(bytes \<Rightarrow> bytes) \<Rightarrow> (bytes \<Rightarrow> bytes \<Rightarrow> bytes \<Rightarrow> bytes)
   \<Rightarrow> tx_extra_service_node_state_change \<Rightarrow> service_node_keys \<Rightarrow> bytes" where
  "make_signature_from_tx_state_change cn_fast_hash generate_signature sc keys =
     generate_signature
       (make_state_change_vote_hash cn_fast_hash (sc_height sc) (service_node_index sc) (sc_state sc))
       (keys_pub keys) (keys_key keys)"

definition make_state_change_vote ::
  "(bytes \<Rightarrow> bytes) \<Rightarrow> (bytes \<Rightarrow> bytes \<Rightarrow> bytes \<Rightarrow> bytes)
   \<Rightarrow> u64 \<Rightarrow> u16 \<Rightarrow> u16 \<Rightarrow> u16 \<Rightarrow> u16 \<Rightarrow> service_node_keys \<Rightarrow> quorum_vote_t" where
  "make_state_change_vote cn_fast_hash generate_signature block_height index worker state reason keys =
     (let result = \<lparr>vote_version = 0, vote_type = quorum_type_num obligations, vote_height = block_height,
                    vote_group = quorum_group_validator, index_in_group = index,
                    vote_signature = zero_signature,
                    state_change = \<lparr>worker_index = worker, vote_state = state, vote_reason = reason\<rparr>,
                    checkpoint_hash = replicate 32 0\<rparr>
      in result\<lparr>vote_signature := make_signature_from_vote cn_fast_hash generate_signature result keys\<rparr>)"

definition make_checkpointing_vote ::
  "(bytes \<Rightarrow> bytes) \<Rightarrow> (bytes \<Rightarrow> bytes \<Rightarrow> bytes \<Rightarrow> bytes)
   \<Rightarrow> bytes \<Rightarrow> u64 \<Rightarrow> u16 \<Rightarrow> service_node_keys \<Rightarrow> quorum_vote_t" where
  "make_checkpointing_vote cn_fast_hash generate_signature block_hash block_height index keys =
     (let result = \<lparr>vote_version = 0, vote_type = quorum_type_num checkpointing, vote_height = block_height,
                    vote_group = quorum_group_validator, index_in_group = index,
                    vote_signature = zero_signature,
                    state_change = \<lparr>worker_index = 0, vote_state = 0, vote_reason = 0\<rparr>,
                    checkpoint_hash = block_hash\<rparr>
      in result\<lparr>vote_signature := make_signature_from_vote cn_fast_hash generate_signature result keys\<rparr>)"

definition make_empty_service_node_checkpoint :: "bytes \<Rightarrow> u64 \<Rightarrow> checkpoint_t" where
  "make_empty_service_node_checkpoint block_hash height =
     \<lparr>cp_version = 0, cp_type = service_node, cp_height = height, cp_hash = block_hash,
      cp_signatures = [], prev_height = 0\<rparr>"

section \<open>Verification of a state change transaction\<close>

text \<open>The context is passed by pointer and may be null.\<close>

definition bounds_check_worker_index ::
  "quorum \<Rightarrow> u32 \<Rightarrow> vote_verification_context option \<Rightarrow> bool \<times> vote_verification_context option" where
  "bounds_check_worker_index q index vvc =
     (if unat index \<ge> length (workers q)
      then (False, map_option (\<lambda>c. c\<lparr>m_worker_index_out_of_bounds := True\<rparr>) vvc)
      else (True, vvc))"

definition bounds_check_validator_index ::
  "quorum \<Rightarrow> u32 \<Rightarrow> vote_verification_context option \<Rightarrow> bool \<times> vote_verification_context option" where
  "bounds_check_validator_index q index vvc =
     (if unat index \<ge> length (validators q)
      then (False, map_option (\<lambda>c. c\<lparr>m_validator_index_out_of_bounds := True\<rparr>) vvc)
      else (True, vvc))"

definition bad_tx :: "tx_verification_context \<Rightarrow> bool \<times> tx_verification_context" where
  "bad_tx tvc = (False, tvc\<lparr>m_verifivation_failed := True\<rparr>)"

abbreviation set_vvc :: "tx_verification_context \<Rightarrow> vote_verification_context option \<Rightarrow> tx_verification_context" where
  "set_vvc tvc vvc \<equiv> tvc\<lparr>m_vote_ctx := the vvc\<rparr>"

text \<open>One pass of the loop over the votes; \<^term>\<open>validator_set\<close> is the array of counters.\<close>

fun state_change_votes_loop ::
  "(bytes \<Rightarrow> bytes \<Rightarrow> bytes \<Rightarrow> bool) \<Rightarrow> hf \<Rightarrow> quorum \<Rightarrow> bytes \<Rightarrow> nat list \<Rightarrow> int
   \<Rightarrow> tx_verification_context \<Rightarrow> tx_vote list \<Rightarrow> (bool \<times> tx_verification_context) option" where
  "state_change_votes_loop check_signature version q hash validator_set tracker tvc [] = Some (True, tvc)"
| "state_change_votes_loop check_signature version q hash validator_set tracker tvc (vote # votes) =
     (let index = sint (validator_index vote); i = unat (validator_index vote) in
      if version \<ge> hf13_enforce_checkpoints \<and> tracker \<ge> index then
        Some (bad_tx (tvc\<lparr>m_vote_ctx := (m_vote_ctx tvc)\<lparr>m_votes_not_sorted := True\<rparr>\<rparr>))
      else
        (let tracker' = (if version \<ge> hf13_enforce_checkpoints then index else tracker);
             (in_bounds, vvc) = bounds_check_validator_index q (validator_index vote) (Some (m_vote_ctx tvc))
         in
         if \<not> in_bounds then Some (bad_tx (set_vvc tvc vvc))
         else if i \<ge> length validator_set then None
         else
           (let validator_set' = validator_set[i := validator_set ! i + 1] in
            if validator_set' ! i > 1 then
              Some (bad_tx (tvc\<lparr>m_vote_ctx := (m_vote_ctx tvc)\<lparr>m_duplicate_voters := True\<rparr>\<rparr>))
            else if \<not> check_signature hash (validators q ! i) (tx_vote_signature vote) then
              Some (bad_tx (tvc\<lparr>m_vote_ctx := (m_vote_ctx tvc)\<lparr>m_signature_not_valid := True\<rparr>\<rparr>))
            else state_change_votes_loop check_signature version q hash validator_set' tracker' tvc votes)))"

definition verify_tx_state_change ::
  "(bytes \<Rightarrow> bytes) \<Rightarrow> (bytes \<Rightarrow> bytes \<Rightarrow> bytes \<Rightarrow> bool) \<Rightarrow> tx_extra_service_node_state_change
   \<Rightarrow> u64 \<Rightarrow> tx_verification_context \<Rightarrow> quorum \<Rightarrow> hf \<Rightarrow> (bool \<times> tx_verification_context) option" where
  "verify_tx_state_change cn_fast_hash check_signature sc latest_height tvc q version =
     (let vvc = m_vote_ctx tvc;
          (worker_ok, vvc') = bounds_check_worker_index q (service_node_index sc) (Some vvc);
          tvc_height = tvc\<lparr>m_vote_ctx := vvc\<lparr>m_invalid_block_height := True\<rparr>\<rparr>
      in
      if sc_state sc \<noteq> new_state_deregister \<and> version < hf12_checkpointing then Some (bad_tx tvc)
      else if sc_state sc \<ge> new_state_count then Some (bad_tx tvc)
      else if length (sc_votes sc) < STATE_CHANGE_MIN_VOTES_TO_CHANGE_STATE then
        Some (bad_tx (tvc\<lparr>m_vote_ctx := vvc\<lparr>m_not_enough_votes := True\<rparr>\<rparr>))
      else if length (sc_votes sc) > STATE_CHANGE_QUORUM_SIZE then Some (bad_tx tvc)
      else if \<not> worker_ok then Some (bad_tx (set_vvc tvc vvc'))
      else if sc_height sc \<ge> latest_height then
        Some (False,
          if sc_height sc \<ge> latest_height + of_nat VOTE_OR_TX_VERIFY_HEIGHT_BUFFER
          then tvc_height\<lparr>m_verifivation_failed := True\<rparr> else tvc_height)
      else if latest_height \<ge> sc_height sc + of_nat VOTE_LIFETIME then
        Some (False,
          if latest_height \<ge> sc_height sc + (of_nat VOTE_LIFETIME + of_nat VOTE_OR_TX_VERIFY_HEIGHT_BUFFER)
          then tvc_height\<lparr>m_verifivation_failed := True\<rparr> else tvc_height)
      else
        state_change_votes_loop check_signature version q
          (make_state_change_vote_hash cn_fast_hash (sc_height sc) (service_node_index sc) (sc_state sc))
          (replicate STATE_CHANGE_QUORUM_SIZE 0) (-1) tvc (sc_votes sc))"

section \<open>Verification of quorum signatures\<close>

definition MAX_QUORUM_SIZE :: nat where
  "MAX_QUORUM_SIZE = max CHECKPOINT_QUORUM_SIZE PULSE_QUORUM_NUM_VALIDATORS"

fun quorum_signatures_loop ::
  "(bytes \<Rightarrow> bytes \<Rightarrow> bytes \<Rightarrow> bool) \<Rightarrow> quorum \<Rightarrow> quorum_type \<Rightarrow> bytes \<Rightarrow> pulse_block option \<Rightarrow> bool
   \<Rightarrow> nat list \<Rightarrow> quorum_signature list \<Rightarrow> bool option" where
  "quorum_signatures_loop check_signature q type hash block enforce_vote_ordering unique_vote_set [] = Some True"
| "quorum_signatures_loop check_signature q type hash block enforce_vote_ordering unique_vote_set (s # ss) =
     (let i = unat (voter_index s) in
      if enforce_vote_ordering \<and> ss \<noteq> [] \<and> voter_index s \<ge> voter_index (hd ss) then Some False
      else if \<not> fst (bounds_check_validator_index q (ucast (voter_index s)) None) then Some False
      else if type = pulse \<and> block = None then Some False
      else if type = pulse \<and> i \<ge> 32 then None
      else if type = pulse \<and> validator_bitset (the block) AND push_bit i 1 = 0 then Some False
      else if i \<ge> length unique_vote_set then Some False
      else if unique_vote_set ! i \<noteq> 0 then Some False
      else if \<not> check_signature hash (validators q ! i) (voter_signature s) then Some False
      else quorum_signatures_loop check_signature q type hash block enforce_vote_ordering
             (unique_vote_set[i := unique_vote_set ! i + 1]) ss)"

definition verify_quorum_signatures ::
  "(bytes \<Rightarrow> bytes \<Rightarrow> bytes \<Rightarrow> bool) \<Rightarrow> quorum \<Rightarrow> quorum_type \<Rightarrow> hf \<Rightarrow> bytes
   \<Rightarrow> quorum_signature list \<Rightarrow> pulse_block option \<Rightarrow> bool option" where
  "verify_quorum_signatures check_signature q type version hash signatures block =
     (let loop = (\<lambda>enforce_vote_ordering. quorum_signatures_loop check_signature q type hash block
                    enforce_vote_ordering (replicate MAX_QUORUM_SIZE 0) signatures)
      in case type of
        checkpointing \<Rightarrow>
          if length signatures < CHECKPOINT_MIN_VOTES then Some False
          else if length signatures > CHECKPOINT_QUORUM_SIZE then Some False
          else loop (version \<ge> hf13_enforce_checkpoints)
      | pulse \<Rightarrow>
          if length signatures \<noteq> PULSE_BLOCK_REQUIRED_SIGNATURES then Some False
          else (case block of
            None \<Rightarrow> Some False
          | Some b \<Rightarrow>
              if validator_bitset b \<ge> 2 ^ PULSE_QUORUM_NUM_VALIDATORS then Some False else loop True)
      | _ \<Rightarrow> loop True)"

definition verify_pulse_quorum_sizes :: "quorum \<Rightarrow> bool" where
  "verify_pulse_quorum_sizes q \<longleftrightarrow>
     length (workers q) = 1 \<and> length (validators q) = PULSE_QUORUM_NUM_VALIDATORS"

definition verify_checkpoint ::
  "(bytes \<Rightarrow> bytes \<Rightarrow> bytes \<Rightarrow> bool) \<Rightarrow> hf \<Rightarrow> checkpoint_t \<Rightarrow> quorum \<Rightarrow> bool option" where
  "verify_checkpoint check_signature version cp q =
     (if cp_type cp = service_node then
        (if cp_height cp mod of_nat CHECKPOINT_INTERVAL \<noteq> 0 then Some False
         else verify_quorum_signatures check_signature q checkpointing version (cp_hash cp)
                (cp_signatures cp) None)
      else Some (length (cp_signatures cp) = 0))"

section \<open>Verification of a single vote\<close>

definition verify_vote_age ::
  "quorum_vote_t \<Rightarrow> u64 \<Rightarrow> vote_verification_context \<Rightarrow> bool \<times> vote_verification_context" where
  "verify_vote_age vote latest_height vvc =
     (let (height_in_buffer, vvc') =
        (if latest_height > vote_height vote + of_nat VOTE_LIFETIME then
           (latest_height \<le> vote_height vote + (of_nat VOTE_LIFETIME + of_nat VOTE_OR_TX_VERIFY_HEIGHT_BUFFER),
            vvc\<lparr>m_invalid_block_height := True\<rparr>)
         else if vote_height vote > latest_height then
           (vote_height vote \<le> latest_height + of_nat VOTE_OR_TX_VERIFY_HEIGHT_BUFFER,
            vvc\<lparr>m_invalid_block_height := True\<rparr>)
         else (False, vvc))
      in if m_invalid_block_height vvc' then (False, vvc'\<lparr>m_verification_failed := \<not> height_in_buffer\<rparr>)
         else (True, vvc'))"

definition verify_vote_signature ::
  "(bytes \<Rightarrow> bytes) \<Rightarrow> (bytes \<Rightarrow> bytes \<Rightarrow> bytes \<Rightarrow> bool)
   \<Rightarrow> quorum_vote_t \<Rightarrow> vote_verification_context \<Rightarrow> quorum \<Rightarrow> bool \<times> vote_verification_context" where
  "verify_vote_signature cn_fast_hash check_signature vote vvc q =
     (let bad_type = vote_type vote > quorum_type_num pulse;
          bad_group = vote_group vote > quorum_group_worker \<or> vote_group vote < quorum_group_validator;
          vvc1 = (if bad_type then vvc\<lparr>m_invalid_vote_type := True\<rparr> else vvc);
          vvc2 = (if bad_group then vvc1\<lparr>m_incorrect_voting_group := True\<rparr> else vvc1);
          index = ucast (index_in_group vote);
          (in_bounds, vvc3) =
            (if vote_group vote = quorum_group_validator
             then bounds_check_validator_index q index (Some vvc2)
             else bounds_check_worker_index q index (Some vvc2));
          vvc3 = the vvc3;
          key = validators q ! unat (index_in_group vote);
          check = (\<lambda>hash vvc. if check_signature hash key (vote_signature vote) then (True, vvc)
                              else (False, vvc\<lparr>m_signature_not_valid := True\<rparr>));
          wrong_group = (False, vvc3\<lparr>m_incorrect_voting_group := True\<rparr>)
      in
      if bad_type \<or> bad_group then (False, vvc2)
      else if \<not> in_bounds then (False, vvc3)
      else if vote_type vote = quorum_type_num obligations then
        (if vote_group vote \<noteq> quorum_group_validator then wrong_group
         else
           (let hash = make_state_change_vote_hash cn_fast_hash (vote_height vote)
                  (ucast (worker_index (state_change vote))) (vote_state (state_change vote));
                (worker_ok, vvc4) =
                  bounds_check_worker_index q (ucast (worker_index (state_change vote))) (Some vvc3)
            in if \<not> worker_ok then (False, the vvc4) else check hash (the vvc4)))
      else if vote_type vote = quorum_type_num checkpointing then
        (if vote_group vote \<noteq> quorum_group_validator then wrong_group
         else check (checkpoint_hash vote) vvc3)
      else (False, vvc3))"

section \<open>The loops over the votes\<close>

text \<open>The counter arrays of the two loops record which indices have been seen.\<close>

definition counts :: "nat list \<Rightarrow> nat set \<Rightarrow> bool" where
  "counts u seen \<longleftrightarrow> (\<forall>i<length u. u ! i = (if i \<in> seen then 1 else 0))"

lemma counts_empty [simp]: "counts (replicate n 0) {}"
  by (simp add: counts_def)

lemma counts_insert:
  assumes "counts u seen" "i \<notin> seen" shows "counts (u[i := Suc (u ! i)]) (insert i seen)"
  unfolding counts_def
proof (intro allI impI)
  fix j assume "j < length (u[i := Suc (u ! i)])"
  then show "u[i := Suc (u ! i)] ! j = (if j \<in> insert i seen then 1 else 0)"
    using assms by (cases "j = i") (auto simp: counts_def)
qed

lemma counts_fresh:
  assumes "counts u seen" "i < length u" shows "u ! i = 0 \<longleftrightarrow> i \<notin> seen"
  using assms by (simp add: counts_def)

abbreviation tx_vote_indices :: "tx_vote list \<Rightarrow> nat list" where
  "tx_vote_indices votes \<equiv> map (\<lambda>v. unat (validator_index v)) votes"

lemma state_change_votes_loop_step:
  "state_change_votes_loop chk version q h u tracker tvc (v # votes) = Some (True, tvc') \<longleftrightarrow>
    (let i = unat (validator_index v) in
      (hf13_enforce_checkpoints \<le> version \<longrightarrow> tracker < sint (validator_index v)) \<and>
      i < length (validators q) \<and> i < length u \<and> u ! i = 0 \<and> chk h (validators q ! i) (tx_vote_signature v) \<and>
      state_change_votes_loop chk version q h (u[i := Suc (u ! i)])
        (if hf13_enforce_checkpoints \<le> version then sint (validator_index v) else tracker) tvc votes
        = Some (True, tvc'))"
  by (cases "hf13_enforce_checkpoints \<le> version")
    (auto simp: Let_def bad_tx_def bounds_check_validator_index_def)

lemma state_change_votes_loop_True:
  assumes "counts u seen"
  shows "state_change_votes_loop chk version q h u tracker tvc votes = Some (True, tvc') \<longleftrightarrow>
    tvc' = tvc \<and> distinct (tx_vote_indices votes) \<and> set (tx_vote_indices votes) \<inter> seen = {} \<and>
    (\<forall>v\<in>set votes. unat (validator_index v) < length (validators q) \<and> unat (validator_index v) < length u \<and>
        chk h (validators q ! unat (validator_index v)) (tx_vote_signature v)) \<and>
    (hf13_enforce_checkpoints \<le> version \<longrightarrow> sorted_wrt (<) (tracker # map (\<lambda>v. sint (validator_index v)) votes))"
  using assms
proof (induction votes arbitrary: u seen tracker)
  case Nil
  then show ?case by auto
next
  case (Cons v votes)
  let ?i = "unat (validator_index v)"
  have cf: "?i < length u \<Longrightarrow> u ! ?i = 0 \<longleftrightarrow> ?i \<notin> seen" using counts_fresh[OF Cons.prems] .
  show ?case
  proof (cases "?i < length u \<and> ?i \<notin> seen")
    case True
    note IH = Cons.IH[OF counts_insert[OF Cons.prems conjunct2[OF True]]]
    show ?thesis unfolding state_change_votes_loop_step Let_def IH list.map sorted_wrt_step
      using True cf by auto
  next
    case False
    then show ?thesis unfolding state_change_votes_loop_step Let_def using cf by auto
  qed
qed

lemma state_change_votes_loop_defined:
  assumes "length (validators q) \<le> length u"
  shows "state_change_votes_loop chk version q h u tracker tvc votes \<noteq> None"
  using assms
  by (induction votes arbitrary: u tracker) (auto simp: Let_def bounds_check_validator_index_def)

lemma state_change_votes_loop_False:
  "state_change_votes_loop chk version q h u tracker tvc votes = Some (False, tvc')
   \<Longrightarrow> m_verifivation_failed tvc'"
  by (induction votes arbitrary: u tracker)
    (auto simp: Let_def bad_tx_def bounds_check_validator_index_def split: if_splits)


abbreviation voter_indices :: "quorum_signature list \<Rightarrow> nat list" where
  "voter_indices sigs \<equiv> map (\<lambda>s. unat (voter_index s)) sigs"

lemma unat_u16_u32 [simp]: "unat (ucast (x :: u16) :: u32) = unat x"
  by (simp add: unsigned_ucast_eq take_bit_nat_eq_self_iff less_trans[OF unsigned_less[where 'a=nat]])

definition participates :: "quorum_type \<Rightarrow> pulse_block option \<Rightarrow> nat \<Rightarrow> bool" where
  "participates type block i \<longleftrightarrow>
     (type = pulse \<longrightarrow> (\<exists>b. block = Some b \<and> i < 32 \<and> bit (validator_bitset b) i))"

lemma quorum_signatures_loop_step:
  "quorum_signatures_loop chk q type h block enforce u (s # sigs) = Some True \<longleftrightarrow>
    (let i = unat (voter_index s) in
      (enforce \<longrightarrow> sigs \<noteq> [] \<longrightarrow> voter_index s < voter_index (hd sigs)) \<and>
      i < length (validators q) \<and> participates type block i \<and> i < length u \<and> u ! i = 0 \<and>
      chk h (validators q ! i) (voter_signature s) \<and>
      quorum_signatures_loop chk q type h block enforce (u[i := Suc (u ! i)]) sigs = Some True)"
  by (cases block)
    (auto simp: Let_def participates_def bounds_check_validator_index_def and_exp_eq_0_iff_not_bit)

lemma voters_sorted_step:
  "sorted_wrt (<) (voter_indices (s # sigs)) \<longleftrightarrow>
     (sigs \<noteq> [] \<longrightarrow> voter_index s < voter_index (hd sigs)) \<and> sorted_wrt (<) (voter_indices sigs)"
proof (cases sigs)
  case (Cons t ts)
  then show ?thesis by (simp only: list.map sorted_wrt_step) (simp add: word_less_nat_alt)
qed simp

lemma quorum_signatures_loop_True:
  assumes "counts u seen"
  shows "quorum_signatures_loop chk q type h block enforce u sigs = Some True \<longleftrightarrow>
    distinct (voter_indices sigs) \<and> set (voter_indices sigs) \<inter> seen = {} \<and>
    (\<forall>s\<in>set sigs. unat (voter_index s) < length (validators q) \<and> unat (voter_index s) < length u \<and>
        chk h (validators q ! unat (voter_index s)) (voter_signature s) \<and>
        participates type block (unat (voter_index s))) \<and>
    (enforce \<longrightarrow> sorted_wrt (<) (voter_indices sigs))"
  using assms
proof (induction sigs arbitrary: u seen)
  case Nil
  then show ?case by simp
next
  case (Cons s sigs)
  let ?i = "unat (voter_index s)"
  have cf: "?i < length u \<Longrightarrow> u ! ?i = 0 \<longleftrightarrow> ?i \<notin> seen" using counts_fresh[OF Cons.prems] .
  show ?case
  proof (cases "?i < length u \<and> ?i \<notin> seen")
    case True
    note IH = Cons.IH[OF counts_insert[OF Cons.prems conjunct2[OF True]]]
    show ?thesis unfolding quorum_signatures_loop_step Let_def IH voters_sorted_step
      using True cf by auto
  next
    case False
    then show ?thesis unfolding quorum_signatures_loop_step Let_def using cf by auto
  qed
qed

lemma quorum_signatures_loop_defined:
  assumes "type = pulse \<Longrightarrow> length (validators q) \<le> 32"
  shows "quorum_signatures_loop chk q type h block enforce u sigs \<noteq> None"
proof (induction sigs arbitrary: u)
  case (Cons s sigs)
  show ?case unfolding quorum_signatures_loop.simps Let_def
    using assms by (intro if_not_None Cons.IH) (auto simp: bounds_check_validator_index_def)
qed simp

lemma sorted_ints: "sorted_wrt (<) (-1 # map int xs) \<longleftrightarrow> sorted_wrt (<) xs"
  by (induction xs) auto

lemma votes_sorted_iff:
  assumes "\<forall>v\<in>set votes. unat (validator_index v) < 2 ^ 31"
  shows "sorted_wrt (<) (-1 # map (\<lambda>v. sint (validator_index v)) votes) \<longleftrightarrow> sorted_wrt (<) (tx_vote_indices votes)"
proof -
  have "map (\<lambda>v. sint (validator_index v)) votes = map int (tx_vote_indices votes)"
    using assms sint_small by auto
  then show ?thesis using sorted_ints[of "tx_vote_indices votes"] by (simp only:)
qed

lemma if_reject:
  "((if b then Some (False, x) else y) = Some (True, t)) \<longleftrightarrow> \<not> b \<and> y = Some (True, t)"
  by simp

lemma verify_tx_state_change_True:
  "verify_tx_state_change H chk sc latest tvc q version = Some (True, tvc') \<longleftrightarrow>
    (sc_state sc = new_state_deregister \<or> hf12_checkpointing \<le> version) \<and> sc_state sc < new_state_count \<and>
    STATE_CHANGE_MIN_VOTES_TO_CHANGE_STATE \<le> length (sc_votes sc) \<and>
    length (sc_votes sc) \<le> STATE_CHANGE_QUORUM_SIZE \<and>
    unat (service_node_index sc) < length (workers q) \<and>
    sc_height sc < latest \<and> latest < sc_height sc + of_nat VOTE_LIFETIME \<and>
    state_change_votes_loop chk version q
      (make_state_change_vote_hash H (sc_height sc) (service_node_index sc) (sc_state sc))
      (replicate STATE_CHANGE_QUORUM_SIZE 0) (-1) tvc (sc_votes sc) = Some (True, tvc')"
proof (cases "unat (service_node_index sc) < length (workers q)")
  case True
  then have "bounds_check_worker_index q (service_node_index sc) (Some (m_vote_ctx tvc)) = (True, Some (m_vote_ctx tvc))"
    by (simp add: bounds_check_worker_index_def)
  then show ?thesis unfolding verify_tx_state_change_def Let_def bad_tx_def using True
    by (simp only: if_reject prod.case not_le not_less de_Morgan_conj not_not simp_thms)
next
  case False
  then have "\<exists>c. bounds_check_worker_index q (service_node_index sc) (Some (m_vote_ctx tvc)) = (False, c)"
    by (simp add: bounds_check_worker_index_def)
  then show ?thesis unfolding verify_tx_state_change_def Let_def bad_tx_def using False
    by (elim exE) (simp only: if_reject prod.case, simp)
qed

text \<open>A list of votes that the verification accepts.\<close>

definition quorum_votes_valid ::
  "(bytes \<Rightarrow> bytes \<Rightarrow> bytes \<Rightarrow> bool) \<Rightarrow> quorum \<Rightarrow> bytes \<Rightarrow> hf \<Rightarrow> tx_vote list \<Rightarrow> bool" where
  "quorum_votes_valid chk q h version votes \<longleftrightarrow>
     distinct (tx_vote_indices votes) \<and>
     (\<forall>v\<in>set votes. unat (validator_index v) < length (validators q) \<and>
        chk h (validators q ! unat (validator_index v)) (tx_vote_signature v)) \<and>
     (hf13_enforce_checkpoints \<le> version \<longrightarrow> sorted_wrt (<) (tx_vote_indices votes))"

lemma verify_tx_state_change_char:
  assumes "length (validators q) \<le> STATE_CHANGE_QUORUM_SIZE"
    and "unat (sc_height sc) + VOTE_LIFETIME < 2 ^ 64"
  shows "verify_tx_state_change H chk sc latest tvc q version = Some (True, tvc') \<longleftrightarrow>
    tvc' = tvc \<and>
    (sc_state sc = new_state_deregister \<or> hf12_checkpointing \<le> version) \<and> sc_state sc < new_state_count \<and>
    STATE_CHANGE_MIN_VOTES_TO_CHANGE_STATE \<le> length (sc_votes sc) \<and>
    unat (service_node_index sc) < length (workers q) \<and>
    unat (sc_height sc) < unat latest \<and> unat latest < unat (sc_height sc) + VOTE_LIFETIME \<and>
    quorum_votes_valid chk q
      (make_state_change_vote_hash H (sc_height sc) (service_node_index sc) (sc_state sc)) version (sc_votes sc)"
proof -
  let ?h = "make_state_change_vote_hash H (sc_height sc) (service_node_index sc) (sc_state sc)"
  have few: "length (sc_votes sc) \<le> STATE_CHANGE_QUORUM_SIZE" if "quorum_votes_valid chk q ?h version (sc_votes sc)"
  proof -
    have "length (tx_vote_indices (sc_votes sc)) \<le> length (validators q)"
      using that unfolding quorum_votes_valid_def by (intro distinct_bounded) auto
    then show ?thesis using assms(1) by simp
  qed
  have small: "unat (validator_index v) < 2 ^ 31" if "unat (validator_index v) < length (validators q)" for v
    using that assms(1) by (simp add: STATE_CHANGE_QUORUM_SIZE_def)
  have loop: "state_change_votes_loop chk version q ?h (replicate STATE_CHANGE_QUORUM_SIZE 0) (-1) tvc (sc_votes sc)
      = Some (True, tvc') \<longleftrightarrow> tvc' = tvc \<and> quorum_votes_valid chk q ?h version (sc_votes sc)"
    unfolding state_change_votes_loop_True[OF counts_empty] quorum_votes_valid_def
    using votes_sorted_iff[of "sc_votes sc"] small assms(1) by auto
  show ?thesis
    unfolding verify_tx_state_change_True loop word_less_nat_alt[of "sc_height sc"] 
      word_less_nat_alt[of latest] u64_add_of_nat[OF assms(2)]
    using few by blast
qed

text \<open>A rejection that keeps the transaction from being marked as bad comes from a height just outside
  of the window.\<close>

definition near_window :: "u64 \<Rightarrow> u64 \<Rightarrow> bool" where
  "near_window height latest \<longleftrightarrow>
     latest \<le> height \<and> height < latest + of_nat VOTE_OR_TX_VERIFY_HEIGHT_BUFFER \<or>
     height + of_nat VOTE_LIFETIME \<le> latest \<and>
     latest < height + (of_nat VOTE_LIFETIME + of_nat VOTE_OR_TX_VERIFY_HEIGHT_BUFFER)"

definition rejection_marked :: "u64 \<Rightarrow> u64 \<Rightarrow> (bool \<times> tx_verification_context) option \<Rightarrow> bool" where
  "rejection_marked height latest r \<longleftrightarrow>
     (\<exists>ok tvc. r = Some (ok, tvc) \<and>
       (\<not> ok \<longrightarrow> m_verifivation_failed tvc \<or> m_invalid_block_height (m_vote_ctx tvc) \<and> near_window height latest))"

lemma state_change_rejection_marked:
  assumes "length (validators q) \<le> STATE_CHANGE_QUORUM_SIZE"
  shows "rejection_marked (sc_height sc) latest (verify_tx_state_change H chk sc latest tvc q version)"
proof -
  let ?P = "rejection_marked (sc_height sc) latest"
  let ?loop = "\<lambda>h. state_change_votes_loop chk version q h (replicate STATE_CHANGE_QUORUM_SIZE 0) (-1) tvc (sc_votes sc)"
  have loop: "?P (?loop h)" for h
  proof -
    obtain ok t where l: "?loop h = Some (ok, t)"
      using state_change_votes_loop_defined[of q "replicate STATE_CHANGE_QUORUM_SIZE 0"] assms by fastforce
    then show ?thesis using state_change_votes_loop_False by (cases ok) (auto simp: rejection_marked_def)
  qed
  have bad: "?P (Some (bad_tx t))" for t by (auto simp: rejection_marked_def bad_tx_def)
  have height: "?P (Some (False, if b then t\<lparr>m_verifivation_failed := True\<rparr> else t))"
    if "\<not> b \<Longrightarrow> near_window (sc_height sc) latest" "m_invalid_block_height (m_vote_ctx t)" for b t
    using that by (auto simp: rejection_marked_def)
  obtain ok c where w: "bounds_check_worker_index q (service_node_index sc) (Some (m_vote_ctx tvc)) = (ok, c)"
    by fastforce
  show ?thesis
    unfolding verify_tx_state_change_def Let_def w prod.case
    by (intro if_intro[where P = ?P] bad loop height) (auto simp: near_window_def)
qed

section \<open>Quorums that overlap\<close>

text \<open>A quorum of at most \<^term>\<open>members\<close> validators of which \<^term>\<open>threshold\<close> have to sign: any two sets of
  signers share at least \<^term>\<open>overlap\<close> of them.\<close>

lemma quorum_intersection:
  assumes "A \<subseteq> {..<n}" "B \<subseteq> {..<n :: nat}" shows "card A + card B \<le> n + card (A \<inter> B)"
proof -
  have fin: "finite A" "finite B" using assms finite_subset by blast+
  have "card (A \<union> B) \<le> card {..<n}" using assms by (intro card_mono) auto
  then show ?thesis using card_Un_Int[OF fin] by simp
qed

locale quorum_threshold =
  fixes members threshold overlap :: nat
  assumes enough: "members + overlap \<le> 2 * threshold"
begin

lemma signers_overlap:
  assumes "A \<subseteq> {..<n}" "B \<subseteq> {..<n}" "n \<le> members" "threshold \<le> card A" "threshold \<le> card B"
  shows "overlap \<le> card (A \<inter> B)"
  using quorum_intersection[OF assms(1,2)] assms(3-5) enough by linarith

end

interpretation checkpoint_quorum: quorum_threshold CHECKPOINT_QUORUM_SIZE CHECKPOINT_MIN_VOTES 6
  by unfold_locales (simp add: CHECKPOINT_QUORUM_SIZE_def CHECKPOINT_MIN_VOTES_def)

interpretation pulse_quorum: quorum_threshold PULSE_QUORUM_NUM_VALIDATORS PULSE_BLOCK_REQUIRED_SIGNATURES 3
  by unfold_locales (simp add: PULSE_QUORUM_NUM_VALIDATORS_def PULSE_BLOCK_REQUIRED_SIGNATURES_def)

interpretation state_change_quorum:
  quorum_threshold STATE_CHANGE_QUORUM_SIZE STATE_CHANGE_MIN_VOTES_TO_CHANGE_STATE 4
  by unfold_locales (simp add: STATE_CHANGE_QUORUM_SIZE_def STATE_CHANGE_MIN_VOTES_TO_CHANGE_STATE_def)

section \<open>Signatures and single votes\<close>

text \<open>The indices of the validators that a list of signatures vouches for.\<close>

definition signers :: "(bytes \<Rightarrow> bytes \<Rightarrow> bytes \<Rightarrow> bool) \<Rightarrow> quorum \<Rightarrow> bytes \<Rightarrow> quorum_signature list \<Rightarrow> nat set" where
  "signers chk q h sigs =
     {i. i < length (validators q) \<and>
         (\<exists>s\<in>set sigs. unat (voter_index s) = i \<and> chk h (validators q ! i) (voter_signature s))}"

lemma signers_bounded: "signers chk q h sigs \<subseteq> {..<length (validators q)}"
  by (auto simp: signers_def)

definition quorum_signatures_valid ::
  "(bytes \<Rightarrow> bytes \<Rightarrow> bytes \<Rightarrow> bool) \<Rightarrow> quorum \<Rightarrow> bytes \<Rightarrow> bool \<Rightarrow> quorum_signature list \<Rightarrow> bool" where
  "quorum_signatures_valid chk q h ascending sigs \<longleftrightarrow>
     distinct (voter_indices sigs) \<and>
     (\<forall>s\<in>set sigs. unat (voter_index s) < length (validators q) \<and>
        chk h (validators q ! unat (voter_index s)) (voter_signature s)) \<and>
     (ascending \<longrightarrow> sorted_wrt (<) (voter_indices sigs))"

lemma card_signers:
  assumes "quorum_signatures_valid chk q h asc sigs" shows "card (signers chk q h sigs) = length sigs"
proof -
  have "signers chk q h sigs = set (voter_indices sigs)"
    using assms by (auto simp: signers_def quorum_signatures_valid_def)
  then show ?thesis using assms distinct_card[of "voter_indices sigs"] by (simp add: quorum_signatures_valid_def)
qed

lemma verify_checkpointing_char:
  assumes "length (validators q) \<le> CHECKPOINT_QUORUM_SIZE"
  shows "verify_quorum_signatures chk q checkpointing version h sigs block = Some True \<longleftrightarrow>
    CHECKPOINT_MIN_VOTES \<le> length sigs \<and>
    quorum_signatures_valid chk q h (hf13_enforce_checkpoints \<le> version) sigs"
proof -
  have few: "length sigs \<le> CHECKPOINT_QUORUM_SIZE" if "quorum_signatures_valid chk q h asc sigs" for asc
  proof -
    have "length (voter_indices sigs) \<le> length (validators q)"
      using that unfolding quorum_signatures_valid_def by (intro distinct_bounded) auto
    then show ?thesis using assms by simp
  qed
  have "quorum_signatures_loop chk q checkpointing h block asc (replicate MAX_QUORUM_SIZE 0) sigs = Some True
    \<longleftrightarrow> quorum_signatures_valid chk q h asc sigs" for asc
    using assms unfolding quorum_signatures_loop_True[OF counts_empty] quorum_signatures_valid_def
    by (auto simp: participates_def MAX_QUORUM_SIZE_def)
  then show ?thesis using few by (auto simp: verify_quorum_signatures_def Let_def)
qed

lemma verify_pulse_char:
  assumes "length (validators q) \<le> PULSE_QUORUM_NUM_VALIDATORS"
  shows "verify_quorum_signatures chk q pulse version h sigs block = Some True \<longleftrightarrow>
    (\<exists>b. block = Some b \<and> unat (validator_bitset b) < 2 ^ PULSE_QUORUM_NUM_VALIDATORS \<and>
      length sigs = PULSE_BLOCK_REQUIRED_SIGNATURES \<and> quorum_signatures_valid chk q h True sigs \<and>
      (\<forall>i\<in>set (voter_indices sigs). bit (validator_bitset b) i))"
proof (cases block)
  case None
  then show ?thesis by (auto simp: verify_quorum_signatures_def Let_def)
next
  case (Some b)
  have "quorum_signatures_loop chk q pulse h (Some b) True (replicate MAX_QUORUM_SIZE 0) sigs = Some True
    \<longleftrightarrow> quorum_signatures_valid chk q h True sigs \<and> (\<forall>i\<in>set (voter_indices sigs). bit (validator_bitset b) i)"
    using assms unfolding quorum_signatures_loop_True[OF counts_empty] quorum_signatures_valid_def
    by (auto simp: participates_def MAX_QUORUM_SIZE_def PULSE_QUORUM_NUM_VALIDATORS_def)
  moreover have "(validator_bitset b \<ge> 2 ^ PULSE_QUORUM_NUM_VALIDATORS)
      = (2 ^ PULSE_QUORUM_NUM_VALIDATORS \<le> unat (validator_bitset b))"
    by (simp add: PULSE_QUORUM_NUM_VALIDATORS_def word_le_nat_alt)
  ultimately show ?thesis using Some by (auto simp: verify_quorum_signatures_def Let_def)
qed



definition vote_hash :: "(bytes \<Rightarrow> bytes) \<Rightarrow> quorum_vote_t \<Rightarrow> bytes" where
  "vote_hash H vote =
     (if vote_type vote = quorum_type_num obligations
      then make_state_change_vote_hash H (vote_height vote) (ucast (worker_index (state_change vote)))
             (vote_state (state_change vote))
      else checkpoint_hash vote)"

lemmas quorum_nums = quorum_type_num_def quorum_group_validator_def quorum_group_worker_def

lemma verify_vote_signature_True:
  "verify_vote_signature H chk vote vvc q = (True, vvc') \<longleftrightarrow>
     vvc' = vvc \<and> vote_group vote = quorum_group_validator \<and>
     unat (index_in_group vote) < length (validators q) \<and>
     (vote_type vote = quorum_type_num obligations \<and>
        unat (worker_index (state_change vote)) < length (workers q) \<or>
      vote_type vote = quorum_type_num checkpointing) \<and>
     chk (vote_hash H vote) (validators q ! unat (index_in_group vote)) (vote_signature vote)"
proof (cases "vote_group vote = quorum_group_validator")
  case True
  consider "vote_type vote = 0" | "vote_type vote = 1" | "vote_type vote \<noteq> 0" "vote_type vote \<noteq> 1" by blast
  then show ?thesis
  proof cases
    case 1
    then show ?thesis using True
      by (auto simp: verify_vote_signature_def Let_def quorum_nums vote_hash_def
          bounds_check_validator_index_def bounds_check_worker_index_def)
  next
    case 2
    then show ?thesis using True
      by (auto simp: verify_vote_signature_def Let_def quorum_nums vote_hash_def bounds_check_validator_index_def)
  next
    case 3
    then show ?thesis using True
      by (auto simp: verify_vote_signature_def Let_def quorum_nums bounds_check_validator_index_def)
  qed
next
  case False
  then show ?thesis
    by (auto simp: verify_vote_signature_def Let_def bounds_check_worker_index_def)
qed

section \<open>Properties\<close>

text \<open>A signature scheme and a quorum for concrete runs: the signature is the key and the message.\<close>

definition demo_check :: "bytes \<Rightarrow> bytes \<Rightarrow> bytes \<Rightarrow> bool" where
  "demo_check h k s \<longleftrightarrow> s = k @ h"

definition demo_quorum :: "nat \<Rightarrow> quorum" where
  "demo_quorum n = \<lparr>validators = map (\<lambda>i. [of_nat i]) [0..<n], workers = [[100]]\<rparr>"

definition demo_signatures :: "bytes \<Rightarrow> nat \<Rightarrow> nat \<Rightarrow> quorum_signature list" where
  "demo_signatures h m n = map (\<lambda>i. \<lparr>voter_index = of_nat i, voter_signature = of_nat i # h\<rparr>) [m..<n]"

definition demo_checkpoint :: "bytes \<Rightarrow> nat \<Rightarrow> checkpoint_t" where
  "demo_checkpoint h m = (make_empty_service_node_checkpoint h 8)\<lparr>cp_signatures := demo_signatures h m (m + 13)\<rparr>"

definition demo_state_change :: tx_extra_service_node_state_change where
  "demo_state_change =
     \<lparr>sc_version = 4, sc_state = 1, sc_height = 100, service_node_index = 0,
      reason_consensus_all = 1, reason_consensus_any = 1,
      sc_votes = map (\<lambda>i. \<lparr>tx_vote_signature =
                             of_nat i # little_endian 8 (100 :: u64) @ little_endian 4 (0 :: u32) @ little_endian 2 (1 :: u16),
                           validator_index = of_nat i\<rparr>) [0..<7]\<rparr>"

definition demo_tvc :: tx_verification_context where
  "demo_tvc = \<lparr>m_verifivation_failed = False, m_vote_ctx = empty_vvc\<rparr>"

text \<open>C18. A state change transaction passes the verification exactly when its state is known (before hard
  fork 12 only deregistration), at least seven votes come from different validators of the quorum,
  every vote is signed over the hash of this change by the key of its validator (in ascending order
  from hard fork 13 on), the worker exists and the height lies in the window of the last 60 blocks; the
  context is then left as it was.\<close>

theorem verify_tx_state_change_iff:
  assumes "length (validators q) \<le> STATE_CHANGE_QUORUM_SIZE"
    and "unat (sc_height sc) + VOTE_LIFETIME < 2 ^ 64"
  shows "verify_tx_state_change H chk sc latest tvc q version = Some (True, tvc') \<longleftrightarrow>
    tvc' = tvc \<and>
    (sc_state sc = new_state_deregister \<or> hf12_checkpointing \<le> version) \<and> sc_state sc < new_state_count \<and>
    STATE_CHANGE_MIN_VOTES_TO_CHANGE_STATE \<le> length (sc_votes sc) \<and>
    unat (service_node_index sc) < length (workers q) \<and>
    unat (sc_height sc) < unat latest \<and> unat latest < unat (sc_height sc) + VOTE_LIFETIME \<and>
    quorum_votes_valid chk q
      (make_state_change_vote_hash H (sc_height sc) (service_node_index sc) (sc_state sc)) version (sc_votes sc)"
  by (rule verify_tx_state_change_char[OF assms])

theorem verify_tx_state_change_iff_witness:
  "quorum_votes_valid demo_check (demo_quorum 10)
     (make_state_change_vote_hash id (sc_height demo_state_change) (service_node_index demo_state_change)
       (sc_state demo_state_change)) hf19_reward_batching (sc_votes demo_state_change)"
proof -
  have "length (validators (demo_quorum 10)) \<le> STATE_CHANGE_QUORUM_SIZE"
    by (simp add: demo_quorum_def STATE_CHANGE_QUORUM_SIZE_def)
  moreover have "unat (sc_height demo_state_change) + VOTE_LIFETIME < 2 ^ 64"
    by (simp add: demo_state_change_def VOTE_LIFETIME_def)
  moreover have "verify_tx_state_change id demo_check demo_state_change 120 demo_tvc (demo_quorum 10)
      hf19_reward_batching = Some (True, demo_tvc)"
    by code_simp
  ultimately show ?thesis using verify_tx_state_change_iff by blast
qed

text \<open>The verification of a state change never reads outside its array of counters when the quorum has
  at most ten validators, and a rejected transaction is marked as bad, except for a height that misses
  the window by fewer than five blocks, which is reported as an invalid height only.\<close>

lemma state_change_rejection:
  assumes "length (validators q) \<le> STATE_CHANGE_QUORUM_SIZE"
  shows "\<exists>ok tvc'. verify_tx_state_change H chk sc latest tvc q version = Some (ok, tvc') \<and>
    (\<not> ok \<longrightarrow> m_verifivation_failed tvc' \<or>
       m_invalid_block_height (m_vote_ctx tvc') \<and> near_window (sc_height sc) latest)"
  using state_change_rejection_marked[OF assms] by (simp add: rejection_marked_def)

text \<open>C17. Any two checkpoints that verify against one quorum of at most twenty validators share at least six
  validators that signed both: two conflicting checkpoints need six equivocating validators.\<close>

theorem checkpoint_quorum_intersection:
  assumes "length (validators q) \<le> CHECKPOINT_QUORUM_SIZE"
    and "cp_type c1 = service_node" "cp_type c2 = service_node"
    and "verify_checkpoint chk v1 c1 q = Some True" "verify_checkpoint chk v2 c2 q = Some True"
  shows "6 \<le> card (signers chk q (cp_hash c1) (cp_signatures c1) \<inter> signers chk q (cp_hash c2) (cp_signatures c2))"
proof -
  have "CHECKPOINT_MIN_VOTES \<le> card (signers chk q (cp_hash c) (cp_signatures c))"
    if "cp_type c = service_node" "verify_checkpoint chk v c q = Some True" for c v
  proof -
    have "verify_quorum_signatures chk q checkpointing v (cp_hash c) (cp_signatures c) None = Some True"
      using that by (simp add: verify_checkpoint_def split: if_splits)
    then show ?thesis using verify_checkpointing_char[OF assms(1)] card_signers by fastforce
  qed
  with assms show ?thesis
    by (intro checkpoint_quorum.signers_overlap[OF signers_bounded signers_bounded]) blast+
qed

theorem checkpoint_quorum_intersection_witness:
  "6 \<le> card (signers demo_check (demo_quorum 20) (cp_hash (demo_checkpoint [1] 0)) (cp_signatures (demo_checkpoint [1] 0)) \<inter>
             signers demo_check (demo_quorum 20) (cp_hash (demo_checkpoint [2] 7)) (cp_signatures (demo_checkpoint [2] 7)))"
proof (rule checkpoint_quorum_intersection)
  show "length (validators (demo_quorum 20)) \<le> CHECKPOINT_QUORUM_SIZE"
    by (simp add: demo_quorum_def CHECKPOINT_QUORUM_SIZE_def)
  show "cp_type (demo_checkpoint [1] 0) = service_node" "cp_type (demo_checkpoint [2] 7) = service_node"
    by (simp_all add: demo_checkpoint_def make_empty_service_node_checkpoint_def)
  show "verify_checkpoint demo_check hf19_reward_batching (demo_checkpoint [1] 0) (demo_quorum 20) = Some True"
    by code_simp
  show "verify_checkpoint demo_check hf19_reward_batching (demo_checkpoint [2] 7) (demo_quorum 20) = Some True"
    by code_simp
qed

text \<open>C37. Any two blocks whose signatures verify against one pulse quorum of the required size share at
  least three validators, and only validators whose participation bit is set have signed.\<close>

theorem pulse_quorum_intersection:
  assumes "verify_pulse_quorum_sizes q"
    and "verify_quorum_signatures chk q pulse v1 h1 sigs1 (Some b1) = Some True"
    and "verify_quorum_signatures chk q pulse v2 h2 sigs2 (Some b2) = Some True"
  shows "3 \<le> card (signers chk q h1 sigs1 \<inter> signers chk q h2 sigs2) \<and>
    signers chk q h1 sigs1 \<subseteq> {i. bit (validator_bitset b1) i}"
proof
  have le: "length (validators q) \<le> PULSE_QUORUM_NUM_VALIDATORS"
    using assms(1) by (simp add: verify_pulse_quorum_sizes_def)
  have "card (signers chk q h1 sigs1) = PULSE_BLOCK_REQUIRED_SIGNATURES"
    "card (signers chk q h2 sigs2) = PULSE_BLOCK_REQUIRED_SIGNATURES"
    using assms(2,3) verify_pulse_char[OF le] card_signers by fastforce+
  then show "3 \<le> card (signers chk q h1 sigs1 \<inter> signers chk q h2 sigs2)"
    using le by (intro pulse_quorum.signers_overlap[OF signers_bounded signers_bounded]) simp_all
  show "signers chk q h1 sigs1 \<subseteq> {i. bit (validator_bitset b1) i}"
    using assms(2) verify_pulse_char[OF le] by (auto simp: signers_def)
qed

theorem pulse_quorum_intersection_witness:
  "3 \<le> card (signers demo_check (demo_quorum 11) [1] (demo_signatures [1] 0 7) \<inter>
             signers demo_check (demo_quorum 11) [2] (demo_signatures [2] 4 11)) \<and>
   signers demo_check (demo_quorum 11) [1] (demo_signatures [1] 0 7) \<subseteq> {i. bit (validator_bitset \<lparr>validator_bitset = 0x7F\<rparr>) i}"
proof (rule pulse_quorum_intersection)
  show "verify_pulse_quorum_sizes (demo_quorum 11)"
    by (simp add: verify_pulse_quorum_sizes_def demo_quorum_def PULSE_QUORUM_NUM_VALIDATORS_def)
  show "verify_quorum_signatures demo_check (demo_quorum 11) pulse hf19_reward_batching [1]
      (demo_signatures [1] 0 7) (Some \<lparr>validator_bitset = 0x7F\<rparr>) = Some True"
    by code_simp
  show "verify_quorum_signatures demo_check (demo_quorum 11) pulse hf19_reward_batching [2]
      (demo_signatures [2] 4 11) (Some \<lparr>validator_bitset = 0x7F0\<rparr>) = Some True"
    by code_simp
qed

text \<open>A state change vote and a checkpointing vote that a validator makes with its own keys pass the
  verification against every quorum that lists its public key at the index of the vote.\<close>

lemma made_votes_verify:
  assumes "\<forall>h. chk h (keys_pub keys) (gen h (keys_pub keys) (keys_key keys))"
    and "unat i < length (validators q)" "validators q ! unat i = keys_pub keys"
    and "unat w < length (workers q)"
  shows "verify_vote_signature H chk (make_state_change_vote H gen height i w state reason keys) vvc q = (True, vvc) \<and>
    verify_vote_signature H chk (make_checkpointing_vote H gen block_hash height i keys) vvc q = (True, vvc)"
  using assms unfolding verify_vote_signature_True
  by (simp add: make_state_change_vote_def make_checkpointing_vote_def Let_def vote_hash_def
      make_signature_from_vote_def quorum_type_num_def)

text \<open>Away from the end of the height range a vote is of acceptable age exactly when it is not newer than
  the chain and at most 60 blocks old; otherwise the height is reported, and the verification counts as
  failed exactly when the vote misses the window by more than five blocks.\<close>

lemma verify_vote_age_window:
  assumes "unat (vote_height vote) + VOTE_LIFETIME + VOTE_OR_TX_VERIFY_HEIGHT_BUFFER < 2 ^ 64"
    and "unat latest + VOTE_OR_TX_VERIFY_HEIGHT_BUFFER < 2 ^ 64"
  shows "(case verify_vote_age vote latest empty_vvc of (ok, vvc) \<Rightarrow>
    (ok \<longleftrightarrow> unat (vote_height vote) \<le> unat latest \<and> unat latest \<le> unat (vote_height vote) + VOTE_LIFETIME) \<and>
    m_invalid_block_height vvc = (\<not> ok) \<and>
    (m_verification_failed vvc \<longleftrightarrow>
       unat latest + VOTE_OR_TX_VERIFY_HEIGHT_BUFFER < unat (vote_height vote) \<or>
       unat (vote_height vote) + VOTE_LIFETIME + VOTE_OR_TX_VERIFY_HEIGHT_BUFFER < unat latest))"
proof -
  let ?h = "vote_height vote"
  have 1: "unat (?h + of_nat VOTE_LIFETIME) = unat ?h + VOTE_LIFETIME"
    using assms(1) by (intro u64_add_of_nat) simp
  have 2: "unat (?h + (of_nat VOTE_LIFETIME + of_nat VOTE_OR_TX_VERIFY_HEIGHT_BUFFER))
      = unat ?h + (VOTE_LIFETIME + VOTE_OR_TX_VERIFY_HEIGHT_BUFFER)"
    using assms(1) u64_add_of_nat[of ?h "VOTE_LIFETIME + VOTE_OR_TX_VERIFY_HEIGHT_BUFFER"] by (simp add: add.assoc)
  have 3: "unat (latest + of_nat VOTE_OR_TX_VERIFY_HEIGHT_BUFFER) = unat latest + VOTE_OR_TX_VERIFY_HEIGHT_BUFFER"
    using assms(2) by (rule u64_add_of_nat)
  show ?thesis
    unfolding verify_vote_age_def Let_def word_less_nat_alt word_le_nat_alt 1 2 3
    by (auto simp: empty_vvc_def)
qed

end
