(* ===== verification/Voting_Pool.thy ===== *)
theory Voting_Pool
  imports Voting
begin

text \<open>
  The pool of votes that a node collects, \<^verbatim>\<open>struct voting_pool\<close> of
  \<^verbatim>\<open>src/cryptonote_core/service_node_voting.h\<close> and \<^verbatim>\<open>.cpp\<close>.  The two pools are vectors of entries, one
  entry for each subject of a vote; the functions that the code writes as templates over the type of
  the entry take the subject of a vote and the height of a subject as arguments.  A pointer to the
  votes of an entry is the position of the entry.  The time is an argument, and so is the reading of
  a state change from the extra field of a transaction.

  The pool is an implementation of the contract \<^verbatim>\<open>vote_store\<close>, a finite map from the subject and the
  index of a voter to the first vote received.
\<close>

section \<open>Data\<close>

record pool_vote_entry =
  entry_vote :: quorum_vote_t
  time_last_sent_p2p :: u64

record obligations_key =
  ob_height :: u64
  ob_worker_index :: u32
  ob_state :: u16

record checkpoint_key =
  ck_height :: u64
  ck_hash :: bytes

record 'k pool_entry =
  entry_key :: 'k
  entry_votes :: "pool_vote_entry list"

record voting_pool =
  m_obligations_pool :: "obligations_key pool_entry list"
  m_checkpoint_pool :: "checkpoint_key pool_entry list"

definition empty_voting_pool :: voting_pool where
  "empty_voting_pool = \<lparr>m_obligations_pool = [], m_checkpoint_pool = []\<rparr>"

definition obligations_key_of :: "quorum_vote_t \<Rightarrow> obligations_key" where
  "obligations_key_of vote =
     \<lparr>ob_height = vote_height vote, ob_worker_index = ucast (worker_index (state_change vote)),
      ob_state = vote_state (state_change vote)\<rparr>"

definition obligations_key_of_tx :: "tx_extra_service_node_state_change \<Rightarrow> obligations_key" where
  "obligations_key_of_tx sc =
     \<lparr>ob_height = sc_height sc, ob_worker_index = service_node_index sc, ob_state = sc_state sc\<rparr>"

definition checkpoint_key_of :: "quorum_vote_t \<Rightarrow> checkpoint_key" where
  "checkpoint_key_of vote = \<lparr>ck_height = vote_height vote, ck_hash = checkpoint_hash vote\<rparr>"

text \<open>Of a transaction, the two fields that the pool reads.\<close>

record pool_tx =
  tx_type :: u16
  tx_extra :: bytes

definition txtype_state_change :: u16 where "txtype_state_change = 1"

section \<open>Operations\<close>

text \<open>\<^verbatim>\<open>std::find_if\<close>: the position of the first element that satisfies a predicate, or the length.\<close>

primrec find_pos :: "('a \<Rightarrow> bool) \<Rightarrow> 'a list \<Rightarrow> nat" where
  "find_pos P [] = 0"
| "find_pos P (x # xs) = (if P x then 0 else Suc (find_pos P xs))"

definition find_vote_in_pool ::
  "(quorum_vote_t \<Rightarrow> 'k) \<Rightarrow> 'k pool_entry list \<Rightarrow> quorum_vote_t \<Rightarrow> bool \<Rightarrow> nat option \<times> 'k pool_entry list" where
  "find_vote_in_pool key_of pool vote create =
     (let it = find_pos (\<lambda>e. entry_key e = key_of vote) pool in
      if it \<noteq> length pool then (Some it, pool)
      else if \<not> create then (None, pool)
      else (let pool' = pool @ [\<lparr>entry_key = key_of vote, entry_votes = []\<rparr>] in (Some (length pool' - 1), pool')))"

datatype vote_pool_ref = Obligations_ref nat | Checkpoint_ref nat

definition find_vote_pool ::
  "voting_pool \<Rightarrow> quorum_vote_t \<Rightarrow> bool \<Rightarrow> vote_pool_ref option \<times> voting_pool" where
  "find_vote_pool p vote create =
     (if vote_type vote = quorum_type_num obligations then
        (let (r, pool) = find_vote_in_pool obligations_key_of (m_obligations_pool p) vote create
         in (map_option Obligations_ref r, p\<lparr>m_obligations_pool := pool\<rparr>))
      else if vote_type vote = quorum_type_num checkpointing then
        (let (r, pool) = find_vote_in_pool checkpoint_key_of (m_checkpoint_pool p) vote create
         in (map_option Checkpoint_ref r, p\<lparr>m_checkpoint_pool := pool\<rparr>))
      else (None, p))"

text \<open>Reading and writing through the pointer.\<close>

fun deref_votes :: "voting_pool \<Rightarrow> vote_pool_ref \<Rightarrow> pool_vote_entry list" where
  "deref_votes p (Obligations_ref i) = entry_votes (m_obligations_pool p ! i)"
| "deref_votes p (Checkpoint_ref i) = entry_votes (m_checkpoint_pool p ! i)"

definition set_entry_votes :: "pool_vote_entry list \<Rightarrow> nat \<Rightarrow> 'k pool_entry list \<Rightarrow> 'k pool_entry list" where
  "set_entry_votes vs i pool = pool[i := (pool ! i)\<lparr>entry_votes := vs\<rparr>]"

fun assign_votes :: "voting_pool \<Rightarrow> vote_pool_ref \<Rightarrow> pool_vote_entry list \<Rightarrow> voting_pool" where
  "assign_votes p (Obligations_ref i) vs = p\<lparr>m_obligations_pool := set_entry_votes vs i (m_obligations_pool p)\<rparr>"
| "assign_votes p (Checkpoint_ref i) vs = p\<lparr>m_checkpoint_pool := set_entry_votes vs i (m_checkpoint_pool p)\<rparr>"

definition set_relayed_vote :: "u64 \<Rightarrow> quorum_vote_t \<Rightarrow> pool_vote_entry list \<Rightarrow> pool_vote_entry list" where
  "set_relayed_vote now vote votes =
     (let it = find_pos (\<lambda>e. index_in_group vote = index_in_group (entry_vote e)) votes in
      if it \<noteq> length votes then votes[it := (votes ! it)\<lparr>time_last_sent_p2p := now\<rparr>] else votes)"

primrec set_relayed :: "u64 \<Rightarrow> quorum_vote_t list \<Rightarrow> voting_pool \<Rightarrow> voting_pool" where
  "set_relayed now [] p = p"
| "set_relayed now (vote # votes) p =
     (case find_vote_pool p vote False of
        (None, p') \<Rightarrow> set_relayed now votes p'
      | (Some r, p') \<Rightarrow> set_relayed now votes (assign_votes p' r (set_relayed_vote now vote (deref_votes p' r))))"

definition append_relayable_votes ::
  "quorum_vote_t list \<Rightarrow> 'k pool_entry list \<Rightarrow> u64 \<Rightarrow> u64 \<Rightarrow> quorum_vote_t list" where
  "append_relayable_votes result pool max_last_sent min_height =
     result @ concat (map (\<lambda>e. map entry_vote
       (filter (\<lambda>ve. vote_height (entry_vote ve) \<ge> min_height \<and> time_last_sent_p2p ve \<le> max_last_sent)
          (entry_votes e))) pool)"

definition TIME_BETWEEN_RELAY :: u64 where "TIME_BETWEEN_RELAY = 60 * 2"

definition get_relayable_votes :: "u64 \<Rightarrow> voting_pool \<Rightarrow> u64 \<Rightarrow> hf \<Rightarrow> bool \<Rightarrow> quorum_vote_t list" where
  "get_relayable_votes now p height version quorum_relay =
     (let max_last_sent = now - TIME_BETWEEN_RELAY;
          min_height = (if height > of_nat VOTE_LIFETIME then height - of_nat VOTE_LIFETIME else 0)
      in
      if quorum_relay \<and> version < hf14_blink then []
      else
        (let result = (if version < hf14_blink \<or> quorum_relay
                       then append_relayable_votes [] (m_obligations_pool p) max_last_sent min_height else [])
         in if version < hf14_blink \<or> \<not> quorum_relay
            then append_relayable_votes result (m_checkpoint_pool p) max_last_sent min_height else result))"

text \<open>\<^verbatim>\<open>std::lower_bound\<close> on a sorted vector is the first position whose index is not smaller.\<close>

definition add_vote_to_pool_if_unique ::
  "pool_vote_entry list \<Rightarrow> quorum_vote_t \<Rightarrow> bool \<times> pool_vote_entry list" where
  "add_vote_to_pool_if_unique votes vote =
     (let it = find_pos (\<lambda>e. \<not> index_in_group (entry_vote e) < index_in_group vote) votes in
      if it = length votes \<or> index_in_group (entry_vote (votes ! it)) \<noteq> index_in_group vote
      then (True, take it votes @ \<lparr>entry_vote = vote, time_last_sent_p2p = 0\<rparr> # drop it votes)
      else (False, votes))"

definition add_pool_vote_if_unique ::
  "quorum_vote_t \<Rightarrow> vote_verification_context \<Rightarrow> voting_pool
   \<Rightarrow> pool_vote_entry list \<times> vote_verification_context \<times> voting_pool" where
  "add_pool_vote_if_unique vote vvc p =
     (case find_vote_pool p vote True of
        (None, p') \<Rightarrow> ([], vvc, p')
      | (Some r, p') \<Rightarrow>
          (let (added, votes) = add_vote_to_pool_if_unique (deref_votes p' r) vote
           in (votes, vvc\<lparr>m_added_to_pool := added\<rparr>, assign_votes p' r votes)))"

primrec remove_used_loop ::
  "(bytes \<Rightarrow> hf \<Rightarrow> tx_extra_service_node_state_change option) \<Rightarrow> hf \<Rightarrow> pool_tx list
   \<Rightarrow> obligations_key pool_entry list \<Rightarrow> obligations_key pool_entry list" where
  "remove_used_loop get_state_change version [] pool = pool"
| "remove_used_loop get_state_change version (tx # txs) pool =
     (if tx_type tx \<noteq> txtype_state_change then remove_used_loop get_state_change version txs pool
      else case get_state_change (tx_extra tx) version of
        None \<Rightarrow> remove_used_loop get_state_change version txs pool
      | Some sc \<Rightarrow>
          (let it = find_pos (\<lambda>e. entry_key e = obligations_key_of_tx sc) pool in
           remove_used_loop get_state_change version txs
             (if it \<noteq> length pool then take it pool @ drop (Suc it) pool else pool)))"

definition remove_used_votes ::
  "(bytes \<Rightarrow> hf \<Rightarrow> tx_extra_service_node_state_change option) \<Rightarrow> pool_tx list \<Rightarrow> hf \<Rightarrow> voting_pool \<Rightarrow> voting_pool" where
  "remove_used_votes get_state_change txs version p =
     (if m_obligations_pool p = [] then p
      else p\<lparr>m_obligations_pool := remove_used_loop get_state_change version txs (m_obligations_pool p)\<rparr>)"

primrec cull_votes :: "('k \<Rightarrow> u64) \<Rightarrow> 'k pool_entry list \<Rightarrow> u64 \<Rightarrow> u64 \<Rightarrow> 'k pool_entry list" where
  "cull_votes height_of [] min_height max_height = []"
| "cull_votes height_of (e # pool) min_height max_height =
     (if height_of (entry_key e) < min_height \<or> height_of (entry_key e) > max_height
      then cull_votes height_of pool min_height max_height
      else e # cull_votes height_of pool min_height max_height)"

definition remove_expired_votes :: "u64 \<Rightarrow> voting_pool \<Rightarrow> voting_pool" where
  "remove_expired_votes height p =
     (let min_height = (if height < of_nat VOTE_LIFETIME then 0 else height - of_nat VOTE_LIFETIME) in
      p\<lparr>m_obligations_pool := cull_votes ob_height (m_obligations_pool p) min_height height,
        m_checkpoint_pool := cull_votes ck_height (m_checkpoint_pool p) min_height height\<rparr>)"

definition received_checkpoint_vote :: "voting_pool \<Rightarrow> u64 \<Rightarrow> nat \<Rightarrow> bool" where
  "received_checkpoint_vote p height index_in_quorum =
     (let it = find_pos (\<lambda>e. ck_height (entry_key e) = height) (m_checkpoint_pool p) in
      if it = length (m_checkpoint_pool p) then False
      else list_ex (\<lambda>ve. unat (index_in_group (entry_vote ve)) = index_in_quorum)
             (entry_votes (m_checkpoint_pool p ! it)))"

section \<open>Lists searched by position\<close>

lemma find_pos_le: "find_pos P xs \<le> length xs"
  by (induction xs) auto

lemma find_pos_length: "find_pos P xs = length xs \<longleftrightarrow> (\<forall>x\<in>set xs. \<not> P x)"
  by (induction xs) auto

lemma find_pos_nth: "find_pos P xs < length xs \<Longrightarrow> P (xs ! find_pos P xs)"
  by (induction xs) (auto split: if_splits)

lemma find_pos_before: "x \<in> set (take (find_pos P xs) xs) \<Longrightarrow> \<not> P x"
  by (induction xs) (auto split: if_splits)

text \<open>Insertion at the position that \<^verbatim>\<open>lower_bound\<close> finds in a strictly ascending list.\<close>

lemma lower_bound_split:
  fixes f :: "'a \<Rightarrow> 'b::linorder"
  assumes "sorted_wrt (<) (map f xs)" "it = find_pos (\<lambda>x. \<not> f x < i) xs"
  shows "\<forall>x\<in>set (take it xs). f x < i" "\<forall>x\<in>set (drop it xs). i \<le> f x"
proof -
  show "\<forall>x\<in>set (take it xs). f x < i" using assms(2) find_pos_before by fastforce
  show "\<forall>x\<in>set (drop it xs). i \<le> f x"
  proof (cases "it < length xs")
    case True
    then have d: "drop it xs = xs ! it # drop (Suc it) xs" by (simp add: Cons_nth_drop_Suc)
    have le: "i \<le> f (xs ! it)" using find_pos_nth True assms(2) by (metis not_less)
    have "sorted_wrt (<) (map f (take it xs) @ map f (drop it xs))"
      using assms(1) by (simp flip: map_append)
    then have "\<forall>x\<in>set (drop (Suc it) xs). f (xs ! it) < f x" unfolding sorted_wrt_append d by auto
    then show ?thesis unfolding d using le by auto
  qed simp
qed

lemma lower_bound_found:
  fixes f :: "'a \<Rightarrow> 'b::linorder"
  assumes "sorted_wrt (<) (map f xs)" "it = find_pos (\<lambda>x. \<not> f x < i) xs"
  shows "(\<exists>x\<in>set xs. f x = i) \<longleftrightarrow> it \<noteq> length xs \<and> f (xs ! it) = i" (is "?L \<longleftrightarrow> ?R")
proof
  note split = lower_bound_split[OF assms]
  assume ?L
  then obtain x where x: "x \<in> set xs" "f x = i" by blast
  have "x \<in> set (take it xs) \<or> x \<in> set (drop it xs)"
    using x(1) by (metis Un_iff append_take_drop_id set_append)
  then have xd: "x \<in> set (drop it xs)" using split(1) x(2) by auto
  then have lt: "it < length xs" by (cases "it < length xs") auto
  then have d: "drop it xs = xs ! it # drop (Suc it) xs" by (simp add: Cons_nth_drop_Suc)
  have "sorted_wrt (<) (map f (take it xs) @ map f (drop it xs))"
    using assms(1) by (simp flip: map_append)
  then have "f (xs ! it) \<le> f x" using xd unfolding sorted_wrt_append d by auto
  moreover have "i \<le> f (xs ! it)" using split(2) unfolding d by simp
  ultimately show ?R using x(2) lt by simp
next
  assume ?R
  then show ?L using find_pos_le[of "\<lambda>x. \<not> f x < i" xs] assms(2) by (metis le_neq_implies_less nth_mem)
qed

lemma lower_bound_insert:
  fixes f :: "'a \<Rightarrow> 'b::linorder"
  assumes "sorted_wrt (<) (map f xs)" "it = find_pos (\<lambda>x. \<not> f x < f y) xs" "\<forall>x\<in>set xs. f x \<noteq> f y"
  shows "sorted_wrt (<) (map f (take it xs @ y # drop it xs))"
proof -
  note split = lower_bound_split[OF assms(1,2)]
  have "\<forall>x\<in>set (drop it xs). f y < f x"
    using split(2) assms(3) in_set_dropD by (metis le_neq_trans)
  moreover have "sorted_wrt (<) (map f (take it xs) @ map f (drop it xs))"
    using assms(1) by (simp flip: map_append)
  ultimately show ?thesis using split(1) by (auto simp: sorted_wrt_append)
qed

section \<open>The votes of one subject\<close>

abbreviation vote_index :: "pool_vote_entry \<Rightarrow> u16" where
  "vote_index ve \<equiv> index_in_group (entry_vote ve)"

definition lookup_vote :: "pool_vote_entry list \<Rightarrow> u16 \<Rightarrow> pool_vote_entry option" where
  "lookup_vote vs = map_of (map (\<lambda>v. (vote_index v, v)) vs)"

lemma lookup_vote_Nil [simp]: "lookup_vote [] = Map.empty"
  by (simp add: lookup_vote_def)

lemma lookup_vote_Cons [simp]: "lookup_vote (v # vs) = (lookup_vote vs)(vote_index v \<mapsto> v)"
  by (simp add: lookup_vote_def)

lemma lookup_vote_append: "lookup_vote (us @ vs) = lookup_vote vs ++ lookup_vote us"
  by (simp add: lookup_vote_def)

lemma lookup_vote_None: "lookup_vote vs i = None \<longleftrightarrow> (\<forall>v\<in>set vs. vote_index v \<noteq> i)"
  by (induction vs) auto

lemma lookup_vote_index: "lookup_vote vs i = Some v \<Longrightarrow> vote_index v = i \<and> v \<in> set vs"
  by (induction vs) (auto split: if_splits)

definition sorted_votes :: "pool_vote_entry list \<Rightarrow> bool" where
  "sorted_votes vs \<longleftrightarrow> sorted_wrt (<) (map vote_index vs)"

lemma sorted_votes_append:
  "sorted_votes (us @ vs) \<longleftrightarrow> sorted_votes us \<and> sorted_votes vs \<and> (\<forall>u\<in>set us. \<forall>v\<in>set vs. vote_index u < vote_index v)"
  by (auto simp: sorted_votes_def sorted_wrt_append)

lemma sorted_votes_Cons:
  "sorted_votes (v # vs) \<longleftrightarrow> (\<forall>w\<in>set vs. vote_index v < vote_index w) \<and> sorted_votes vs"
  by (simp add: sorted_votes_def)

lemma add_vote_added:
  assumes "sorted_votes vs"
  shows "fst (add_vote_to_pool_if_unique vs vote) \<longleftrightarrow> lookup_vote vs (index_in_group vote) = None"
  using lower_bound_found[OF assms[unfolded sorted_votes_def] refl, of "index_in_group vote"]
  unfolding lookup_vote_None add_vote_to_pool_if_unique_def Let_def by auto

lemma add_vote_sorted:
  assumes "sorted_votes vs"
  shows "sorted_votes (snd (add_vote_to_pool_if_unique vs vote))"
proof (cases "fst (add_vote_to_pool_if_unique vs vote)")
  case True
  let ?e = "\<lparr>entry_vote = vote, time_last_sent_p2p = 0\<rparr>"
  have "\<forall>v\<in>set vs. vote_index v \<noteq> vote_index ?e"
    using True add_vote_added[OF assms] by (simp add: lookup_vote_None)
  from lower_bound_insert[OF assms[unfolded sorted_votes_def] refl this] show ?thesis
    using True unfolding sorted_votes_def by (auto simp: add_vote_to_pool_if_unique_def Let_def split: if_splits)
next
  case False
  then show ?thesis using assms by (auto simp: add_vote_to_pool_if_unique_def Let_def split: if_splits)
qed

lemma add_vote_lookup:
  assumes "sorted_votes vs"
  shows "lookup_vote (snd (add_vote_to_pool_if_unique vs vote)) =
    (if lookup_vote vs (index_in_group vote) = None
     then (lookup_vote vs)(index_in_group vote \<mapsto> \<lparr>entry_vote = vote, time_last_sent_p2p = 0\<rparr>)
     else lookup_vote vs)"
proof (cases "lookup_vote vs (index_in_group vote) = None")
  case True
  define it where "it = find_pos (\<lambda>e. \<not> vote_index e < index_in_group vote) vs"
  have "fst (add_vote_to_pool_if_unique vs vote)" using True add_vote_added[OF assms] by simp
  then have eq: "snd (add_vote_to_pool_if_unique vs vote)
      = take it vs @ \<lparr>entry_vote = vote, time_last_sent_p2p = 0\<rparr> # drop it vs"
    unfolding add_vote_to_pool_if_unique_def Let_def it_def[symmetric] by (auto split: if_splits)
  have no: "index_in_group vote \<notin> dom (lookup_vote (take it vs))"
    using True unfolding domIff lookup_vote_None by (auto dest: in_set_takeD)
  have vs: "lookup_vote vs = lookup_vote (drop it vs) ++ lookup_vote (take it vs)"
    using lookup_vote_append[of "take it vs" "drop it vs"] by simp
  show ?thesis unfolding eq lookup_vote_append lookup_vote_Cons using True map_add_upd_left[OF no]
    by (simp add: vs)
next
  case False
  then have "\<not> fst (add_vote_to_pool_if_unique vs vote)" using add_vote_added[OF assms] by simp
  then show ?thesis using False by (auto simp: add_vote_to_pool_if_unique_def Let_def split: if_splits)
qed

lemma set_relayed_vote_Nil: "set_relayed_vote now vote [] = []"
  by (simp add: set_relayed_vote_def)

lemma set_relayed_vote_Cons:
  "set_relayed_vote now vote (v # vs) =
     (if index_in_group vote = vote_index v then v\<lparr>time_last_sent_p2p := now\<rparr> # vs
      else v # set_relayed_vote now vote vs)"
  by (simp add: set_relayed_vote_def Let_def)

lemmas set_relayed_vote_simps = set_relayed_vote_Nil set_relayed_vote_Cons

lemma set_relayed_vote_index: "map vote_index (set_relayed_vote now vote vs) = map vote_index vs"
  by (induction vs) (simp_all add: set_relayed_vote_simps)

lemma set_relayed_vote_votes: "map entry_vote (set_relayed_vote now vote vs) = map entry_vote vs"
  by (induction vs) (simp_all add: set_relayed_vote_simps)

lemma set_relayed_vote_lookup:
  "lookup_vote (set_relayed_vote now vote vs) i =
      (if i = index_in_group vote then map_option (\<lambda>e. e\<lparr>time_last_sent_p2p := now\<rparr>) (lookup_vote vs i)
       else lookup_vote vs i)"
  by (induction vs) (auto simp: set_relayed_vote_simps)

section \<open>One pool\<close>

text \<open>The votes stored for a subject.\<close>

primrec votes_of :: "'k pool_entry list \<Rightarrow> 'k \<Rightarrow> pool_vote_entry list" where
  "votes_of [] k = []"
| "votes_of (e # pool) k = (if entry_key e = k then entry_votes e else votes_of pool k)"

lemma votes_of_absent: "k \<notin> entry_key ` set pool \<Longrightarrow> votes_of pool k = []"
  by (induction pool) auto

lemma votes_of_mem: "v \<in> set (votes_of pool k) \<Longrightarrow> \<exists>e\<in>set pool. entry_key e = k \<and> entry_votes e = votes_of pool k"
  by (induction pool) (auto split: if_splits)

lemma votes_of_entry:
  "distinct (map entry_key pool) \<Longrightarrow> e \<in> set pool \<Longrightarrow> votes_of pool (entry_key e) = entry_votes e"
  by (induction pool) auto

lemma votes_of_append: "k \<notin> entry_key ` set pool \<Longrightarrow> votes_of (pool @ pool') k = votes_of pool' k"
  by (induction pool) auto

lemma votes_of_snoc_empty: "entry_votes e = [] \<Longrightarrow> votes_of (pool @ [e]) k = votes_of pool k"
  by (induction pool) auto

lemma find_key_split:
  assumes "find_pos (\<lambda>e. entry_key e = k) pool \<noteq> length pool"
  obtains e where "pool = take (find_pos (\<lambda>e. entry_key e = k) pool) pool @ e # drop (Suc (find_pos (\<lambda>e. entry_key e = k) pool)) pool"
    "entry_key e = k" "pool ! find_pos (\<lambda>e. entry_key e = k) pool = e" "find_pos (\<lambda>e. entry_key e = k) pool < length pool"
proof -
  let ?i = "find_pos (\<lambda>e. entry_key e = k) pool"
  have lt: "?i < length pool" using assms find_pos_le[of "\<lambda>e. entry_key e = k" pool] by linarith
  have "entry_key (pool ! ?i) = k" using find_pos_nth[OF lt] .
  then show thesis using id_take_nth_drop[OF lt] lt that by blast
qed

lemma votes_of_update:
  assumes "i < length pool" "distinct (map entry_key pool)"
  shows "votes_of (set_entry_votes vs i pool) k = (if k = entry_key (pool ! i) then vs else votes_of pool k)"
  using assms
proof (induction pool arbitrary: i)
  case (Cons e pool)
  show ?case
  proof (cases i)
    case 0
    then show ?thesis by (simp add: set_entry_votes_def)
  next
    case (Suc j)
    then have "votes_of (set_entry_votes vs j pool) k = (if k = entry_key (pool ! j) then vs else votes_of pool k)"
      using Cons by simp
    moreover have "entry_key e \<noteq> entry_key (pool ! j)" using Cons.prems Suc by auto
    ultimately show ?thesis using Suc by (auto simp: set_entry_votes_def)
  qed
qed simp

lemma keys_update: "i < length pool \<Longrightarrow> map entry_key (set_entry_votes vs i pool) = map entry_key pool"
  by (auto simp: set_entry_votes_def map_update list_update_same_conv)

lemma votes_of_erase:
  assumes "distinct (map entry_key (pool1 @ e # pool2))"
  shows "votes_of (pool1 @ pool2) k = (if k = entry_key e then [] else votes_of (pool1 @ e # pool2) k)"
  using assms
proof (induction pool1)
  case Nil
  then show ?case by (auto simp: votes_of_absent)
next
  case (Cons a pool1)
  then show ?case by auto
qed

lemma cull_votes_filter:
  "cull_votes height_of pool lo hi = filter (\<lambda>e. lo \<le> height_of (entry_key e) \<and> height_of (entry_key e) \<le> hi) pool"
  by (induction pool) auto

lemma votes_of_cull:
  "votes_of (cull_votes height_of pool lo hi) k = (if lo \<le> height_of k \<and> height_of k \<le> hi then votes_of pool k else [])"
  by (induction pool) auto

text \<open>The invariant of one pool: the subjects are distinct, and the votes of a subject are about it, of
  the pool's type, and strictly ascending by the index of the voter.\<close>

definition votes_ok :: "(quorum_vote_t \<Rightarrow> 'k) \<Rightarrow> quorum_type \<Rightarrow> 'k \<Rightarrow> pool_vote_entry list \<Rightarrow> bool" where
  "votes_ok key_of type k vs \<longleftrightarrow>
     sorted_votes vs \<and> (\<forall>v\<in>set vs. key_of (entry_vote v) = k \<and> vote_type (entry_vote v) = quorum_type_num type)"

definition subpool_ok :: "(quorum_vote_t \<Rightarrow> 'k) \<Rightarrow> quorum_type \<Rightarrow> 'k pool_entry list \<Rightarrow> bool" where
  "subpool_ok key_of type pool \<longleftrightarrow>
     distinct (map entry_key pool) \<and> (\<forall>e\<in>set pool. votes_ok key_of type (entry_key e) (entry_votes e))"

lemma subpool_okD:
  assumes "subpool_ok key_of type pool"
  shows "distinct (map entry_key pool)" "votes_ok key_of type k (votes_of pool k)"
proof -
  show "distinct (map entry_key pool)" using assms by (simp add: subpool_ok_def)
  show "votes_ok key_of type k (votes_of pool k)"
  proof (cases "k \<in> entry_key ` set pool")
    case True
    then show ?thesis using assms votes_of_entry by (fastforce simp: subpool_ok_def)
  next
    case False
    then show ?thesis by (simp add: votes_of_absent votes_ok_def sorted_votes_def)
  qed
qed

lemma subpool_ok_update:
  assumes "subpool_ok key_of type pool" "i < length pool" "votes_ok key_of type (entry_key (pool ! i)) vs"
  shows "subpool_ok key_of type (set_entry_votes vs i pool)"
proof -
  have "votes_ok key_of type (entry_key e) (entry_votes e)" if e: "e \<in> set (set_entry_votes vs i pool)" for e
  proof -
    have "e \<in> insert ((pool ! i)\<lparr>entry_votes := vs\<rparr>) (set pool)"
      using subsetD[OF set_update_subset_insert e[unfolded set_entry_votes_def]] .
    then consider "e = (pool ! i)\<lparr>entry_votes := vs\<rparr>" | "e \<in> set pool"
      by blast
    then show ?thesis using assms by cases (auto simp: subpool_ok_def)
  qed
  then show ?thesis using assms(1,2) keys_update unfolding subpool_ok_def by metis
qed

lemma find_vote_in_pool_spec:
  assumes "subpool_ok key_of type pool" "find_vote_in_pool key_of pool vote create = (r, pool')"
  shows "subpool_ok key_of type pool'" "votes_of pool' k = votes_of pool k"
    "r = Some i \<Longrightarrow> i < length pool' \<and> entry_key (pool' ! i) = key_of vote"
    "r = None \<longleftrightarrow> \<not> create \<and> key_of vote \<notin> entry_key ` set pool"
proof -
  define it where "it = find_pos (\<lambda>e. entry_key e = key_of vote) pool"
  have eq: "(r, pool') = (if it \<noteq> length pool then (Some it, pool) else if \<not> create then (None, pool)
      else (Some (length pool), pool @ [\<lparr>entry_key = key_of vote, entry_votes = []\<rparr>]))"
    unfolding assms(2)[symmetric] find_vote_in_pool_def it_def Let_def by simp
  have absent: "it = length pool \<longleftrightarrow> key_of vote \<notin> entry_key ` set pool"
    unfolding it_def find_pos_length by (auto simp: image_iff)
  show "subpool_ok key_of type pool'" "votes_of pool' k = votes_of pool k"
    using eq assms(1) absent
    by (auto simp: subpool_ok_def votes_ok_def sorted_votes_def votes_of_snoc_empty split: if_splits)
  show "r = None \<longleftrightarrow> \<not> create \<and> key_of vote \<notin> entry_key ` set pool"
    using eq absent by (auto split: if_splits)
  show "i < length pool' \<and> entry_key (pool' ! i) = key_of vote" if "r = Some i"
  proof (cases "it = length pool")
    case True
    then show ?thesis using eq that by (auto split: if_splits)
  next
    case False
    then have lt: "it < length pool" using find_pos_le[of "\<lambda>e. entry_key e = key_of vote" pool] unfolding it_def by linarith
    moreover have "entry_key (pool ! it) = key_of vote" using find_pos_nth lt unfolding it_def by blast
    ultimately show ?thesis using eq that False by simp
  qed
qed

section \<open>The contract of a store of votes\<close>

datatype vote_id = Obligation_id obligations_key u16 | Checkpoint_id checkpoint_key u16

definition vote_id_of :: "quorum_vote_t \<Rightarrow> vote_id option" where
  "vote_id_of vote =
     (if vote_type vote = quorum_type_num obligations
      then Some (Obligation_id (obligations_key_of vote) (index_in_group vote))
      else if vote_type vote = quorum_type_num checkpointing
      then Some (Checkpoint_id (checkpoint_key_of vote) (index_in_group vote))
      else None)"

fun id_height :: "vote_id \<Rightarrow> u64" where
  "id_height (Obligation_id k i) = ob_height k"
| "id_height (Checkpoint_id k i) = ck_height k"

datatype pool_op = Add_vote quorum_vote_t | Set_relayed u64 "quorum_vote_t list"
  | Remove_expired u64 | Remove_used hf "pool_tx list"

definition in_vote_window :: "u64 \<Rightarrow> u64 \<Rightarrow> bool" where
  "in_vote_window height h \<longleftrightarrow>
     (if height < of_nat VOTE_LIFETIME then 0 else height - of_nat VOTE_LIFETIME) \<le> h \<and> h \<le> height"

text \<open>The subjects of the state changes in a list of transactions.\<close>

definition used_keys ::
  "(bytes \<Rightarrow> hf \<Rightarrow> tx_extra_service_node_state_change option) \<Rightarrow> hf \<Rightarrow> pool_tx list \<Rightarrow> obligations_key set" where
  "used_keys get version txs =
     {obligations_key_of_tx sc | sc tx. tx \<in> set txs \<and> tx_type tx = txtype_state_change \<and> get (tx_extra tx) version = Some sc}"

text \<open>What an operation does to the map of the stored votes.\<close>

fun vote_map_step ::
  "(bytes \<Rightarrow> hf \<Rightarrow> tx_extra_service_node_state_change option) \<Rightarrow> pool_op
   \<Rightarrow> (vote_id \<Rightarrow> pool_vote_entry option) \<Rightarrow> vote_id \<Rightarrow> pool_vote_entry option" where
  "vote_map_step get (Add_vote v) m i =
     (if vote_id_of v = Some i \<and> m i = None then Some \<lparr>entry_vote = v, time_last_sent_p2p = 0\<rparr> else m i)"
| "vote_map_step get (Set_relayed now votes) m i =
     (if Some i \<in> vote_id_of ` set votes then map_option (\<lambda>e. e\<lparr>time_last_sent_p2p := now\<rparr>) (m i) else m i)"
| "vote_map_step get (Remove_expired height) m i = (if in_vote_window height (id_height i) then m i else None)"
| "vote_map_step get (Remove_used version txs) m i =
     (case i of Obligation_id k j \<Rightarrow> if k \<in> used_keys get version txs then None else m i | _ \<Rightarrow> m i)"

fun removes :: "(bytes \<Rightarrow> hf \<Rightarrow> tx_extra_service_node_state_change option) \<Rightarrow> pool_op \<Rightarrow> vote_id \<Rightarrow> bool" where
  "removes get (Remove_expired height) i \<longleftrightarrow> \<not> in_vote_window height (id_height i)"
| "removes get (Remove_used version txs) (Obligation_id k j) \<longleftrightarrow> k \<in> used_keys get version txs"
| "removes get op i \<longleftrightarrow> False"

locale vote_store =
  fixes get :: "bytes \<Rightarrow> hf \<Rightarrow> tx_extra_service_node_state_change option"
    and ok :: "'s \<Rightarrow> bool"
    and lookup :: "'s \<Rightarrow> vote_id \<Rightarrow> pool_vote_entry option"
    and step :: "pool_op \<Rightarrow> 's \<Rightarrow> 's"
    and init :: 's
  assumes init_ok: "ok init" and init_lookup: "lookup init = Map.empty"
    and step_ok: "ok s \<Longrightarrow> ok (step op s)"
    and step_lookup: "ok s \<Longrightarrow> lookup (step op s) = vote_map_step get op (lookup s)"
begin

lemma run_ok: "ok s \<Longrightarrow> ok (fold step ops s)"
  by (induction ops arbitrary: s) (simp_all add: step_ok)

lemma run_lookup: "ok s \<Longrightarrow> lookup (fold step ops s) = fold (vote_map_step get) ops (lookup s)"
  by (induction ops arbitrary: s) (simp_all add: step_ok step_lookup)

text \<open>The vote stored for an identity is never exchanged for another one.\<close>

lemma step_keeps:
  assumes "ok s" "lookup s i = Some e" "\<not> removes get op i"
  shows "\<exists>e'. lookup (step op s) i = Some e' \<and> entry_vote e' = entry_vote e"
  using assms unfolding step_lookup[OF assms(1)] by (cases "(get, op, i)" rule: removes.cases) auto

lemma run_keeps:
  assumes "ok s" "lookup s i = Some e" "\<forall>op\<in>set ops. \<not> removes get op i"
  shows "\<exists>e'. lookup (fold step ops s) i = Some e' \<and> entry_vote e' = entry_vote e"
  using assms
proof (induction ops arbitrary: s e)
  case (Cons op ops)
  then obtain e1 where e1: "lookup (step op s) i = Some e1" "entry_vote e1 = entry_vote e"
    using step_keeps by (metis list.set_intros(1))
  then show ?case using Cons.IH[OF step_ok[OF Cons.prems(1)] e1(1)] Cons.prems(3) by auto
qed simp

text \<open>The first vote of a voter on a subject stays until the subject expires or is used.\<close>

lemma first_vote_stays:
  assumes "ok s" "vote_id_of v = Some i" "lookup s i = None" "\<forall>op\<in>set ops. \<not> removes get op i"
  shows "\<exists>e. lookup (fold step (Add_vote v # ops) s) i = Some e \<and> entry_vote e = v"
proof -
  have "lookup (step (Add_vote v) s) i = Some \<lparr>entry_vote = v, time_last_sent_p2p = 0\<rparr>"
    using assms by (simp add: step_lookup)
  then show ?thesis using run_keeps[OF step_ok[OF assms(1)] _ assms(4)] by fastforce
qed

end

section \<open>The voting pool is such a store\<close>

definition pool_step ::
  "(bytes \<Rightarrow> hf \<Rightarrow> tx_extra_service_node_state_change option) \<Rightarrow> pool_op \<Rightarrow> voting_pool \<Rightarrow> voting_pool" where
  "pool_step get op p =
     (case op of
        Add_vote v \<Rightarrow> snd (snd (add_pool_vote_if_unique v empty_vvc p))
      | Set_relayed now votes \<Rightarrow> set_relayed now votes p
      | Remove_expired height \<Rightarrow> remove_expired_votes height p
      | Remove_used version txs \<Rightarrow> remove_used_votes get txs version p)"

definition pool_ok :: "voting_pool \<Rightarrow> bool" where
  "pool_ok p \<longleftrightarrow>
     subpool_ok obligations_key_of obligations (m_obligations_pool p) \<and>
     subpool_ok checkpoint_key_of checkpointing (m_checkpoint_pool p)"

fun pool_votes :: "voting_pool \<Rightarrow> vote_id \<Rightarrow> pool_vote_entry list" where
  "pool_votes p (Obligation_id k i) = votes_of (m_obligations_pool p) k"
| "pool_votes p (Checkpoint_id k i) = votes_of (m_checkpoint_pool p) k"

fun id_index :: "vote_id \<Rightarrow> u16" where
  "id_index (Obligation_id k i) = i"
| "id_index (Checkpoint_id k i) = i"

definition pool_lookup :: "voting_pool \<Rightarrow> vote_id \<Rightarrow> pool_vote_entry option" where
  "pool_lookup p i = lookup_vote (pool_votes p i) (id_index i)"

definition same_subject :: "vote_id \<Rightarrow> vote_id \<Rightarrow> bool" where
  "same_subject i j \<longleftrightarrow> (\<exists>k a b. i = Obligation_id k a \<and> j = Obligation_id k b) \<or> (\<exists>k a b. i = Checkpoint_id k a \<and> j = Checkpoint_id k b)"

definition votes_about :: "vote_id \<Rightarrow> pool_vote_entry list \<Rightarrow> bool" where
  "votes_about i vs \<longleftrightarrow>
     sorted_votes vs \<and> (\<forall>e\<in>set vs. \<exists>j. vote_id_of (entry_vote e) = Some j \<and> same_subject i j)"

lemma votes_about_ok [simp]:
  "votes_about (Obligation_id k a) vs \<longleftrightarrow> votes_ok obligations_key_of obligations k vs"
  "votes_about (Checkpoint_id c a) vs \<longleftrightarrow> votes_ok checkpoint_key_of checkpointing c vs"
  unfolding votes_about_def votes_ok_def
  by (auto simp: vote_id_of_def same_subject_def quorum_type_num_def split: if_splits)

lemma same_subject_simps [simp]:
  "same_subject (Obligation_id k a) (Obligation_id k' b) \<longleftrightarrow> k = k'"
  "same_subject (Checkpoint_id c a) (Checkpoint_id c' b) \<longleftrightarrow> c = c'"
  "\<not> same_subject (Obligation_id k a) (Checkpoint_id c b)" "\<not> same_subject (Checkpoint_id c a) (Obligation_id k b)"
  by (auto simp: same_subject_def)

lemma pool_ok_votes: "pool_ok p \<Longrightarrow> votes_about i (pool_votes p i)"
  by (cases i) (simp_all add: pool_ok_def subpool_okD(2))

text \<open>Finding the votes of a subject, changing them, and writing them back.\<close>

definition points_to :: "vote_pool_ref \<Rightarrow> voting_pool \<Rightarrow> vote_id \<Rightarrow> bool" where
  "points_to r p i \<longleftrightarrow>
     (case (r, i) of
        (Obligations_ref n, Obligation_id k a) \<Rightarrow> n < length (m_obligations_pool p) \<and> entry_key (m_obligations_pool p ! n) = k
      | (Checkpoint_ref n, Checkpoint_id k a) \<Rightarrow> n < length (m_checkpoint_pool p) \<and> entry_key (m_checkpoint_pool p ! n) = k
      | _ \<Rightarrow> False)"

lemma points_to_votes:
  assumes "pool_ok p" "points_to r p i"
  shows "deref_votes p r = pool_votes p i"
proof (cases i)
  case (Obligation_id k a)
  then obtain n where "r = Obligations_ref n" "n < length (m_obligations_pool p)" "entry_key (m_obligations_pool p ! n) = k"
    using assms(2) by (cases r) (auto simp: points_to_def)
  then show ?thesis using assms(1) Obligation_id votes_of_entry[of "m_obligations_pool p" "m_obligations_pool p ! n"]
    by (auto simp: pool_ok_def subpool_ok_def)
next
  case (Checkpoint_id k a)
  then obtain n where "r = Checkpoint_ref n" "n < length (m_checkpoint_pool p)" "entry_key (m_checkpoint_pool p ! n) = k"
    using assms(2) by (cases r) (auto simp: points_to_def)
  then show ?thesis using assms(1) Checkpoint_id votes_of_entry[of "m_checkpoint_pool p" "m_checkpoint_pool p ! n"]
    by (auto simp: pool_ok_def subpool_ok_def)
qed

lemma assign_votes_spec:
  assumes "pool_ok p" "points_to r p i" "votes_about i vs"
  shows "pool_ok (assign_votes p r vs)"
    "pool_votes (assign_votes p r vs) j = (if same_subject i j then vs else pool_votes p j)"
proof -
  have "pool_ok (assign_votes p r vs) \<and>
    pool_votes (assign_votes p r vs) j = (if same_subject i j then vs else pool_votes p j)"
  proof (cases i)
    case (Obligation_id k a)
    then obtain n where n: "r = Obligations_ref n" "n < length (m_obligations_pool p)" "entry_key (m_obligations_pool p ! n) = k"
      using assms(2) by (cases r) (auto simp: points_to_def)
    then show ?thesis using assms(1,3) Obligation_id subpool_ok_update[of _ _ "m_obligations_pool p" n vs]
        votes_of_update[of n "m_obligations_pool p"] subpool_okD(1)
      by (cases j) (auto simp: pool_ok_def subpool_ok_def)
  next
    case (Checkpoint_id k a)
    then obtain n where n: "r = Checkpoint_ref n" "n < length (m_checkpoint_pool p)" "entry_key (m_checkpoint_pool p ! n) = k"
      using assms(2) by (cases r) (auto simp: points_to_def)
    then show ?thesis using assms(1,3) Checkpoint_id subpool_ok_update[of _ _ "m_checkpoint_pool p" n vs]
        votes_of_update[of n "m_checkpoint_pool p"] subpool_okD(1)
      by (cases j) (auto simp: pool_ok_def subpool_ok_def)
  qed
  then show "pool_ok (assign_votes p r vs)"
    "pool_votes (assign_votes p r vs) j = (if same_subject i j then vs else pool_votes p j)" by auto
qed

lemma find_vote_pool_spec:
  assumes "pool_ok p" "find_vote_pool p v create = (r, p')"
  shows "pool_ok p'" "pool_votes p' j = pool_votes p j"
    "r = Some x \<Longrightarrow> \<exists>i. vote_id_of v = Some i \<and> points_to x p' i"
    "r = None \<Longrightarrow> vote_id_of v = Some i \<Longrightarrow> \<not> create \<and> pool_votes p i = []"
proof -
  have ok: "subpool_ok obligations_key_of obligations (m_obligations_pool p)"
    "subpool_ok checkpoint_key_of checkpointing (m_checkpoint_pool p)" using assms(1) by (auto simp: pool_ok_def)
  consider "vote_type v = quorum_type_num obligations"
    | "vote_type v = quorum_type_num checkpointing" "vote_type v \<noteq> quorum_type_num obligations"
    | "vote_type v \<noteq> quorum_type_num checkpointing" "vote_type v \<noteq> quorum_type_num obligations"
    by blast
  then have "pool_ok p' \<and> pool_votes p' j = pool_votes p j \<and>
    (r = Some x \<longrightarrow> (\<exists>i. vote_id_of v = Some i \<and> points_to x p' i)) \<and>
    (r = None \<longrightarrow> vote_id_of v = Some i \<longrightarrow> \<not> create \<and> pool_votes p i = [])"
  proof cases
    case 1
    obtain r' pool where f: "find_vote_in_pool obligations_key_of (m_obligations_pool p) v create = (r', pool)"
      by fastforce
    note spec = find_vote_in_pool_spec[OF ok(1) f]
    have p': "r = map_option Obligations_ref r'" "p' = p\<lparr>m_obligations_pool := pool\<rparr>"
      using assms(2) f 1 by (auto simp: find_vote_pool_def)
    have id: "vote_id_of v = Some (Obligation_id (obligations_key_of v) (index_in_group v))"
      using 1 by (simp add: vote_id_of_def)
    show ?thesis unfolding p' id
      using ok(2) spec votes_of_absent by (cases j) (auto simp: pool_ok_def points_to_def)
  next
    case 2
    obtain r' pool where f: "find_vote_in_pool checkpoint_key_of (m_checkpoint_pool p) v create = (r', pool)"
      by fastforce
    note spec = find_vote_in_pool_spec[OF ok(2) f]
    have p': "r = map_option Checkpoint_ref r'" "p' = p\<lparr>m_checkpoint_pool := pool\<rparr>"
      using assms(2) f 2 by (auto simp: find_vote_pool_def)
    have id: "vote_id_of v = Some (Checkpoint_id (checkpoint_key_of v) (index_in_group v))"
      using 2 by (simp add: vote_id_of_def)
    show ?thesis unfolding p' id
      using ok(1) spec votes_of_absent by (cases j) (auto simp: pool_ok_def points_to_def)
  next
    case 3
    then have "vote_id_of v = None" "find_vote_pool p v create = (None, p)"
      by (simp_all add: vote_id_of_def find_vote_pool_def)
    then show ?thesis using assms by auto
  qed
  then show "pool_ok p'" "pool_votes p' j = pool_votes p j"
    "r = Some x \<Longrightarrow> \<exists>i. vote_id_of v = Some i \<and> points_to x p' i"
    "r = None \<Longrightarrow> vote_id_of v = Some i \<Longrightarrow> \<not> create \<and> pool_votes p i = []" by auto
qed

lemma vote_id_of_index: "vote_id_of v = Some i \<Longrightarrow> id_index i = index_in_group v"
  by (auto simp: vote_id_of_def split: if_splits)

lemma same_subject_sym: "same_subject i j \<longleftrightarrow> same_subject j i"
  by (auto simp: same_subject_def)

lemma same_subject_refl [simp]: "same_subject i i"
  by (cases i) simp_all

lemma same_subject_votes: "same_subject i j \<Longrightarrow> pool_votes p i = pool_votes p j"
  by (cases i; cases j) simp_all

lemma same_subject_eq: "i = j \<longleftrightarrow> same_subject i j \<and> id_index i = id_index j"
  by (cases i; cases j) auto

lemma votes_about_sorted: "votes_about i vs \<Longrightarrow> sorted_votes vs"
  by (simp add: votes_about_def)

lemma add_vote_about:
  assumes "votes_about i vs" "vote_id_of v = Some i"
  shows "votes_about i (snd (add_vote_to_pool_if_unique vs v))"
proof -
  have "set (snd (add_vote_to_pool_if_unique vs v)) \<subseteq> insert \<lparr>entry_vote = v, time_last_sent_p2p = 0\<rparr> (set vs)"
    by (auto simp: add_vote_to_pool_if_unique_def Let_def dest: in_set_takeD in_set_dropD)
  then show ?thesis using assms add_vote_sorted unfolding votes_about_def
    by (auto dest!: subsetD)
qed

lemma add_pool_vote_spec:
  assumes "pool_ok p" "vote_id_of v = Some i" "add_pool_vote_if_unique v vvc p = (vs, vvc', p')"
  shows "pool_ok p'" "vs = pool_votes p' i" "vvc' = vvc\<lparr>m_added_to_pool := pool_lookup p i = None\<rparr>"
    "pool_lookup p' = vote_map_step get (Add_vote v) (pool_lookup p)"
proof -
  obtain r q where f: "find_vote_pool p v True = (r, q)" by fastforce
  note spec = find_vote_pool_spec[OF assms(1) f]
  obtain x where x: "r = Some x" using spec(4)[OF _ assms(2)] by (cases r) auto
  have pt: "points_to x q i" using spec(3)[OF x] assms(2) by auto
  have about: "votes_about i (pool_votes p i)" using pool_ok_votes[OF assms(1)] .
  have deref: "deref_votes q x = pool_votes p i" using points_to_votes[OF spec(1) pt] spec(2) by simp
  obtain added us where au: "add_vote_to_pool_if_unique (pool_votes p i) v = (added, us)" by fastforce
  have us: "votes_about i us" using add_vote_about[OF about assms(2)] au by simp
  note asg = assign_votes_spec[OF spec(1) pt us]
  have res: "vs = us" "vvc' = vvc\<lparr>m_added_to_pool := added\<rparr>" "p' = assign_votes q x us"
    using assms(3) f x deref au by (auto simp: add_pool_vote_if_unique_def)
  show "pool_ok p'" "vs = pool_votes p' i" using asg res by simp_all
  have idx: "id_index i = index_in_group v" using vote_id_of_index[OF assms(2)] .
  show "vvc' = vvc\<lparr>m_added_to_pool := pool_lookup p i = None\<rparr>"
    using add_vote_added[OF votes_about_sorted[OF about], of v] au idx res(2) by (simp add: pool_lookup_def)
  show "pool_lookup p' = vote_map_step get (Add_vote v) (pool_lookup p)"
  proof
    fix j
    show "pool_lookup p' j = vote_map_step get (Add_vote v) (pool_lookup p) j"
    proof (cases "same_subject i j")
      case True
      then have "pool_lookup p' j = lookup_vote us (id_index j)" by (simp add: pool_lookup_def res(3) asg(2))
      moreover have "pool_votes p j = pool_votes p i" using same_subject_votes[OF True] by simp
      ultimately show ?thesis
        using add_vote_lookup[OF votes_about_sorted[OF about], of v] au idx assms(2) True same_subject_eq[of i j]
        by (auto simp: pool_lookup_def)
    next
      case False
      then have "i \<noteq> j" by auto
      then show ?thesis using False assms(2) by (simp add: pool_lookup_def res(3) asg(2) spec(2))
    qed
  qed
qed

lemma add_pool_vote_unknown:
  assumes "vote_id_of v = None" shows "add_pool_vote_if_unique v vvc p = ([], vvc, p)"
  using assms by (auto simp: add_pool_vote_if_unique_def find_vote_pool_def vote_id_of_def split: if_splits)

lemma set_relayed_about:
  assumes "votes_about i vs" shows "votes_about i (set_relayed_vote now v vs)"
proof -
  have "sorted_votes (set_relayed_vote now v vs)"
    using assms by (simp only: votes_about_def sorted_votes_def set_relayed_vote_index)
  moreover have "\<forall>x\<in>set (map entry_vote vs). \<exists>j. vote_id_of x = Some j \<and> same_subject i j"
    using assms by (simp add: votes_about_def)
  then have "\<forall>x\<in>set (map entry_vote (set_relayed_vote now v vs)). \<exists>j. vote_id_of x = Some j \<and> same_subject i j"
    by (simp only: set_relayed_vote_votes)
  ultimately show ?thesis by (simp add: votes_about_def)
qed

lemma set_relayed_spec:
  assumes "pool_ok p"
  shows "pool_ok (set_relayed now votes p) \<and>
    pool_lookup (set_relayed now votes p) = vote_map_step get (Set_relayed now votes) (pool_lookup p)"
  using assms
proof (induction votes arbitrary: p)
  case Nil
  then show ?case by (simp add: fun_eq_iff)
next
  case (Cons v votes)
  obtain r q where f: "find_vote_pool p v False = (r, q)" by fastforce
  note spec = find_vote_pool_spec[OF Cons.prems f]
  show ?case
  proof (cases r)
    case None
    have same: "pool_lookup q = pool_lookup p" by (simp add: pool_lookup_def spec(2) fun_eq_iff)
    have "vote_id_of v = Some i \<Longrightarrow> pool_lookup p i = None" for i
      using spec(4)[OF None] by (simp add: pool_lookup_def)
    then show ?thesis using Cons.IH[OF spec(1)] f None same by (auto simp: fun_eq_iff)
  next
    case (Some x)
    then obtain i where i: "vote_id_of v = Some i" and pt: "points_to x q i" using spec(3) by blast
    have about: "votes_about i (pool_votes p i)" using pool_ok_votes[OF Cons.prems] .
    let ?us = "set_relayed_vote now v (pool_votes p i)"
    have deref: "deref_votes q x = pool_votes p i" using points_to_votes[OF spec(1) pt] spec(2) by simp
    note asg = assign_votes_spec[OF spec(1) pt set_relayed_about[OF about, of now v]]
    have look: "pool_lookup (assign_votes q x ?us) j =
        (if j = i then map_option (\<lambda>e. e\<lparr>time_last_sent_p2p := now\<rparr>) (pool_lookup p j) else pool_lookup p j)" for j
    proof (cases "same_subject i j")
      case True
      then have "pool_lookup (assign_votes q x ?us) j = lookup_vote ?us (id_index j)"
        by (simp add: pool_lookup_def asg(2))
      moreover have "pool_lookup p j = lookup_vote (pool_votes p i) (id_index j)"
        using same_subject_votes[OF True] by (simp only: pool_lookup_def)
      moreover have "j = i \<longleftrightarrow> id_index j = index_in_group v"
        using True same_subject_eq[of i j] vote_id_of_index[OF i] by auto
      ultimately show ?thesis by (simp only: set_relayed_vote_lookup)
    next
      case False
      then have "j \<noteq> i" by auto
      then show ?thesis using False by (simp add: pool_lookup_def asg(2) spec(2))
    qed
    have "set_relayed now (v # votes) p = set_relayed now votes (assign_votes q x ?us)"
      using f Some deref by simp
    then show ?thesis using Cons.IH[OF asg(1)] i
      by (auto simp: fun_eq_iff look option.map_comp comp_def)
  qed
qed

lemma subpool_ok_filter: "subpool_ok key_of type pool \<Longrightarrow> subpool_ok key_of type (filter P pool)"
  by (auto simp: subpool_ok_def distinct_map_filter)

lemma remove_expired_spec:
  assumes "pool_ok p"
  shows "pool_ok (remove_expired_votes height p)"
    "pool_lookup (remove_expired_votes height p) = vote_map_step get (Remove_expired height) (pool_lookup p)"
proof -
  show "pool_ok (remove_expired_votes height p)"
    using assms by (simp add: pool_ok_def remove_expired_votes_def Let_def cull_votes_filter subpool_ok_filter)
  show "pool_lookup (remove_expired_votes height p) = vote_map_step get (Remove_expired height) (pool_lookup p)"
  proof
    fix i
    show "pool_lookup (remove_expired_votes height p) i = vote_map_step get (Remove_expired height) (pool_lookup p) i"
      by (cases i) (auto simp: pool_lookup_def remove_expired_votes_def Let_def votes_of_cull in_vote_window_def)
  qed
qed

lemma remove_used_loop_spec:
  assumes "subpool_ok key_of type pool"
  shows "subpool_ok key_of type (remove_used_loop get version txs pool) \<and>
    (\<forall>k. votes_of (remove_used_loop get version txs pool) k = (if k \<in> used_keys get version txs then [] else votes_of pool k))"
  using assms
proof (induction txs arbitrary: pool)
  case Nil
  then show ?case by (simp add: used_keys_def)
next
  case (Cons tx txs)
  show ?case
  proof (cases "tx_type tx = txtype_state_change \<and> get (tx_extra tx) version \<noteq> None")
    case False
    then have "used_keys get version (tx # txs) = used_keys get version txs"
      unfolding used_keys_def by auto
    moreover have "remove_used_loop get version (tx # txs) pool = remove_used_loop get version txs pool"
      using False by auto
    ultimately show ?thesis using Cons by simp
  next
    case True
    then obtain sc where sc: "get (tx_extra tx) version = Some sc" by blast
    let ?k = "obligations_key_of_tx sc"
    have used: "used_keys get version (tx # txs) = insert ?k (used_keys get version txs)"
      using True sc unfolding used_keys_def by auto
    define it where "it = find_pos (\<lambda>e. entry_key e = ?k) pool"
    define pool' where "pool' = (if it \<noteq> length pool then take it pool @ drop (Suc it) pool else pool)"
    have loop: "remove_used_loop get version (tx # txs) pool = remove_used_loop get version txs pool'"
      using True sc by (simp add: it_def pool'_def Let_def)
    have "subpool_ok key_of type pool' \<and> (\<forall>k. votes_of pool' k = (if k = ?k then [] else votes_of pool k))"
    proof (cases "it = length pool")
      case True
      then have "?k \<notin> entry_key ` set pool" unfolding it_def find_pos_length by auto
      then show ?thesis using True Cons.prems votes_of_absent by (auto simp: pool'_def)
    next
      case False
      then obtain e where e: "pool = take it pool @ e # drop (Suc it) pool" "entry_key e = ?k"
        using find_key_split[of ?k pool] unfolding it_def by metis
      have p': "pool' = take it pool @ drop (Suc it) pool" using False by (simp add: pool'_def)
      have dist: "distinct (map entry_key (take it pool @ e # drop (Suc it) pool))"
        using subpool_okD(1)[OF Cons.prems] e(1) by simp
      have "subpool_ok key_of type (take it pool @ e # drop (Suc it) pool)" using Cons.prems e(1) by simp
      then have "subpool_ok key_of type pool'" unfolding p' by (auto simp: subpool_ok_def)
      moreover have "votes_of pool' k = (if k = ?k then [] else votes_of pool k)" for k
        using votes_of_erase[OF dist, of k] e unfolding p' by simp
      ultimately show ?thesis by blast
    qed
    then show ?thesis unfolding loop used using Cons.IH[of pool'] by auto
  qed
qed

lemma remove_used_spec:
  assumes "pool_ok p"
  shows "pool_ok (remove_used_votes get txs version p)"
    "pool_lookup (remove_used_votes get txs version p) = vote_map_step get (Remove_used version txs) (pool_lookup p)"
proof -
  have ok: "subpool_ok obligations_key_of obligations (m_obligations_pool p)"
    using assms by (simp add: pool_ok_def)
  note spec = remove_used_loop_spec[OF ok, of get version txs]
  show "pool_ok (remove_used_votes get txs version p)"
    using assms spec by (simp add: pool_ok_def remove_used_votes_def subpool_ok_def)
  show "pool_lookup (remove_used_votes get txs version p) = vote_map_step get (Remove_used version txs) (pool_lookup p)"
  proof
    fix i
    show "pool_lookup (remove_used_votes get txs version p) i = vote_map_step get (Remove_used version txs) (pool_lookup p) i"
      using spec by (cases i) (auto simp: pool_lookup_def remove_used_votes_def)
  qed
qed

lemma pool_step_spec:
  assumes "pool_ok p"
  shows "pool_ok (pool_step get op p) \<and> pool_lookup (pool_step get op p) = vote_map_step get op (pool_lookup p)"
proof (cases op)
  case (Add_vote v)
  obtain vs c p' where a: "add_pool_vote_if_unique v empty_vvc p = (vs, c, p')" by (metis prod_cases3)
  show ?thesis
  proof (cases "vote_id_of v")
    case None
    then show ?thesis using assms Add_vote add_pool_vote_unknown[OF None] by (simp add: pool_step_def fun_eq_iff)
  next
    case (Some i)
    then show ?thesis using add_pool_vote_spec[OF assms Some a] a Add_vote by (simp add: pool_step_def)
  qed
next
  case (Set_relayed now votes)
  then show ?thesis using set_relayed_spec[OF assms] by (simp add: pool_step_def)
next
  case (Remove_expired height)
  then show ?thesis using remove_expired_spec[OF assms] by (simp add: pool_step_def)
next
  case (Remove_used version txs)
  then show ?thesis using remove_used_spec[OF assms] by (simp add: pool_step_def)
qed

interpretation pool: vote_store get pool_ok pool_lookup "pool_step get" empty_voting_pool for get
proof
  show "pool_ok empty_voting_pool" by (simp add: pool_ok_def empty_voting_pool_def subpool_ok_def)
  show "pool_lookup empty_voting_pool = Map.empty"
  proof
    fix i show "pool_lookup empty_voting_pool i = None" by (cases i) (simp_all add: pool_lookup_def empty_voting_pool_def)
  qed
qed (use pool_step_spec in auto)

definition pool_after ::
  "(bytes \<Rightarrow> hf \<Rightarrow> tx_extra_service_node_state_change option) \<Rightarrow> pool_op list \<Rightarrow> voting_pool" where
  "pool_after get ops = fold (pool_step get) ops empty_voting_pool"

lemma pool_after_ok: "pool_ok (pool_after get ops)"
  unfolding pool_after_def by (rule pool.run_ok[OF pool.init_ok])

text \<open>A stored vote is stored under its own identity.\<close>

lemma pool_lookup_id:
  assumes "pool_ok p" "pool_lookup p i = Some e"
  shows "vote_id_of (entry_vote e) = Some i"
proof -
  have e: "vote_index e = id_index i" "e \<in> set (pool_votes p i)"
    using assms(2) lookup_vote_index unfolding pool_lookup_def by blast+
  then obtain j where j: "vote_id_of (entry_vote e) = Some j" "same_subject i j"
    using pool_ok_votes[OF assms(1), of i] by (auto simp: votes_about_def)
  have "i = j" unfolding same_subject_eq[of i j] using e(1) vote_id_of_index[OF j(1)] j(2) by simp
  then show ?thesis using j(1) by simp
qed

lemma sorted_lookup:
  assumes "sorted_votes vs" "v \<in> set vs" shows "lookup_vote vs (vote_index v) = Some v"
  using assms by (induction vs) (auto simp: sorted_votes_Cons)

lemma relayable_subpool:
  assumes "subpool_ok key_of type pool"
  shows "v \<in> set (append_relayable_votes result pool t h) \<longleftrightarrow> v \<in> set result \<or>
    (\<exists>k i e. lookup_vote (votes_of pool k) i = Some e \<and> entry_vote e = v \<and> h \<le> vote_height v \<and> time_last_sent_p2p e \<le> t)"
proof -
  have "(\<exists>x\<in>set pool. e \<in> set (entry_votes x)) \<longleftrightarrow> (\<exists>k i. lookup_vote (votes_of pool k) i = Some e)" for e
  proof
    assume "\<exists>x\<in>set pool. e \<in> set (entry_votes x)"
    then obtain x where x: "x \<in> set pool" "e \<in> set (entry_votes x)" by blast
    then have "votes_of pool (entry_key x) = entry_votes x" "sorted_votes (entry_votes x)"
      using assms votes_of_entry by (auto simp: subpool_ok_def votes_ok_def)
    then show "\<exists>k i. lookup_vote (votes_of pool k) i = Some e" using sorted_lookup x(2) by metis
  next
    assume "\<exists>k i. lookup_vote (votes_of pool k) i = Some e"
    then obtain k where "e \<in> set (votes_of pool k)" using lookup_vote_index by blast
    then show "\<exists>x\<in>set pool. e \<in> set (entry_votes x)" using votes_of_mem by metis
  qed
  then have "(\<exists>x\<in>set pool. \<exists>e\<in>set (entry_votes x). Q e) \<longleftrightarrow> (\<exists>k i e. lookup_vote (votes_of pool k) i = Some e \<and> Q e)" for Q
    by blast
  note stored = this
  have "v \<in> set (append_relayable_votes result pool t h) \<longleftrightarrow> v \<in> set result \<or>
    (\<exists>x\<in>set pool. \<exists>e\<in>set (entry_votes x). entry_vote e = v \<and> h \<le> vote_height v \<and> time_last_sent_p2p e \<le> t)"
    by (auto simp: append_relayable_votes_def)
  then show ?thesis by (simp only: stored)
qed

lemma relayable_stored:
  assumes "pool_ok p" "v \<in> set (get_relayable_votes now p height version quorum_relay)"
  shows "\<exists>i e. pool_lookup p i = Some e \<and> entry_vote e = v \<and> time_last_sent_p2p e \<le> now - TIME_BETWEEN_RELAY"
proof -
  have ok: "subpool_ok obligations_key_of obligations (m_obligations_pool p)"
    "subpool_ok checkpoint_key_of checkpointing (m_checkpoint_pool p)" using assms(1) by (auto simp: pool_ok_def)
  consider k i e where
    "lookup_vote (votes_of (m_obligations_pool p) k) i = Some e \<and> entry_vote e = v \<and> time_last_sent_p2p e \<le> now - TIME_BETWEEN_RELAY"
    | k i e where
    "lookup_vote (votes_of (m_checkpoint_pool p) k) i = Some e \<and> entry_vote e = v \<and> time_last_sent_p2p e \<le> now - TIME_BETWEEN_RELAY"
    using assms(2) unfolding get_relayable_votes_def Let_def
    by (auto split: if_splits simp: relayable_subpool[OF ok(1)] relayable_subpool[OF ok(2)])
  then show ?thesis
  proof cases
    case (1 k i e)
    then show ?thesis by (intro exI[of _ "Obligation_id k i"] exI[of _ e]) (simp add: pool_lookup_def)
  next
    case (2 k i e)
    then show ?thesis by (intro exI[of _ "Checkpoint_id k i"] exI[of _ e]) (simp add: pool_lookup_def)
  qed
qed

section \<open>Properties\<close>

text \<open>C38. Whatever operations are applied to an empty pool, no subject has two entries, and the votes of
  an entry are about its subject, of the type of the pool, and strictly ascending by the index of the
  voter, so that no voter is counted twice.\<close>

theorem voting_pool_invariant:
  "pool_ok (pool_after get ops)"
  by (rule pool_after_ok)

text \<open>C16. The vectors of the pool implement a map from subject and voter to vote: an addition stores the
  vote unless one is there, relaying changes the time stamps of exactly the relayed votes, expiry keeps
  exactly the subjects of the last 60 blocks, and used state changes drop exactly their subjects.\<close>

theorem voting_pool_refines_map:
  "pool_lookup (pool_after get ops) = fold (vote_map_step get) ops Map.empty"
  unfolding pool_after_def using pool.run_lookup[OF pool.init_ok] by (simp add: pool.init_lookup)

text \<open>The first vote of a voter on a subject stays in the pool, and no later vote replaces it, through
  all operations that neither expire nor use the subject.\<close>

lemma first_vote_kept:
  assumes "vote_id_of v = Some i" "pool_lookup (pool_after get ops) i = None"
    and "\<forall>op\<in>set later. \<not> removes get op i"
  shows "\<exists>e. pool_lookup (pool_after get (ops @ Add_vote v # later)) i = Some e \<and> entry_vote e = v"
  using pool.first_vote_stays[OF pool_after_ok assms] by (simp add: pool_after_def)

definition demo_checkpoint_vote :: "u16 \<Rightarrow> bytes \<Rightarrow> quorum_vote_t" where
  "demo_checkpoint_vote index hash =
     make_checkpointing_vote id (\<lambda>h pub key. pub @ h) hash 100 index \<lparr>keys_pub = [ucast index], keys_key = []\<rparr>"

text \<open>After the votes handed out for relaying have been marked as sent at a time, none of them is
  handed out again before 120 seconds have passed.\<close>

lemma relay_rate_limited:
  assumes "unat TIME_BETWEEN_RELAY \<le> unat now" "unat now < unat sent + unat TIME_BETWEEN_RELAY"
    and "v \<in> set votes"
  shows "v \<notin> set (get_relayable_votes now (set_relayed sent votes (pool_after get ops)) height version quorum_relay)"
proof
  let ?p = "set_relayed sent votes (pool_after get ops)"
  have p: "pool_ok ?p" "pool_lookup ?p = vote_map_step get (Set_relayed sent votes) (pool_lookup (pool_after get ops))"
    using set_relayed_spec[OF pool_after_ok] by auto
  assume "v \<in> set (get_relayable_votes now ?p height version quorum_relay)"
  then obtain i e where e: "pool_lookup ?p i = Some e" "entry_vote e = v" "time_last_sent_p2p e \<le> now - TIME_BETWEEN_RELAY"
    using relayable_stored[OF p(1)] by blast
  have "vote_id_of v = Some i" using pool_lookup_id[OF p(1) e(1)] e(2) by simp
  then have "Some i \<in> vote_id_of ` set votes" using assms(3) by (metis image_eqI)
  then have "time_last_sent_p2p e = sent" using e(1) unfolding p(2) by auto
  then have "unat sent \<le> unat now - unat TIME_BETWEEN_RELAY"
    using e(3) assms(1) by (simp add: word_le_nat_alt unat_sub)
  then show False using assms(1,2) by linarith
qed


end
