(* ===== verification/Quorum_Cop.thy ===== *)
theory Quorum_Cop
  imports Voting_Pool
begin

text \<open>
  The handling of votes by \<^verbatim>\<open>quorum_cop\<close>, \<^verbatim>\<open>src/cryptonote_core/service_node_quorum_cop.cpp\<close>: a vote that
  arrives is checked and pooled, and once the pool holds enough votes on a subject a state change
  transaction is submitted or the checkpoint in the database is updated.  The parts of the daemon that
  the handlers ask (block chain, service node list, transaction pool) are the fields of \<^verbatim>\<open>core\<close>; what
  the handlers do to them is the list of effects that they return.  An index outside the quorum, which
  C++ leaves undefined, is the value \<^const>\<open>None\<close>.
\<close>

section \<open>The daemon as the handlers see it\<close>

record core =
  current_blockchain_height :: u64
  core_network_version :: hf
  core_get_quorum :: "u8 \<Rightarrow> u64 \<Rightarrow> quorum option"
  can_transition_to_state :: "bytes \<Rightarrow> hf \<Rightarrow> u64 \<Rightarrow> u16 \<Rightarrow> bool option"
  core_get_checkpoint :: "u64 \<Rightarrow> checkpoint_t option"
  add_state_change_to_tx_extra :: "tx_extra_service_node_state_change \<Rightarrow> hf \<Rightarrow> bytes option"
  core_handle_incoming_tx :: "bytes \<Rightarrow> bool \<times> bool"

datatype effect =
    Submit_state_change tx_extra_service_node_state_change bytes
  | Update_checkpoint checkpoint_t

section \<open>The handlers\<close>

definition version_v0 :: u8 where "version_v0 = 0"
definition version_v4_reasons :: u8 where "version_v4_reasons = 4"

text \<open>The state change that the collected votes make up.\<close>

definition collect_state_change :: "u8 \<Rightarrow> quorum_vote_t \<Rightarrow> pool_vote_entry list \<Rightarrow> tx_extra_service_node_state_change" where
  "collect_state_change ver vote votes =
     fold (\<lambda>pv sc. sc\<lparr>
         reason_consensus_any := reason_consensus_any sc OR vote_reason (state_change (entry_vote pv)),
         reason_consensus_all := reason_consensus_all sc AND vote_reason (state_change (entry_vote pv)),
         sc_votes := sc_votes sc @ [\<lparr>tx_vote_signature = vote_signature (entry_vote pv),
                                     validator_index = ucast (index_in_group (entry_vote pv))\<rparr>]\<rparr>)
       votes
       \<lparr>sc_version = ver, sc_state = vote_state (state_change vote), sc_height = vote_height vote,
        service_node_index = ucast (worker_index (state_change vote)),
        reason_consensus_all = vote_reason (state_change vote),
        reason_consensus_any = vote_reason (state_change vote), sc_votes = []\<rparr>"

definition handle_obligations_vote ::
  "core \<Rightarrow> quorum_vote_t \<Rightarrow> pool_vote_entry list \<Rightarrow> quorum \<Rightarrow> (bool \<times> effect list) option" where
  "handle_obligations_vote c vote votes q =
     (if length votes < STATE_CHANGE_MIN_VOTES_TO_CHANGE_STATE then Some (True, [])
      else if unat (worker_index (state_change vote)) \<ge> length (workers q) then None
      else
        (let net = core_network_version c;
             pubkey = workers q ! unat (worker_index (state_change vote))
         in if can_transition_to_state c pubkey net (vote_height vote) (vote_state (state_change vote)) \<noteq> Some True
            then Some (True, [])
            else
              (let ver = (if net \<ge> hf18 then version_v4_reasons else version_v0);
                   sc = collect_state_change ver vote votes
               in case add_state_change_to_tx_extra c sc net of
                    None \<Rightarrow> Some (True, [])
                  | Some extra \<Rightarrow>
                      (let (result, verifivation_failed) = core_handle_incoming_tx c extra
                       in Some (result \<and> \<not> verifivation_failed, [Submit_state_change sc extra])))))"

definition pool_signature :: "pool_vote_entry \<Rightarrow> quorum_signature" where
  "pool_signature pv =
     \<lparr>voter_index = index_in_group (entry_vote pv), voter_signature = vote_signature (entry_vote pv)\<rparr>"

primrec merge_signatures ::
  "pool_vote_entry list \<Rightarrow> bool \<Rightarrow> quorum_signature list \<Rightarrow> bool \<times> quorum_signature list" where
  "merge_signatures [] update sigs = (update, sigs)"
| "merge_signatures (pv # votes) update sigs =
     (let it = find_pos (\<lambda>s. \<not> voter_index s < index_in_group (entry_vote pv)) sigs in
      if it = length sigs \<or> index_in_group (entry_vote pv) \<noteq> voter_index (sigs ! it)
      then merge_signatures votes True (take it sigs @ pool_signature pv # drop it sigs)
      else merge_signatures votes update sigs)"

definition handle_checkpoint_vote ::
  "core \<Rightarrow> quorum_vote_t \<Rightarrow> pool_vote_entry list \<Rightarrow> bool \<times> effect list" where
  "handle_checkpoint_vote c vote votes =
     (if length votes < CHECKPOINT_MIN_VOTES then (True, [])
      else
        (let update_if = (\<lambda>update cp. (True, if update then [Update_checkpoint cp] else []));
             fresh = (if vote_height vote < current_blockchain_height c
                      then update_if True ((make_empty_service_node_checkpoint (checkpoint_hash vote) (vote_height vote))
                             \<lparr>cp_signatures := map pool_signature votes\<rparr>)
                      else (True, []))
         in case core_get_checkpoint c (vote_height vote) of
              None \<Rightarrow> fresh
            | Some cp \<Rightarrow>
                if cp_hash cp = checkpoint_hash vote then
                  (if length (cp_signatures cp) \<noteq> CHECKPOINT_QUORUM_SIZE then
                     (let (update, sigs) = merge_signatures votes False (sort_key voter_index (cp_signatures cp))
                      in update_if update (cp\<lparr>cp_signatures := sigs\<rparr>))
                   else (True, []))
                else fresh))"

definition handle_vote ::
  "(bytes \<Rightarrow> bytes) \<Rightarrow> (bytes \<Rightarrow> bytes \<Rightarrow> bytes \<Rightarrow> bool) \<Rightarrow> core \<Rightarrow> quorum_vote_t \<Rightarrow> voting_pool
   \<Rightarrow> (bool \<times> vote_verification_context \<times> voting_pool \<times> effect list) option" where
  "handle_vote cn_fast_hash check_signature c vote p =
     (let (age_ok, vvc1) = verify_vote_age vote (current_blockchain_height c) empty_vvc in
      if \<not> age_ok then Some (False, vvc1, p, [])
      else case core_get_quorum c (vote_type vote) (vote_height vote) of
        None \<Rightarrow> Some (False, vvc1\<lparr>m_invalid_block_height := True\<rparr>, p, [])
      | Some q \<Rightarrow>
          (let (sig_ok, vvc2) = verify_vote_signature cn_fast_hash check_signature vote vvc1 q in
           if \<not> sig_ok then Some (False, vvc2, p, [])
           else
             (let (votes, vvc3, p') = add_pool_vote_if_unique vote vvc2 p in
              if \<not> m_added_to_pool vvc3 then Some (True, vvc3, p', [])
              else if vote_type vote = quorum_type_num obligations then
                map_option (\<lambda>(result, effs). (result, vvc3, p', effs)) (handle_obligations_vote c vote votes q)
              else if vote_type vote = quorum_type_num checkpointing then
                (let (result, effs) = handle_checkpoint_vote c vote votes in Some (result, vvc3, p', effs))
              else Some (False, vvc3, p', []))))"

text \<open>The pool operations of \<^verbatim>\<open>block_add\<close>, after the quorums of the block have been processed.\<close>

definition block_add_pool ::
  "(bytes \<Rightarrow> hf \<Rightarrow> tx_extra_service_node_state_change option) \<Rightarrow> u64 \<Rightarrow> hf \<Rightarrow> pool_tx list \<Rightarrow> voting_pool \<Rightarrow> voting_pool" where
  "block_add_pool get_state_change block_height major_version txs p =
     remove_used_votes get_state_change txs major_version (remove_expired_votes (block_height + 1) p)"

record quorum_cop =
  m_vote_pool :: voting_pool
  m_obligations_height :: u64
  m_last_checkpointed_height :: u64

definition blockchain_detached :: "hf \<Rightarrow> u64 \<Rightarrow> quorum_cop \<Rightarrow> quorum_cop" where
  "blockchain_detached version height s =
     (let buffer = of_nat (if version \<ge> hf12_checkpointing then REORG_SAFETY_BUFFER_BLOCKS_POST_HF12
                           else REORG_SAFETY_BUFFER_BLOCKS_PRE_HF12);
          s1 = (if m_obligations_height s \<ge> height then s\<lparr>m_obligations_height := height\<rparr> else s);
          s2 = (if m_last_checkpointed_height s1 \<ge> height + buffer
                then s1\<lparr>m_last_checkpointed_height := height - height mod of_nat CHECKPOINT_INTERVAL\<rparr> else s1)
      in s2\<lparr>m_vote_pool := remove_expired_votes height (m_vote_pool s2)\<rparr>)"

definition find_index_in_quorum_group :: "bytes list \<Rightarrow> bytes \<Rightarrow> int" where
  "find_index_in_quorum_group keys my_pubkey =
     (let it = find_pos (\<lambda>k. k = my_pubkey) keys in if it = length keys then -1 else int it)"

section \<open>What the handlers submit\<close>

abbreviation tx_vote_of :: "pool_vote_entry \<Rightarrow> tx_vote" where
  "tx_vote_of pv \<equiv> \<lparr>tx_vote_signature = vote_signature (entry_vote pv), validator_index = ucast (vote_index pv)\<rparr>"

lemma collect_fold:
  fixes sc :: tx_extra_service_node_state_change
  defines "step \<equiv> (\<lambda>pv sc. sc\<lparr>
         reason_consensus_any := reason_consensus_any sc OR vote_reason (state_change (entry_vote pv)),
         reason_consensus_all := reason_consensus_all sc AND vote_reason (state_change (entry_vote pv)),
         sc_votes := sc_votes sc @ [tx_vote_of pv]\<rparr>)"
  shows "sc_state (fold step votes sc) = sc_state sc \<and> sc_height (fold step votes sc) = sc_height sc \<and>
    service_node_index (fold step votes sc) = service_node_index sc \<and>
    sc_votes (fold step votes sc) = sc_votes sc @ map tx_vote_of votes"
  by (induction votes arbitrary: sc) (simp_all add: step_def)

lemma collect_state_change_fields [simp]:
  "sc_state (collect_state_change ver v votes) = vote_state (state_change v)"
  "sc_height (collect_state_change ver v votes) = vote_height v"
  "service_node_index (collect_state_change ver v votes) = ucast (worker_index (state_change v))"
  "sc_votes (collect_state_change ver v votes) = map tx_vote_of votes"
  unfolding collect_state_change_def using collect_fold by simp_all

definition vote_signed :: "(bytes \<Rightarrow> bytes) \<Rightarrow> (bytes \<Rightarrow> bytes \<Rightarrow> bytes \<Rightarrow> bool) \<Rightarrow> quorum \<Rightarrow> quorum_vote_t \<Rightarrow> bool" where
  "vote_signed H chk q v \<longleftrightarrow> fst (verify_vote_signature H chk v empty_vvc q)"

lemma vote_signed_iff:
  "vote_signed H chk q v \<longleftrightarrow>
     vote_group v = quorum_group_validator \<and> unat (index_in_group v) < length (validators q) \<and>
     (vote_type v = quorum_type_num obligations \<and> unat (worker_index (state_change v)) < length (workers q) \<or>
      vote_type v = quorum_type_num checkpointing) \<and>
     chk (vote_hash H v) (validators q ! unat (index_in_group v)) (vote_signature v)"
  using verify_vote_signature_True[of H chk v empty_vvc q]
  by (cases "verify_vote_signature H chk v empty_vvc q") (auto simp: vote_signed_def)

lemma age_ok_vvc: "verify_vote_age v latest empty_vvc = (True, vvc) \<Longrightarrow> vvc = empty_vvc"
  by (auto simp: verify_vote_age_def Let_def empty_vvc_def split: if_splits prod.splits)

lemma handle_vote_cases:
  assumes "handle_vote H chk c v p = Some (ok, vvc, p', effs)"
  obtains (rejected) "p' = p" "effs = []"
  | (pooled) q votes where "core_get_quorum c (vote_type v) (vote_height v) = Some q" "vote_signed H chk q v"
      "add_pool_vote_if_unique v empty_vvc p = (votes, vvc, p')"
      "effs = [] \<or> vote_type v = quorum_type_num obligations \<and> handle_obligations_vote c v votes q = Some (ok, effs) \<or>
       vote_type v = quorum_type_num checkpointing \<and> handle_checkpoint_vote c v votes = (ok, effs)"
proof -
  obtain age_ok vvc1 where age: "verify_vote_age v (current_blockchain_height c) empty_vvc = (age_ok, vvc1)" by fastforce
  show thesis
  proof (cases "age_ok \<and> core_get_quorum c (vote_type v) (vote_height v) \<noteq> None")
    case False
    then show thesis using assms age rejected by (cases age_ok) (simp_all add: handle_vote_def)
  next
    case True
    then obtain q where q: "core_get_quorum c (vote_type v) (vote_height v) = Some q" by blast
    have vvc1: "vvc1 = empty_vvc" using age_ok_vvc age True by simp
    obtain sig_ok vvc2 where sig: "verify_vote_signature H chk v empty_vvc q = (sig_ok, vvc2)" by fastforce
    show thesis
    proof (cases sig_ok)
      case False
      then show thesis using assms age True q sig vvc1 rejected by (simp add: handle_vote_def)
    next
      case sig_ok: True
      have vvc2: "vvc2 = empty_vvc" using verify_vote_signature_True sig sig_ok by metis
      have signed: "vote_signed H chk q v" using sig sig_ok by (simp add: vote_signed_def)
      obtain votes vvc3 p1 where add: "add_pool_vote_if_unique v empty_vvc p = (votes, vvc3, p1)"
        by (metis prod_cases3)
      have *: "(if \<not> m_added_to_pool vvc3 then Some (True, vvc3, p1, [])
              else if vote_type v = quorum_type_num obligations then
                map_option (\<lambda>(result, effs). (result, vvc3, p1, effs)) (handle_obligations_vote c v votes q)
              else if vote_type v = quorum_type_num checkpointing then
                (let (result, effs) = handle_checkpoint_vote c v votes in Some (result, vvc3, p1, effs))
              else Some (False, vvc3, p1, [])) = Some (ok, vvc, p', effs)"
        using assms age True q sig sig_ok vvc1 vvc2 add by (simp add: handle_vote_def)
      then have "vvc3 = vvc" "p1 = p'" by (auto split: if_splits prod.splits)
      then show thesis using pooled[OF q signed, of votes] add * by (auto split: if_splits prod.splits)
    qed
  qed
qed

text \<open>The pools that a node can reach when the quorum of a height does not change: votes enter through
  \<^const>\<open>handle_vote\<close> only.\<close>

inductive cop_reachable ::
  "(bytes \<Rightarrow> bytes) \<Rightarrow> (bytes \<Rightarrow> bytes \<Rightarrow> bytes \<Rightarrow> bool) \<Rightarrow> (u8 \<Rightarrow> u64 \<Rightarrow> quorum option)
   \<Rightarrow> (bytes \<Rightarrow> hf \<Rightarrow> tx_extra_service_node_state_change option) \<Rightarrow> voting_pool \<Rightarrow> bool"
  for H chk gq get where
  start: "cop_reachable H chk gq get empty_voting_pool"
| vote: "cop_reachable H chk gq get p \<Longrightarrow> core_get_quorum c = gq
    \<Longrightarrow> handle_vote H chk c v p = Some (ok, vvc, p', effs) \<Longrightarrow> cop_reachable H chk gq get p'"
| relayed: "cop_reachable H chk gq get p \<Longrightarrow> cop_reachable H chk gq get (set_relayed now votes p)"
| block: "cop_reachable H chk gq get p \<Longrightarrow> cop_reachable H chk gq get (block_add_pool get height version txs p)"
| detached: "cop_reachable H chk gq get p \<Longrightarrow> cop_reachable H chk gq get (remove_expired_votes height p)"

definition pool_verified ::
  "(bytes \<Rightarrow> bytes) \<Rightarrow> (bytes \<Rightarrow> bytes \<Rightarrow> bytes \<Rightarrow> bool) \<Rightarrow> (u8 \<Rightarrow> u64 \<Rightarrow> quorum option) \<Rightarrow> voting_pool \<Rightarrow> bool" where
  "pool_verified H chk gq p \<longleftrightarrow>
     (\<forall>i e. pool_lookup p i = Some e \<longrightarrow>
        (\<exists>q. gq (vote_type (entry_vote e)) (vote_height (entry_vote e)) = Some q \<and> vote_signed H chk q (entry_vote e)))"

lemma pool_verified_step:
  assumes "pool_ok p" "pool_verified H chk gq p" "\<And>v. op \<noteq> Add_vote v"
  shows "pool_verified H chk gq (pool_step get op p)"
proof -
  have "\<exists>e'. pool_lookup p i = Some e' \<and> entry_vote e' = entry_vote e" if "pool_lookup (pool_step get op p) i = Some e" for i e
    using that assms(3) unfolding conjunct2[OF pool_step_spec[OF assms(1)]]
    by (cases op) (auto split: if_splits vote_id.splits)
  then show ?thesis using assms(2) unfolding pool_verified_def by metis
qed

lemma vote_signed_id: "vote_signed H chk q v \<Longrightarrow> \<exists>i. vote_id_of v = Some i"
  unfolding vote_signed_iff vote_id_of_def by auto

lemma pool_verified_add:
  assumes "pool_ok p" "pool_verified H chk gq p" "gq (vote_type v) (vote_height v) = Some q" "vote_signed H chk q v"
    and "add_pool_vote_if_unique v vvc p = (votes, vvc', p')"
  shows "pool_ok p' \<and> pool_verified H chk gq p'"
proof -
  obtain i where i: "vote_id_of v = Some i" using vote_signed_id[OF assms(4)] by blast
  note spec = add_pool_vote_spec[OF assms(1) i assms(5)]
  have "pool_lookup p j = Some e \<or> entry_vote e = v" if "pool_lookup p' j = Some e" for j e
    using that unfolding spec(4)[where get = "\<lambda>_ _. None"] by (auto split: if_splits)
  then show ?thesis using spec(1) assms(2-4) unfolding pool_verified_def by metis
qed

lemma cop_reachable_verified:
  assumes "cop_reachable H chk gq get p" shows "pool_ok p \<and> pool_verified H chk gq p"
  using assms
proof induction
  case start
  then show ?case by (simp add: pool.init_ok pool_verified_def pool.init_lookup)
next
  case (vote p c v ok vvc p' effs)
  from vote.hyps(3) show ?case
  proof (cases rule: handle_vote_cases)
    case rejected
    then show ?thesis using vote.IH by simp
  next
    case (pooled q votes)
    then show ?thesis using pool_verified_add vote.IH vote.hyps(2) by metis
  qed
next
  case (relayed p now votes)
  then show ?case using pool_verified_step[of p H chk gq "Set_relayed now votes"] set_relayed_spec[of p now votes]
    by (simp add: pool_step_def)
next
  case (block p height version txs)
  then have "pool_ok (remove_expired_votes (height + 1) p)" "pool_verified H chk gq (remove_expired_votes (height + 1) p)"
    using pool_verified_step[of p H chk gq "Remove_expired (height + 1)"] remove_expired_spec(1)[of p]
    by (simp_all add: pool_step_def)
  then show ?case using pool_verified_step[of "remove_expired_votes (height + 1) p" H chk gq "Remove_used version txs" get]
      remove_used_spec(1)[of "remove_expired_votes (height + 1) p"]
    by (simp add: pool_step_def block_add_pool_def)
next
  case (detached p height)
  then show ?case using pool_verified_step[of p H chk gq "Remove_expired height"] remove_expired_spec(1)[of p height]
    by (simp add: pool_step_def)
qed

lemma same_subject_vote:
  assumes "vote_id_of v = Some i" "vote_id_of w = Some j" "same_subject i j"
  shows "vote_type w = vote_type v" "vote_height w = vote_height v" "vote_hash H w = vote_hash H v"
  using assms
  by (auto simp: vote_id_of_def vote_hash_def obligations_key_of_def checkpoint_key_of_def quorum_type_num_def split: if_splits)

lemma pooled_votes_signed:
  assumes "pool_ok p" "pool_verified H chk gq p" "vote_id_of v = Some i"
    and "gq (vote_type v) (vote_height v) = Some q" "e \<in> set (pool_votes p i)"
  shows "vote_signed H chk q (entry_vote e)" "vote_hash H (entry_vote e) = vote_hash H v"
proof -
  have about: "votes_about i (pool_votes p i)" using pool_ok_votes[OF assms(1)] .
  then obtain j where j: "vote_id_of (entry_vote e) = Some j" "same_subject i j"
    using assms(5) by (auto simp: votes_about_def)
  note same = same_subject_vote[OF assms(3) j]
  have "lookup_vote (pool_votes p i) (vote_index e) = Some e"
    using sorted_lookup[OF votes_about_sorted[OF about] assms(5)] .
  then have "pool_lookup p j = Some e"
    using same_subject_votes[OF j(2)] vote_id_of_index[OF j(1)] by (simp add: pool_lookup_def)
  then show "vote_signed H chk q (entry_vote e)"
    using assms(2,4) same unfolding pool_verified_def by fastforce
  show "vote_hash H (entry_vote e) = vote_hash H v" by (rule same(3))
qed

lemma sorted_votes_indices:
  assumes "sorted_votes vs" shows "sorted_wrt (<) (map (\<lambda>v. unat (vote_index v)) vs)"
  using assms by (induction vs) (auto simp: sorted_votes_def word_less_nat_alt)

lemma sorted_less_distinct: "sorted_wrt (<) (xs :: nat list) \<Longrightarrow> distinct xs"
  by (induction xs) auto

lemma vote_pool_after:
  assumes "cop_reachable H chk gq get p" "core_get_quorum c = gq" "handle_vote H chk c v p = Some (ok, vvc, p', effs)"
    and "effs \<noteq> []"
  obtains q votes where "gq (vote_type v) (vote_height v) = Some q" "vote_signed H chk q v" "sorted_votes votes"
    "\<forall>e\<in>set votes. vote_signed H chk q (entry_vote e) \<and> vote_hash H (entry_vote e) = vote_hash H v"
    "vote_type v = quorum_type_num obligations \<and> handle_obligations_vote c v votes q = Some (ok, effs) \<or>
     vote_type v = quorum_type_num checkpointing \<and> handle_checkpoint_vote c v votes = (ok, effs)"
proof -
  have inv: "pool_ok p" "pool_verified H chk gq p" using cop_reachable_verified[OF assms(1)] by auto
  from assms(3) show thesis
  proof (cases rule: handle_vote_cases)
    case rejected
    then show thesis using assms(4) by simp
  next
    case (pooled q votes)
    have q: "gq (vote_type v) (vote_height v) = Some q" using pooled(1) assms(2) by simp
    obtain i where i: "vote_id_of v = Some i" using vote_signed_id[OF pooled(2)] by blast
    have p': "pool_ok p'" "pool_verified H chk gq p'"
      using pool_verified_add[OF inv q pooled(2,3)] by auto
    have votes: "votes = pool_votes p' i" using add_pool_vote_spec(2)[OF inv(1) i pooled(3)] .
    have "sorted_votes votes" using votes votes_about_sorted pool_ok_votes[OF p'(1)] by blast
    moreover have "\<forall>e\<in>set votes. vote_signed H chk q (entry_vote e) \<and> vote_hash H (entry_vote e) = vote_hash H v"
      using pooled_votes_signed[OF p' i q] votes by blast
    ultimately show thesis using that[OF q pooled(2)] pooled(4) assms(4) by blast
  qed
qed

lemma obligations_effect:
  assumes "handle_obligations_vote c v votes q = Some (ok, effs)" "eff \<in> set effs"
  shows "\<exists>ver extra. eff = Submit_state_change (collect_state_change ver v votes) extra \<and>
    STATE_CHANGE_MIN_VOTES_TO_CHANGE_STATE \<le> length votes"
  using assms unfolding handle_obligations_vote_def Let_def
  by (fastforce simp: not_less split: if_splits option.splits prod.splits)

lemma checkpoint_effect:
  assumes "handle_checkpoint_vote c v votes = (ok, effs)" "eff \<in> set effs"
  obtains (fresh) "eff = Update_checkpoint ((make_empty_service_node_checkpoint (checkpoint_hash v) (vote_height v))
        \<lparr>cp_signatures := map pool_signature votes\<rparr>)" "CHECKPOINT_MIN_VOTES \<le> length votes"
      "vote_height v < current_blockchain_height c"
  | (merged) cp sigs where "core_get_checkpoint c (vote_height v) = Some cp" "cp_hash cp = checkpoint_hash v"
      "CHECKPOINT_MIN_VOTES \<le> length votes"
      "merge_signatures votes False (sort_key voter_index (cp_signatures cp)) = (True, sigs)"
      "eff = Update_checkpoint (cp\<lparr>cp_signatures := sigs\<rparr>)"
  using assms by (auto simp: handle_checkpoint_vote_def Let_def not_less split: if_splits option.splits prod.splits)

lemma submitted_votes_valid:
  assumes "sorted_votes votes"
    "\<forall>e\<in>set votes. vote_signed H chk q (entry_vote e) \<and> vote_hash H (entry_vote e) = h"
  shows "quorum_votes_valid chk q h version (map tx_vote_of votes)"
proof -
  have "tx_vote_indices (map tx_vote_of votes) = map (\<lambda>v. unat (vote_index v)) votes" by simp
  then have "sorted_wrt (<) (tx_vote_indices (map tx_vote_of votes))"
    using sorted_votes_indices[OF assms(1)] by (simp only:)
  then show ?thesis using sorted_less_distinct assms(2) unfolding quorum_votes_valid_def
    by (auto simp: vote_signed_iff)
qed

lemma handle_vote_not_None: "handle_vote H chk c v p \<noteq> None"
proof (cases "core_get_quorum c (vote_type v) (vote_height v)")
  case (Some q)
  have "handle_obligations_vote c v votes q \<noteq> None"
    if "vote_type v = quorum_type_num obligations" "verify_vote_signature H chk v vvc q = (True, vvc')" for votes vvc vvc'
  proof -
    have "unat (worker_index (state_change v)) < length (workers q)"
      using that unfolding verify_vote_signature_True by (simp add: quorum_type_num_def)
    then show ?thesis unfolding handle_obligations_vote_def Let_def
      by (intro if_not_None) (simp_all add: not_le del: not_None_eq split: option.split prod.split)
  qed
  then show ?thesis using Some
    by (auto simp: handle_vote_def Let_def split: prod.splits if_splits)
qed (simp add: handle_vote_def del: not_None_eq split: prod.splits)

abbreviation sorted_signatures :: "quorum_signature list \<Rightarrow> bool" where
  "sorted_signatures sigs \<equiv> sorted_wrt (<) (map voter_index sigs)"

lemma merge_signatures_spec:
  assumes "merge_signatures votes update sigs = (update', sigs')" "sorted_signatures sigs"
  shows "sorted_signatures sigs' \<and> set sigs \<subseteq> set sigs' \<and> set sigs' \<subseteq> set sigs \<union> pool_signature ` set votes \<and>
    vote_index ` set votes \<subseteq> voter_index ` set sigs'"
  using assms
proof (induction votes arbitrary: update sigs)
  case Nil
  then show ?case by auto
next
  case (Cons pv votes)
  define it where "it = find_pos (\<lambda>s. \<not> voter_index s < vote_index pv) sigs"
  note found = lower_bound_found[OF Cons.prems(2) it_def]
  have step: "merge_signatures (pv # votes) update sigs =
      (if it = length sigs \<or> vote_index pv \<noteq> voter_index (sigs ! it)
       then merge_signatures votes True (take it sigs @ pool_signature pv # drop it sigs)
       else merge_signatures votes update sigs)"
    by (simp add: it_def Let_def)
  show ?case
  proof (cases "it = length sigs \<or> vote_index pv \<noteq> voter_index (sigs ! it)")
    case True
    let ?sigs = "take it sigs @ pool_signature pv # drop it sigs"
    have idx: "voter_index (pool_signature pv) = vote_index pv" by (simp add: pool_signature_def)
    have "\<forall>s\<in>set sigs. voter_index s \<noteq> voter_index (pool_signature pv)" using True found idx by auto
    then have "sorted_signatures ?sigs"
      using lower_bound_insert[OF Cons.prems(2), of it "pool_signature pv"] it_def idx by simp
    moreover have "merge_signatures votes True ?sigs = (update', sigs')"
      using Cons.prems(1) unfolding step if_P[OF True] .
    ultimately have IH: "sorted_signatures sigs' \<and> set ?sigs \<subseteq> set sigs' \<and>
        set sigs' \<subseteq> set ?sigs \<union> pool_signature ` set votes \<and> vote_index ` set votes \<subseteq> voter_index ` set sigs'"
      using Cons.IH by blast
    have "set ?sigs = insert (pool_signature pv) (set sigs)"
      using append_take_drop_id[of it sigs] by (metis Un_insert_right list.simps(15) set_append)
    then show ?thesis using IH idx by (metis (no_types, lifting) Un_insert_left Un_insert_right image_insert image_subset_iff insert_subset list.simps(15) rev_image_eqI)
  next
    case False
    have "merge_signatures votes update sigs = (update', sigs')"
      using Cons.prems(1) unfolding step if_not_P[OF False] .
    moreover have "vote_index pv \<in> voter_index ` set sigs" using found False by (metis image_eqI)
    ultimately show ?thesis using Cons.IH[OF _ Cons.prems(2)] by fastforce
  qed
qed

lemma sorted_voters: "sorted_signatures sigs \<Longrightarrow> sorted_wrt (<) (voter_indices sigs)"
  by (induction sigs) (auto simp: word_less_nat_alt)

lemma sort_signatures:
  assumes "distinct (voter_indices sigs)" shows "sorted_signatures (sort_key voter_index sigs)"
proof -
  have "distinct (map voter_index sigs)" using assms by (auto simp: distinct_map inj_on_def)
  then have "distinct (map voter_index (sort_key voter_index sigs))" by (simp add: distinct_map)
  then show ?thesis by (simp add: strict_sorted_iff)
qed

lemma pooled_signature_valid:
  assumes "vote_signed H chk q (entry_vote e)" "vote_hash H (entry_vote e) = h" "s = pool_signature e"
  shows "unat (voter_index s) < length (validators q) \<and> chk h (validators q ! unat (voter_index s)) (voter_signature s)"
  using assms by (auto simp: vote_signed_iff pool_signature_def)

text \<open>The signatures of a checkpoint that the handler writes.\<close>

lemma merged_signatures_valid:
  assumes "sorted_votes votes"
    "\<forall>e\<in>set votes. vote_signed H chk q (entry_vote e) \<and> vote_hash H (entry_vote e) = h"
    "quorum_signatures_valid chk q h asc sigs"
    "merge_signatures votes update (sort_key voter_index sigs) = (update', sigs')"
  shows "quorum_signatures_valid chk q h True sigs'" "length votes \<le> length sigs'"
proof -
  have dist: "distinct (voter_indices sigs)" using assms(3) by (simp add: quorum_signatures_valid_def)
  note spec = merge_signatures_spec[OF assms(4) sort_signatures[OF dist]]
  have sorted: "sorted_wrt (<) (voter_indices sigs')" using spec sorted_voters by blast
  have "unat (voter_index s) < length (validators q) \<and> chk h (validators q ! unat (voter_index s)) (voter_signature s)"
    if "s \<in> set sigs'" for s
  proof -
    have "s \<in> set sigs \<or> s \<in> pool_signature ` set votes" using spec that by auto
    then show ?thesis using assms(2,3) pooled_signature_valid unfolding quorum_signatures_valid_def by blast
  qed
  then show "quorum_signatures_valid chk q h True sigs'"
    using sorted sorted_less_distinct unfolding quorum_signatures_valid_def by blast
  have "card (vote_index ` set votes) \<le> card (voter_index ` set sigs')" using spec by (intro card_mono) auto
  also have "\<dots> \<le> length sigs'" by (metis List.finite_set card_image_le card_length le_trans)
  finally have "card (set (map vote_index votes)) \<le> length sigs'" by simp
  moreover have "distinct (map vote_index votes)" using assms(1) by (simp add: sorted_votes_def strict_sorted_iff)
  ultimately show "length votes \<le> length sigs'" using distinct_card by fastforce
qed

lemma fresh_signatures_valid:
  assumes "sorted_votes votes"
    "\<forall>e\<in>set votes. vote_signed H chk q (entry_vote e) \<and> vote_hash H (entry_vote e) = h"
  shows "quorum_signatures_valid chk q h True (map pool_signature votes)"
proof -
  have "voter_indices (map pool_signature votes) = map (\<lambda>v. unat (vote_index v)) votes" by (simp add: pool_signature_def)
  then have "sorted_wrt (<) (voter_indices (map pool_signature votes))"
    using sorted_votes_indices[OF assms(1)] by (simp only:)
  moreover have "\<forall>s\<in>set (map pool_signature votes). unat (voter_index s) < length (validators q) \<and>
      chk h (validators q ! unat (voter_index s)) (voter_signature s)"
    using assms(2) by (auto simp: vote_signed_iff pool_signature_def)
  ultimately show ?thesis using sorted_less_distinct unfolding quorum_signatures_valid_def by blast
qed

lemma valid_ascending: "quorum_signatures_valid chk q h True sigs \<Longrightarrow> quorum_signatures_valid chk q h asc sigs"
  by (simp add: quorum_signatures_valid_def)

section \<open>Properties\<close>


text \<open>C36. In every pool that the node can reach, every stored vote is signed by the validator it names, over
  the subject it is stored under, in the quorum of its height.\<close>

theorem pooled_votes_verified:
  assumes "cop_reachable H chk gq get p" "pool_lookup p i = Some e"
  shows "vote_id_of (entry_vote e) = Some i \<and>
    (\<exists>q. gq (vote_type (entry_vote e)) (vote_height (entry_vote e)) = Some q \<and>
         fst (verify_vote_signature H chk (entry_vote e) empty_vvc q))"
  using cop_reachable_verified[OF assms(1)] assms(2) pool_lookup_id
  unfolding pool_verified_def vote_signed_def by blast

text \<open>A daemon with quorums of \<^term>\<open>n\<close> validators, and the votes its validators cast.\<close>

definition demo_core :: "nat \<Rightarrow> core" where
  "demo_core n =
     \<lparr>current_blockchain_height = 110, core_network_version = hf19_reward_batching,
      core_get_quorum = (\<lambda>_ _. Some (demo_quorum n)), can_transition_to_state = (\<lambda>_ _ _ _. Some True),
      core_get_checkpoint = (\<lambda>_. None), add_state_change_to_tx_extra = (\<lambda>_ _. Some []),
      core_handle_incoming_tx = (\<lambda>_. (True, False))\<rparr>"

definition demo_state_vote :: "u16 \<Rightarrow> quorum_vote_t" where
  "demo_state_vote index =
     make_state_change_vote id (\<lambda>h pub key. pub @ h) 100 index 0 1 1 \<lparr>keys_pub = [ucast index], keys_key = []\<rparr>"

primrec demo_run :: "nat \<Rightarrow> (u16 \<Rightarrow> quorum_vote_t) \<Rightarrow> u16 list \<Rightarrow> voting_pool" where
  "demo_run n vote [] = empty_voting_pool"
| "demo_run n vote (i # is) =
     (case handle_vote id demo_check (demo_core n) (vote i) (demo_run n vote is) of
        None \<Rightarrow> empty_voting_pool | Some (ok, vvc, p', effs) \<Rightarrow> p')"

lemma demo_run_reachable:
  "cop_reachable id demo_check (\<lambda>_ _. Some (demo_quorum n)) (\<lambda>_ _. None) (demo_run n vote is)"
proof (induction "is")
  case Nil
  show ?case by (simp add: cop_reachable.start)
next
  case (Cons i "is")
  obtain ok vvc p' effs where h: "handle_vote id demo_check (demo_core n) (vote i) (demo_run n vote is) = Some (ok, vvc, p', effs)"
    using handle_vote_not_None by (metis option.exhaust prod_cases4)
  have "core_get_quorum (demo_core n) = (\<lambda>_ _. Some (demo_quorum n))" by (simp add: demo_core_def)
  from cop_reachable.vote[OF Cons this h] show ?case by (simp only: demo_run.simps h option.case prod.case)
qed

theorem pooled_votes_verified_witness:
  "\<exists>e q. pool_lookup (demo_run 10 demo_state_vote [2]) (Obligation_id \<lparr>ob_height = 100, ob_worker_index = 0, ob_state = 1\<rparr> 2) = Some e \<and>
     fst (verify_vote_signature id demo_check (entry_vote e) empty_vvc q)"
proof -
  let ?e = "\<lparr>entry_vote = demo_state_vote 2, time_last_sent_p2p = 0\<rparr>"
  have l: "pool_lookup (demo_run 10 demo_state_vote [2]) (Obligation_id \<lparr>ob_height = 100, ob_worker_index = 0, ob_state = 1\<rparr> 2) = Some ?e"
    by code_simp
  then show ?thesis using pooled_votes_verified[OF demo_run_reachable l] by blast
qed



lemma updated_checkpoint_valid:
  assumes "cop_reachable H chk gq get p" "core_get_quorum c = gq"
    and "handle_vote H chk c v p = Some (ok, vvc, p', effs)" "Update_checkpoint cp \<in> set effs"
    and "gq (quorum_type_num checkpointing) (vote_height v) = Some q" "length (validators q) \<le> CHECKPOINT_QUORUM_SIZE"
    and "vote_height v mod of_nat CHECKPOINT_INTERVAL = 0"
    and "\<forall>old. core_get_checkpoint c (vote_height v) = Some old \<longrightarrow> cp_type old = service_node \<and>
           cp_height old = vote_height v \<and> (\<exists>w. verify_checkpoint chk w old q = Some True)"
  shows "cp_type cp = service_node \<and> cp_height cp = vote_height v \<and> cp_hash cp = checkpoint_hash v \<and> verify_checkpoint chk version cp q = Some True"
proof -
  have char: "verify_checkpoint chk w x q = Some True \<longleftrightarrow> CHECKPOINT_MIN_VOTES \<le> length (cp_signatures x) \<and>
      quorum_signatures_valid chk q (cp_hash x) (hf13_enforce_checkpoints \<le> w) (cp_signatures x)"
    if "cp_type x = service_node" "cp_height x = vote_height v" for x w
    using that assms(7) verify_checkpointing_char[OF assms(6)] by (simp add: verify_checkpoint_def)
  have "effs \<noteq> []" using assms(4) by auto
  then show ?thesis
  proof (rule vote_pool_after[OF assms(1-3)])
    fix q' votes
    assume q': "gq (vote_type v) (vote_height v) = Some q'" "vote_signed H chk q' v" "sorted_votes votes"
      "\<forall>e\<in>set votes. vote_signed H chk q' (entry_vote e) \<and> vote_hash H (entry_vote e) = vote_hash H v"
      and ty: "vote_type v = quorum_type_num obligations \<and> handle_obligations_vote c v votes q' = Some (ok, effs) \<or>
        vote_type v = quorum_type_num checkpointing \<and> handle_checkpoint_vote c v votes = (ok, effs)"
    from ty show ?thesis
    proof
      assume a: "vote_type v = quorum_type_num obligations \<and> handle_obligations_vote c v votes q' = Some (ok, effs)"
      show ?thesis using obligations_effect[OF conjunct2[OF a] assms(4)] by simp
    next
      assume a: "vote_type v = quorum_type_num checkpointing \<and> handle_checkpoint_vote c v votes = (ok, effs)"
      have q: "q' = q" using q'(1) assms(5) a by simp
      have h: "vote_hash H v = checkpoint_hash v" using a by (simp add: vote_hash_def quorum_type_num_def)
      note signed = q'(4)[unfolded q h]
      from conjunct2[OF a] assms(4) show ?thesis
      proof (cases rule: checkpoint_effect)
        case fresh
        then show ?thesis
          using char[of cp version] valid_ascending[OF fresh_signatures_valid[OF q'(3) signed]]
          by (simp add: make_empty_service_node_checkpoint_def)
      next
        case (merged old sigs)
        then obtain w where old: "cp_type old = service_node" "cp_height old = vote_height v" "verify_checkpoint chk w old q = Some True"
          using assms(8) by blast
        then have "quorum_signatures_valid chk q (checkpoint_hash v) (hf13_enforce_checkpoints \<le> w) (cp_signatures old)"
          using char[OF old(1,2)] merged(2) by simp
        from merged_signatures_valid[OF q'(3) signed this merged(4)] show ?thesis
          using char[of cp version] valid_ascending old merged by simp
      qed
    qed
  qed
qed



end
