(* ===== verification/Checkpoints.thy ===== *)
theory Checkpoints
  imports Voting
begin

text \<open>
  Block chain checkpoints, \<^verbatim>\<open>src/checkpoints/checkpoints.cpp\<close>, and their table in the block chain data base,
  \<^verbatim>\<open>src/blockchain_db/lmdb/db_lmdb.cpp\<close> and \<^verbatim>\<open>blockchain_db.cpp\<close>.  The ordered key value store (LMDB) is an
  argument: a record of the operations that the code calls, with the laws its documentation states
  in \<^verbatim>\<open>lmdb_laws\<close>.  Failures of the store other than a missing key are not modelled.
\<close>

section \<open>The table\<close>

text \<open>A stored value: \<^verbatim>\<open>blk_checkpoint_header\<close> followed by the signatures it counts.\<close>

record blk_checkpoint =
  blk_height :: u64
  blk_hash :: bytes
  blk_signatures :: "quorum_signature list"

text \<open>The operations of the store on one table: the value at a key, writing and deleting a key, the values at the
  least and at the greatest key, and the values that a cursor set to a key meets one after another
  going up or down.\<close>

record 'db lmdb =
  mdb_set_key :: "'db \<Rightarrow> u64 \<Rightarrow> blk_checkpoint option"
  mdb_put :: "'db \<Rightarrow> u64 \<Rightarrow> blk_checkpoint \<Rightarrow> 'db"
  mdb_del :: "'db \<Rightarrow> u64 \<Rightarrow> 'db"
  mdb_first :: "'db \<Rightarrow> blk_checkpoint option"
  mdb_last :: "'db \<Rightarrow> blk_checkpoint option"
  mdb_next :: "'db \<Rightarrow> u64 \<Rightarrow> blk_checkpoint list"
  mdb_prev :: "'db \<Rightarrow> u64 \<Rightarrow> blk_checkpoint list"

text \<open>The buffer holds the signatures of a full quorum.  Beyond, \<^verbatim>\<open>convert_checkpoint_into_buffer\<close> returns false.\<close>

definition convert_checkpoint_into_buffer :: "checkpoint_t \<Rightarrow> blk_checkpoint option" where
  "convert_checkpoint_into_buffer cp =
     (if length (cp_signatures cp) > CHECKPOINT_QUORUM_SIZE then None
      else Some \<lparr>blk_height = cp_height cp, blk_hash = cp_hash cp, blk_signatures = cp_signatures cp\<rparr>)"

text \<open>The result of the conversion is not looked at, so a checkpoint too large for the buffer makes the store read
  past its end: the behaviour is undefined, \<^const>\<open>None\<close>.\<close>

definition update_block_checkpoint :: "'db lmdb \<Rightarrow> 'db \<Rightarrow> checkpoint_t \<Rightarrow> 'db option" where
  "update_block_checkpoint T db cp =
     (case convert_checkpoint_into_buffer cp of
        None \<Rightarrow> None
      | Some buffer \<Rightarrow> Some (mdb_put T db (cp_height cp) buffer))"

definition remove_block_checkpoint :: "'db lmdb \<Rightarrow> 'db \<Rightarrow> u64 \<Rightarrow> 'db" where
  "remove_block_checkpoint T db height =
     (case mdb_set_key T db height of None \<Rightarrow> db | Some _ \<Rightarrow> mdb_del T db height)"

definition convert_mdb_val_to_checkpoint :: "blk_checkpoint \<Rightarrow> checkpoint_t" where
  "convert_mdb_val_to_checkpoint v =
     \<lparr>cp_version = 0,
      cp_type = (if length (blk_signatures v) > 0 then service_node else hardcoded),
      cp_height = blk_height v, cp_hash = blk_hash v, cp_signatures = blk_signatures v, prev_height = 0\<rparr>"

definition get_block_checkpoint :: "'db lmdb \<Rightarrow> 'db \<Rightarrow> u64 \<Rightarrow> checkpoint_t option" where
  "get_block_checkpoint T db height = map_option convert_mdb_val_to_checkpoint (mdb_set_key T db height)"

definition get_top_checkpoint :: "'db lmdb \<Rightarrow> 'db \<Rightarrow> checkpoint_t option" where
  "get_top_checkpoint T db = map_option convert_mdb_val_to_checkpoint (mdb_last T db)"

definition get_bottom_checkpoint :: "'db lmdb \<Rightarrow> 'db \<Rightarrow> checkpoint_t option" where
  "get_bottom_checkpoint T db = map_option convert_mdb_val_to_checkpoint (mdb_first T db)"

definition clamp :: "u64 \<Rightarrow> u64 \<Rightarrow> u64 \<Rightarrow> u64" where
  "clamp v lo hi = (if v < lo then lo else if hi < v then hi else v)"

text \<open>The loop over the heights before \<^verbatim>\<open>end\<close>: the first checkpoint met.\<close>

function first_in_range :: "'db lmdb \<Rightarrow> 'db \<Rightarrow> bool \<Rightarrow> u64 \<Rightarrow> u64 \<Rightarrow> checkpoint_t option" where
  "first_in_range T db upwards height stop =
     (if height = stop then None
      else case get_block_checkpoint T db height of
             Some cp \<Rightarrow> Some cp
           | None \<Rightarrow> first_in_range T db upwards (if upwards then height + 1 else height - 1) stop)"
  by pat_completeness auto

termination
proof (relation "measure (\<lambda>(T, db, upwards, height, stop). unat (if upwards then stop - height else height - stop))")
  show "wf (measure (\<lambda>(T :: 'a lmdb, db :: 'a, upwards, height, stop :: u64). unat (if upwards then stop - height else height - stop)))"
    by simp
next
  fix T :: "'a lmdb" and db :: 'a and upwards and height stop :: u64
  assume ne: "height \<noteq> stop"
  have d: "unat (x - 1) < unat x" if "x \<noteq> 0" for x :: u64
    using that by (simp add: unat_minus_one unat_gt_0)
  have "unat (stop - (height + 1)) < unat (stop - height)" "unat (height - 1 - stop) < unat (height - stop)"
    using d[of "stop - height"] d[of "height - stop"] ne by (simp_all add: algebra_simps)
  then show "((T, db, upwards, if upwards then height + 1 else height - 1, stop), T, db, upwards, height, stop)
      \<in> measure (\<lambda>(T, db, upwards, height, stop). unat (if upwards then stop - height else height - stop))"
    by simp
qed

declare first_in_range.simps [simp del]

text \<open>The loop that follows the cursor, up to a number of results.\<close>

fun collect_range :: "u64 \<Rightarrow> u64 \<Rightarrow> nat \<Rightarrow> checkpoint_t list \<Rightarrow> blk_checkpoint list \<Rightarrow> checkpoint_t list" where
  "collect_range lo hi n result [] = result"
| "collect_range lo hi n result (v # vs) =
     (if \<not> length result < n then result
      else if blk_height v \<ge> lo \<and> blk_height v \<le> hi
      then collect_range lo hi n (result @ [convert_mdb_val_to_checkpoint v]) vs
      else collect_range lo hi n result vs)"

definition GET_ALL_CHECKPOINTS :: nat where "GET_ALL_CHECKPOINTS = 0"

definition get_checkpoints_range :: "'db lmdb \<Rightarrow> 'db \<Rightarrow> u64 \<Rightarrow> u64 \<Rightarrow> nat \<Rightarrow> checkpoint_t list" where
  "get_checkpoints_range T db start stop num_desired_checkpoints =
     (case get_top_checkpoint T db of
        None \<Rightarrow> []
      | Some top_checkpoint \<Rightarrow>
        (case get_bottom_checkpoint T db of
           None \<Rightarrow> []
         | Some bottom_checkpoint \<Rightarrow>
           (let start = clamp start (cp_height bottom_checkpoint) (cp_height top_checkpoint);
                stop = clamp stop (cp_height bottom_checkpoint) (cp_height top_checkpoint);
                n = (if num_desired_checkpoints = GET_ALL_CHECKPOINTS then 2 ^ 64 - 1 else num_desired_checkpoints)
            in if (if start > stop then start < cp_height bottom_checkpoint else start > cp_height top_checkpoint)
               then []
               else
                 (case (case first_in_range T db (stop \<ge> start) start stop of
                          Some cp \<Rightarrow> Some cp
                        | None \<Rightarrow> get_block_checkpoint T db stop) of
                    None \<Rightarrow> []
                  | Some first_checkpoint \<Rightarrow>
                      collect_range (min start stop) (max start stop) n [first_checkpoint]
                        (if stop \<ge> start then mdb_next T db (cp_height first_checkpoint)
                         else mdb_prev T db (cp_height first_checkpoint))))))"

definition get_immutable_checkpoint :: "'db lmdb \<Rightarrow> 'db \<Rightarrow> u64 \<Rightarrow> checkpoint_t option" where
  "get_immutable_checkpoint T db block_height =
     (let checkpoints = get_checkpoints_range T db block_height 0 CHECKPOINT_NUM_CHECKPOINTS_FOR_CHAIN_FINALITY
      in if checkpoints = [] then None
         else if cp_type (checkpoints ! 0) \<noteq> service_node then Some (checkpoints ! 0)
         else if length checkpoints = CHECKPOINT_NUM_CHECKPOINTS_FOR_CHAIN_FINALITY then Some (checkpoints ! 1)
         else None)"

section \<open>The checkpoints of a chain\<close>

record 'db checkpoints =
  m_nettype :: network_type
  m_last_cull_height :: u64
  m_immutable_height :: u64
  m_db :: 'db

definition get_checkpoint :: "'db lmdb \<Rightarrow> 'db checkpoints \<Rightarrow> u64 \<Rightarrow> checkpoint_t option" where
  "get_checkpoint T c height = get_block_checkpoint T (m_db c) height"

text \<open>A read only data base is shared with the process that writes it.\<close>

definition update_checkpoint :: "'db lmdb \<Rightarrow> bool \<Rightarrow> 'db checkpoints \<Rightarrow> checkpoint_t \<Rightarrow> (bool \<times> 'db checkpoints) option" where
  "update_checkpoint T read_only c checkpoint =
     (if read_only then Some (True, c)
      else map_option (\<lambda>db. (True, c\<lparr>m_db := db\<rparr>)) (update_block_checkpoint T (m_db c) checkpoint))"

text \<open>The reading of a hexadecimal hash is an argument.\<close>

definition add_checkpoint ::
  "'db lmdb \<Rightarrow> (string \<Rightarrow> bytes option) \<Rightarrow> bool \<Rightarrow> 'db checkpoints \<Rightarrow> u64 \<Rightarrow> string \<Rightarrow> (bool \<times> 'db checkpoints) option" where
  "add_checkpoint T load_hex read_only c height hash_str =
     (case load_hex hash_str of
        None \<Rightarrow> Some (False, c)
      | Some h \<Rightarrow>
        (case get_checkpoint T c height of
           Some checkpoint \<Rightarrow> Some (h = cp_hash checkpoint, c)
         | None \<Rightarrow> update_checkpoint T read_only c
             \<lparr>cp_version = 0, cp_type = hardcoded, cp_height = height, cp_hash = h, cp_signatures = [], prev_height = 0\<rparr>))"

text \<open>The loop of \<^verbatim>\<open>block_add\<close>; \<^const>\<open>None\<close> when the height wraps around and the loop does not end.\<close>

partial_function (option) cull_loop :: "'db lmdb \<Rightarrow> u64 \<Rightarrow> 'db \<Rightarrow> u64 \<Rightarrow> (u64 \<times> 'db) option" where
  "cull_loop T end_cull_height db last_cull_height =
     (if \<not> last_cull_height < end_cull_height then Some (last_cull_height, db)
      else cull_loop T end_cull_height
        (if last_cull_height mod of_nat CHECKPOINT_STORE_PERSISTENTLY_INTERVAL = 0 then db
         else remove_block_checkpoint T db last_cull_height)
        (last_cull_height + of_nat CHECKPOINT_INTERVAL))"

definition start_cull :: "u64 \<Rightarrow> u64" where
  "start_cull end_cull_height =
     (let start = (if end_cull_height < of_nat CHECKPOINT_STORE_PERSISTENTLY_INTERVAL then 0
                   else end_cull_height - of_nat CHECKPOINT_STORE_PERSISTENTLY_INTERVAL)
      in if start mod of_nat CHECKPOINT_INTERVAL > 0
         then start + (of_nat CHECKPOINT_INTERVAL - start mod of_nat CHECKPOINT_INTERVAL)
         else start)"

text \<open>Of the added block, its height and version.\<close>

definition block_add ::
  "'db lmdb \<Rightarrow> bool \<Rightarrow> 'db checkpoints \<Rightarrow> u64 \<Rightarrow> hf \<Rightarrow> checkpoint_t option \<Rightarrow> 'db checkpoints option" where
  "block_add T read_only c height major_version info_checkpoint =
     (if read_only then Some c
      else if height < of_nat CHECKPOINT_STORE_PERSISTENTLY_INTERVAL \<or> major_version < hf12_checkpointing then Some c
      else
        (let end_cull_height = (case get_immutable_checkpoint T (m_db c) (height + 1) of
                                  None \<Rightarrow> 0 | Some immutable_checkpoint \<Rightarrow> cp_height immutable_checkpoint)
         in case cull_loop T end_cull_height (m_db c) (max (m_last_cull_height c) (start_cull end_cull_height)) of
              None \<Rightarrow> None
            | Some (last_cull_height, db) \<Rightarrow>
                (let c = c\<lparr>m_last_cull_height := last_cull_height, m_db := db\<rparr>
                 in case info_checkpoint of
                      None \<Rightarrow> Some c
                    | Some checkpoint \<Rightarrow> map_option snd (update_checkpoint T read_only c checkpoint))))"

function detach_loop :: "'db lmdb \<Rightarrow> u64 \<Rightarrow> 'db \<Rightarrow> u64 \<Rightarrow> 'db" where
  "detach_loop T height db delete_height =
     (if delete_height \<ge> height \<and> delete_height \<ge> of_nat CHECKPOINT_INTERVAL
      then detach_loop T height (remove_block_checkpoint T db delete_height) (delete_height - of_nat CHECKPOINT_INTERVAL)
      else db)"
  by pat_completeness auto
termination
  by (relation "measure (\<lambda>(T, height, db, delete_height). unat delete_height)")
    (auto simp: CHECKPOINT_INTERVAL_def unat_sub word_le_nat_alt)

declare detach_loop.simps [simp del]

definition checkpoints_detached :: "'db lmdb \<Rightarrow> bool \<Rightarrow> 'db checkpoints \<Rightarrow> u64 \<Rightarrow> 'db checkpoints" where
  "checkpoints_detached T read_only c height =
     (if read_only then c
      else
        (let c = c\<lparr>m_last_cull_height := min (m_last_cull_height c) height\<rparr>
         in case get_top_checkpoint T (m_db c) of
              None \<Rightarrow> c
            | Some top_checkpoint \<Rightarrow> c\<lparr>m_db := detach_loop T height (m_db c) (cp_height top_checkpoint)\<rparr>))"

definition get_max_height :: "'db lmdb \<Rightarrow> 'db checkpoints \<Rightarrow> u64" where
  "get_max_height T c = (case get_top_checkpoint T (m_db c) of None \<Rightarrow> 0 | Some top_checkpoint \<Rightarrow> cp_height top_checkpoint)"

definition is_in_checkpoint_zone :: "'db lmdb \<Rightarrow> 'db checkpoints \<Rightarrow> u64 \<Rightarrow> bool" where
  "is_in_checkpoint_zone T c height =
     (let top_checkpoint_height =
        (case get_top_checkpoint T (m_db c) of None \<Rightarrow> 0 | Some top_checkpoint \<Rightarrow> cp_height top_checkpoint)
      in height \<le> top_checkpoint_height)"

text \<open>The result, whether there is a checkpoint, and whether service nodes signed it.\<close>

definition check_block :: "'db lmdb \<Rightarrow> 'db checkpoints \<Rightarrow> u64 \<Rightarrow> bytes \<Rightarrow> bool \<times> bool \<times> bool" where
  "check_block T c height h =
     (case get_checkpoint T c height of
        None \<Rightarrow> (True, False, False)
      | Some checkpoint \<Rightarrow> (cp_hash checkpoint = h, True, cp_type checkpoint = service_node))"

definition is_alternative_block_allowed ::
  "'db lmdb \<Rightarrow> 'db checkpoints \<Rightarrow> u64 \<Rightarrow> u64 \<Rightarrow> (bool \<times> bool) \<times> 'db checkpoints" where
  "is_alternative_block_allowed T c blockchain_height block_height =
     (if block_height = 0 then ((False, False), c)
      else
        (let first_checkpoint = get_checkpoints_range T (m_db c) 0 blockchain_height 1
         in if first_checkpoint = [] \<or> blockchain_height < cp_height (first_checkpoint ! 0) then ((True, False), c)
            else
              (let (immutable_height, service_node_checkpoint) =
                 (case get_immutable_checkpoint T (m_db c) blockchain_height of
                    None \<Rightarrow> (0, False)
                  | Some cp \<Rightarrow> (cp_height cp, cp_type cp = service_node));
                   c = c\<lparr>m_immutable_height := max immutable_height (m_immutable_height c)\<rparr>
               in ((block_height > m_immutable_height c, service_node_checkpoint), c))))"

text \<open>The hard coded checkpoints, and their loading into a new object.\<close>

definition HARDCODED_MAINNET_CHECKPOINTS :: "(u64 \<times> string) list" where
  "HARDCODED_MAINNET_CHECKPOINTS = [(0, ''d728fbf0eb74c06349b4cd6bbca1ef11f7f35cadc0cb6828cf72d5f77b7ebed4'')]"

definition get_newest_hardcoded_checkpoint :: "(string \<Rightarrow> bytes option) \<Rightarrow> network_type \<Rightarrow> bytes \<times> u64" where
  "get_newest_hardcoded_checkpoint load_hex nettype =
     (if nettype \<noteq> MAINNET \<and> nettype \<noteq> TESTNET then (replicate 32 0, 0)
      else if nettype = MAINNET then
        (let entry = HARDCODED_MAINNET_CHECKPOINTS ! (length HARDCODED_MAINNET_CHECKPOINTS - 1)
         in case load_hex (snd entry) of None \<Rightarrow> (replicate 32 0, 0) | Some h \<Rightarrow> (h, fst entry))
      else (replicate 32 0, 0))"

fun init_loop ::
  "'db lmdb \<Rightarrow> (string \<Rightarrow> bytes option) \<Rightarrow> 'db checkpoints \<Rightarrow> (u64 \<times> string) list \<Rightarrow> (bool \<times> 'db checkpoints) option" where
  "init_loop T load_hex c [] = Some (True, c)"
| "init_loop T load_hex c ((height, hash) # rest) =
     (case get_checkpoint T c height of
        Some _ \<Rightarrow> init_loop T load_hex c rest
      | None \<Rightarrow>
        (case add_checkpoint T load_hex False c height hash of
           None \<Rightarrow> None
         | Some (added, c) \<Rightarrow> if \<not> added then Some (False, c) else init_loop T load_hex c rest))"

definition checkpoints_init ::
  "'db lmdb \<Rightarrow> (string \<Rightarrow> bytes option) \<Rightarrow> bool \<Rightarrow> network_type \<Rightarrow> 'db \<Rightarrow> (bool \<times> 'db checkpoints) option" where
  "checkpoints_init T load_hex read_only nettype db =
     (let c = \<lparr>m_nettype = nettype, m_last_cull_height = 0, m_immutable_height = 0, m_db = db\<rparr>
      in if read_only then Some (True, c)
         else if nettype = MAINNET then init_loop T load_hex c HARDCODED_MAINNET_CHECKPOINTS
         else Some (True, c))"

section \<open>The laws of the store\<close>

definition stored_heights :: "'db lmdb \<Rightarrow> 'db \<Rightarrow> u64 list" where
  "stored_heights T db = sorted_list_of_set (dom (mdb_set_key T db))"

abbreviation stored :: "'db lmdb \<Rightarrow> 'db \<Rightarrow> u64 \<Rightarrow> blk_checkpoint" where
  "stored T db k \<equiv> the (mdb_set_key T db k)"

text \<open>The table is a map from heights, ordered by height.\<close>

definition lmdb_laws :: "'db lmdb \<Rightarrow> bool" where
  "lmdb_laws T \<longleftrightarrow> (\<forall>db.
     (\<forall>k v. mdb_set_key T (mdb_put T db k v) = (mdb_set_key T db)(k \<mapsto> v)) \<and>
     (\<forall>k. mdb_set_key T (mdb_del T db k) = (mdb_set_key T db)(k := None)) \<and>
     mdb_first T db = (if stored_heights T db = [] then None else mdb_set_key T db (hd (stored_heights T db))) \<and>
     mdb_last T db = (if stored_heights T db = [] then None else mdb_set_key T db (last (stored_heights T db))) \<and>
     (\<forall>k. mdb_next T db k = map (stored T db) (filter (\<lambda>j. k < j) (stored_heights T db))) \<and>
     (\<forall>k. mdb_prev T db k = rev (map (stored T db) (filter (\<lambda>j. j < k) (stored_heights T db)))))"

text \<open>Every value is stored under its own height.\<close>

definition keyed :: "'db lmdb \<Rightarrow> 'db \<Rightarrow> bool" where
  "keyed T db \<longleftrightarrow> (\<forall>k v. mdb_set_key T db k = Some v \<longrightarrow> blk_height v = k)"

lemma stored_heights_simps [simp]:
  "set (stored_heights T db) = dom (mdb_set_key T db)" "sorted_wrt (<) (stored_heights T db)"
  by (simp_all add: stored_heights_def)

lemma stored_heights_Nil: "stored_heights T db = [] \<longleftrightarrow> dom (mdb_set_key T db) = {}"
  by (metis set_empty stored_heights_simps(1))

lemma put_stored: "lmdb_laws T \<Longrightarrow> mdb_set_key T (mdb_put T db k v) = (mdb_set_key T db)(k \<mapsto> v)"
  by (simp add: lmdb_laws_def)

lemma remove_stored:
  assumes "lmdb_laws T"
  shows "mdb_set_key T (remove_block_checkpoint T db k) = (mdb_set_key T db)(k := None)"
  using assms by (auto simp: remove_block_checkpoint_def lmdb_laws_def split: option.split)

lemma sorted_hd_le: "sorted_wrt (<) xs \<Longrightarrow> x \<in> set xs \<Longrightarrow> hd xs \<le> (x :: 'a :: linorder)"
  by (cases xs) auto

lemma sorted_le_last: "sorted_wrt (<) xs \<Longrightarrow> x \<in> set xs \<Longrightarrow> x \<le> (last xs :: 'a :: linorder)"
  by (induction xs) (auto simp: less_imp_le split: if_splits)

lemma stored_bounds:
  "k \<in> dom (mdb_set_key T db) \<Longrightarrow> hd (stored_heights T db) \<le> k \<and> k \<le> last (stored_heights T db)"
  using sorted_hd_le[OF stored_heights_simps(2)] sorted_le_last[OF stored_heights_simps(2)] stored_heights_simps(1) by metis

lemma last_stored: "dom (mdb_set_key T db) \<noteq> {} \<Longrightarrow> last (stored_heights T db) \<in> dom (mdb_set_key T db)"
  using last_in_set[of "stored_heights T db"] by (simp add: stored_heights_Nil)

lemma hd_stored: "dom (mdb_set_key T db) \<noteq> {} \<Longrightarrow> hd (stored_heights T db) \<in> dom (mdb_set_key T db)"
  using hd_in_set[of "stored_heights T db"] by (simp add: stored_heights_Nil)

lemma convert_simps [simp]:
  "cp_height (convert_mdb_val_to_checkpoint v) = blk_height v" "cp_hash (convert_mdb_val_to_checkpoint v) = blk_hash v"
  "cp_signatures (convert_mdb_val_to_checkpoint v) = blk_signatures v"
  "cp_type (convert_mdb_val_to_checkpoint v) = service_node \<longleftrightarrow> blk_signatures v \<noteq> []"
  by (simp_all add: convert_mdb_val_to_checkpoint_def)

lemma get_block_None: "get_block_checkpoint T db k = None \<longleftrightarrow> k \<notin> dom (mdb_set_key T db)"
  by (auto simp: get_block_checkpoint_def domIff)

lemma get_block_Some: "k \<in> dom (mdb_set_key T db) \<Longrightarrow>
    get_block_checkpoint T db k = Some (convert_mdb_val_to_checkpoint (stored T db k))"
  by (auto simp: get_block_checkpoint_def)

lemma top_bottom:
  assumes "lmdb_laws T"
  shows "get_top_checkpoint T db = (if dom (mdb_set_key T db) = {} then None else get_block_checkpoint T db (last (stored_heights T db)))"
    "get_bottom_checkpoint T db = (if dom (mdb_set_key T db) = {} then None else get_block_checkpoint T db (hd (stored_heights T db)))"
  using assms by (simp_all add: lmdb_laws_def get_top_checkpoint_def get_bottom_checkpoint_def get_block_checkpoint_def stored_heights_Nil)

section \<open>Ranges\<close>

lemma sorted_filter_first:
  fixes k :: "'a :: linorder"
  assumes "sorted_wrt (<) xs" "k \<in> set xs" "P k" "\<And>j. j < k \<Longrightarrow> j \<in> set xs \<Longrightarrow> \<not> P j"
  shows "filter P xs = k # filter P (filter (\<lambda>j. k < j) xs)"
  using assms
proof (induction xs)
  case (Cons x xs)
  show ?case
  proof (cases "x = k")
    case True
    then have "filter (\<lambda>j. k < j) xs = xs" using Cons.prems(1) by (intro filter_True) auto
    then show ?thesis using True Cons.prems(3) by simp
  next
    case False
    then have k: "k \<in> set xs" and "x < k" using Cons.prems(1,2) by auto
    moreover have "filter P xs = k # filter P (filter (\<lambda>j. k < j) xs)"
      using Cons.IH[OF _ k Cons.prems(3)] Cons.prems(1,4) by auto
    ultimately show ?thesis using Cons.prems(4)[of x] by simp
  qed
qed simp

lemma sorted_filter_last:
  fixes k :: "'a :: linorder"
  assumes "sorted_wrt (<) xs" "k \<in> set xs" "P k" "\<And>j. k < j \<Longrightarrow> j \<in> set xs \<Longrightarrow> \<not> P j"
  shows "filter P xs = filter P (filter (\<lambda>j. j < k) xs) @ [k]"
  using assms
proof (induction xs)
  case (Cons x xs)
  show ?case
  proof (cases "x = k")
    case True
    then have "\<forall>j \<in> set xs. k < j" using Cons.prems(1) by auto
    then have "filter P xs = []" "filter (\<lambda>j. j < k) xs = []"
      using Cons.prems(4) by (auto simp: filter_empty_conv)
    then show ?thesis using True Cons.prems(3) by simp
  next
    case False
    then have k: "k \<in> set xs" and "x < k" using Cons.prems(1,2) by auto
    moreover have "filter P xs = filter P (filter (\<lambda>j. j < k) xs) @ [k]"
      using Cons.IH[OF _ k Cons.prems(3)] Cons.prems(1,4) by auto
    ultimately show ?thesis by simp
  qed
qed simp

lemma collect_range_eq:
  "length result \<le> n \<Longrightarrow> collect_range lo hi n result vs =
     take n (result @ map convert_mdb_val_to_checkpoint (filter (\<lambda>v. blk_height v \<ge> lo \<and> blk_height v \<le> hi) vs))"
  by (induction lo hi n result vs rule: collect_range.induct) auto

lemma u64_up:
  assumes "h < (s :: u64)"
  shows "h + 1 \<le> s" "h \<le> j \<longleftrightarrow> j = h \<or> h + 1 \<le> j" "unat (s - (h + 1)) < unat (s - h)"
proof -
  have "unat h < unat s" using assms by (simp add: word_less_nat_alt)
  moreover have s1: "unat (h + 1) = unat h + 1"
    using calculation u64_less[of s] by (simp add: unat_word_ariths(1))
  ultimately show "h + 1 \<le> s" "h \<le> j \<longleftrightarrow> j = h \<or> h + 1 \<le> j"
    unfolding word_le_nat_alt word_unat_eq_iff[of j] s1 by auto
  have "s - h \<noteq> 0" using assms by auto
  then have "unat (s - h - 1) < unat (s - h)" by (simp add: unat_minus_one unat_gt_0)
  then show "unat (s - (h + 1)) < unat (s - h)" by (simp add: diff_diff_eq)
qed

lemma u64_down:
  assumes "s < (h :: u64)"
  shows "s \<le> h - 1" "j \<le> h \<longleftrightarrow> j = h \<or> j \<le> h - 1" "unat (h - 1 - s) < unat (h - s)"
proof -
  have "h \<noteq> 0" using assms by auto
  then have h1: "unat (h - 1) = unat h - 1" "0 < unat h" by (simp_all add: unat_minus_one unat_gt_0)
  then show "s \<le> h - 1" "j \<le> h \<longleftrightarrow> j = h \<or> j \<le> h - 1"
    using assms unfolding word_le_nat_alt word_less_nat_alt word_unat_eq_iff[of j] by auto
  have "h - s \<noteq> 0" using assms by auto
  then have "unat (h - s - 1) < unat (h - s)" by (simp add: unat_minus_one unat_gt_0)
  then show "unat (h - 1 - s) < unat (h - s)" by (simp add: algebra_simps)
qed

definition first_met :: "'db lmdb \<Rightarrow> 'db \<Rightarrow> bool \<Rightarrow> u64 \<Rightarrow> u64 \<Rightarrow> checkpoint_t option" where
  "first_met T db upwards height stop =
     (case first_in_range T db upwards height stop of Some cp \<Rightarrow> Some cp | None \<Rightarrow> get_block_checkpoint T db stop)"

lemma first_met_simps:
  "first_met T db upwards height stop =
     (if height = stop then get_block_checkpoint T db stop
      else case get_block_checkpoint T db height of Some cp \<Rightarrow> Some cp
           | None \<Rightarrow> first_met T db upwards (if upwards then height + 1 else height - 1) stop)"
  unfolding first_met_def by (subst first_in_range.simps) (auto split: option.split)

lemma first_met_up:
  assumes "height \<le> stop"
  shows "(\<exists>k \<in> dom (mdb_set_key T db). height \<le> k \<and> k \<le> stop \<and> (\<forall>j. height \<le> j \<and> j < k \<longrightarrow> j \<notin> dom (mdb_set_key T db)) \<and>
      first_met T db True height stop = Some (convert_mdb_val_to_checkpoint (stored T db k))) \<or>
    (\<forall>k. height \<le> k \<and> k \<le> stop \<longrightarrow> k \<notin> dom (mdb_set_key T db)) \<and> first_met T db True height stop = None"
  (is "?some height \<or> ?none height")
  using assms
proof (induction "unat (stop - height)" arbitrary: height rule: less_induct)
  case less
  consider (found) "height \<in> dom (mdb_set_key T db)" | (stop) "height \<notin> dom (mdb_set_key T db)" "height = stop"
    | (more) "height \<notin> dom (mdb_set_key T db)" "height \<noteq> stop" by blast
  then show ?case
  proof cases
    case found
    have "first_met T db True height stop = Some (convert_mdb_val_to_checkpoint (stored T db height))"
      using get_block_Some[OF found] by (cases "height = stop"; subst first_met_simps; simp)
    then show ?thesis using found less.prems by (intro disjI1 bexI[of _ height]) auto
  next
    case stop
    then have "first_met T db True height stop = None" by (subst first_met_simps) (simp add: get_block_None)
    then show ?thesis using stop by auto
  next
    case more
    have lt: "height < stop" using more less.prems by simp
    have eq: "first_met T db True height stop = first_met T db True (height + 1) stop"
      using more get_block_None[of T db height] by (subst first_met_simps) simp
    from less.hyps[OF u64_up(3,1)[OF lt]] show ?thesis
      unfolding eq u64_up(2)[OF lt] using more(1) by blast
  qed
qed

lemma first_met_down:
  assumes "stop \<le> height"
  shows "(\<exists>k \<in> dom (mdb_set_key T db). stop \<le> k \<and> k \<le> height \<and> (\<forall>j. k < j \<and> j \<le> height \<longrightarrow> j \<notin> dom (mdb_set_key T db)) \<and>
      first_met T db False height stop = Some (convert_mdb_val_to_checkpoint (stored T db k))) \<or>
    (\<forall>k. stop \<le> k \<and> k \<le> height \<longrightarrow> k \<notin> dom (mdb_set_key T db)) \<and> first_met T db False height stop = None"
  (is "?some height \<or> ?none height")
  using assms
proof (induction "unat (height - stop)" arbitrary: height rule: less_induct)
  case less
  consider (found) "height \<in> dom (mdb_set_key T db)" | (stop) "height \<notin> dom (mdb_set_key T db)" "height = stop"
    | (more) "height \<notin> dom (mdb_set_key T db)" "height \<noteq> stop" by blast
  then show ?case
  proof cases
    case found
    have "first_met T db False height stop = Some (convert_mdb_val_to_checkpoint (stored T db height))"
      using get_block_Some[OF found] by (cases "height = stop"; subst first_met_simps; simp)
    then show ?thesis using found less.prems by (intro disjI1 bexI[of _ height]) auto
  next
    case stop
    then have "first_met T db False height stop = None" by (subst first_met_simps) (simp add: get_block_None)
    then show ?thesis using stop by auto
  next
    case more
    have lt: "stop < height" using more less.prems by simp
    have eq: "first_met T db False height stop = first_met T db False (height - 1) stop"
      using more get_block_None[of T db height] by (subst first_met_simps) simp
    from less.hyps[OF u64_down(3,1)[OF lt]] show ?thesis
      unfolding eq u64_down(2)[OF lt] using more(1) by blast
  qed
qed

abbreviation checkpoint_at :: "'db lmdb \<Rightarrow> 'db \<Rightarrow> u64 \<Rightarrow> checkpoint_t" where
  "checkpoint_at T db k \<equiv> convert_mdb_val_to_checkpoint (stored T db k)"

definition within :: "'db lmdb \<Rightarrow> 'db \<Rightarrow> u64 \<Rightarrow> u64 \<Rightarrow> u64 list" where
  "within T db lo hi = filter (\<lambda>k. lo \<le> k \<and> k \<le> hi) (stored_heights T db)"

lemma keyed_stored: "keyed T db \<Longrightarrow> k \<in> dom (mdb_set_key T db) \<Longrightarrow> blk_height (stored T db k) = k"
  by (auto simp: keyed_def)

lemma filter_stored:
  assumes "keyed T db" "set ks \<subseteq> dom (mdb_set_key T db)"
  shows "filter (\<lambda>v. lo \<le> blk_height v \<and> blk_height v \<le> hi) (map (stored T db) ks) =
    map (stored T db) (filter (\<lambda>k. lo \<le> k \<and> k \<le> hi) ks)"
  using assms(2) by (induction ks) (auto simp: keyed_stored[OF assms(1)])

lemma collect_up:
  assumes "lmdb_laws T" "keyed T db" "lo \<le> hi" "1 \<le> n"
  shows "(case first_met T db True lo hi of None \<Rightarrow> []
      | Some cp \<Rightarrow> collect_range lo hi n [cp] (mdb_next T db (cp_height cp))) = take n (map (checkpoint_at T db) (within T db lo hi))"
proof -
  let ?hs = "stored_heights T db" and ?P = "\<lambda>k. lo \<le> k \<and> k \<le> hi"
  from first_met_up[OF assms(3), of T db] show ?thesis
  proof (elim disjE bexE conjE)
    assume none: "\<forall>k. lo \<le> k \<and> k \<le> hi \<longrightarrow> k \<notin> dom (mdb_set_key T db)" and f: "first_met T db True lo hi = None"
    have "within T db lo hi = []" unfolding within_def filter_empty_conv stored_heights_simps using none by blast
    then show ?thesis by (simp add: f)
  next
    fix k assume k: "k \<in> dom (mdb_set_key T db)" "lo \<le> k" "k \<le> hi" "\<forall>j. lo \<le> j \<and> j < k \<longrightarrow> j \<notin> dom (mdb_set_key T db)"
      and f: "first_met T db True lo hi = Some (checkpoint_at T db k)"
    have "filter ?P ?hs = k # filter ?P (filter (\<lambda>j. k < j) ?hs)"
      using k by (intro sorted_filter_first) auto
    moreover have "mdb_next T db k = map (stored T db) (filter (\<lambda>j. k < j) ?hs)" using assms(1) by (simp add: lmdb_laws_def)
    ultimately show ?thesis using assms(4)
      by (simp add: f keyed_stored[OF assms(2) k(1)] collect_range_eq within_def filter_stored[OF assms(2)] comp_def
          del: filter_filter)
  qed
qed

lemma collect_down:
  assumes "lmdb_laws T" "keyed T db" "lo \<le> hi" "1 \<le> n"
  shows "(case first_met T db False hi lo of None \<Rightarrow> []
      | Some cp \<Rightarrow> collect_range lo hi n [cp] (mdb_prev T db (cp_height cp))) = take n (map (checkpoint_at T db) (rev (within T db lo hi)))"
proof -
  let ?hs = "stored_heights T db" and ?P = "\<lambda>k. lo \<le> k \<and> k \<le> hi"
  from first_met_down[OF assms(3), of T db] show ?thesis
  proof (elim disjE bexE conjE)
    assume none: "\<forall>k. lo \<le> k \<and> k \<le> hi \<longrightarrow> k \<notin> dom (mdb_set_key T db)" and f: "first_met T db False hi lo = None"
    have "within T db lo hi = []" unfolding within_def filter_empty_conv stored_heights_simps using none by blast
    then show ?thesis by (simp add: f)
  next
    fix k assume k: "k \<in> dom (mdb_set_key T db)" "lo \<le> k" "k \<le> hi" "\<forall>j. k < j \<and> j \<le> hi \<longrightarrow> j \<notin> dom (mdb_set_key T db)"
      and f: "first_met T db False hi lo = Some (checkpoint_at T db k)"
    have "filter ?P ?hs = filter ?P (filter (\<lambda>j. j < k) ?hs) @ [k]"
      using k by (intro sorted_filter_last) auto
    moreover have "mdb_prev T db k = map (stored T db) (rev (filter (\<lambda>j. j < k) ?hs))"
      using assms(1) by (simp add: lmdb_laws_def rev_map)
    ultimately show ?thesis using assms(4)
      by (simp add: f keyed_stored[OF assms(2) k(1)] collect_range_eq within_def filter_stored[OF assms(2)] comp_def
          rev_filter del: filter_filter)
  qed
qed

abbreviation desired :: "nat \<Rightarrow> nat" where
  "desired n \<equiv> (if n = 0 then 2 ^ 64 - 1 else n)"

lemma clamp_bounds: "lo \<le> hi \<Longrightarrow> lo \<le> clamp v lo hi \<and> clamp v lo hi \<le> hi"
  by (auto simp: clamp_def)

lemma clamp_mono: "lo \<le> hi \<Longrightarrow> v \<le> w \<Longrightarrow> clamp v lo hi \<le> clamp w lo hi"
  by (auto simp: clamp_def)

lemma range_clamped:
  assumes "lmdb_laws T" "keyed T db" "dom (mdb_set_key T db) \<noteq> {}"
  defines "b \<equiv> hd (stored_heights T db)" and "t \<equiv> last (stored_heights T db)"
  shows "get_checkpoints_range T db start stop n = take (desired n) (map (checkpoint_at T db)
    (if clamp start b t \<le> clamp stop b t then within T db (clamp start b t) (clamp stop b t)
     else rev (within T db (clamp stop b t) (clamp start b t))))"
proof -
  have d: "b \<in> dom (mdb_set_key T db)" "t \<in> dom (mdb_set_key T db)"
    unfolding b_def t_def using hd_stored[OF assms(3)] last_stored[OF assms(3)] by auto
  have "b \<le> t" using stored_bounds[OF d(1)] by (simp add: t_def)
  note cb = clamp_bounds[OF this]
  have h: "cp_height (checkpoint_at T db b) = b" "cp_height (checkpoint_at T db t) = t"
    using keyed_stored[OF assms(2)] d by auto
  have top: "get_top_checkpoint T db = Some (checkpoint_at T db t)" "get_bottom_checkpoint T db = Some (checkpoint_at T db b)"
    using top_bottom[OF assms(1), of db] assms(3) get_block_Some[OF d(1)] get_block_Some[OF d(2)] by (simp_all add: b_def t_def)
  have n: "1 \<le> desired n" by simp
  have eq: "get_checkpoints_range T db start stop n =
      (case first_met T db (clamp stop b t \<ge> clamp start b t) (clamp start b t) (clamp stop b t) of None \<Rightarrow> []
       | Some cp \<Rightarrow> collect_range (min (clamp start b t) (clamp stop b t)) (max (clamp start b t) (clamp stop b t)) (desired n) [cp]
            (if clamp stop b t \<ge> clamp start b t then mdb_next T db (cp_height cp) else mdb_prev T db (cp_height cp)))"
    using cb[of start] unfolding get_checkpoints_range_def top option.case Let_def h first_met_def[symmetric] GET_ALL_CHECKPOINTS_def
    by (simp only: not_less[symmetric] if_False simp_thms if_cancel split: if_split)
  show ?thesis
  proof (cases "clamp start b t \<le> clamp stop b t")
    case True
    show ?thesis
      unfolding eq min_absorb1[OF True] max_absorb2[OF True]
      using collect_up[OF assms(1,2) True n] by (simp only: True if_True)
  next
    case False
    then have le: "clamp stop b t \<le> clamp start b t" by simp
    show ?thesis
      unfolding eq min_absorb2[OF le] max_absorb1[OF le]
      using collect_down[OF assms(1,2) le n] by (simp only: False if_False)
  qed
qed

lemma within_one:
  assumes "x \<in> dom (mdb_set_key T db)"
  shows "within T db x x = [x]"
proof -
  have "within T db x x = x # filter (\<lambda>k. x \<le> k \<and> k \<le> x) (filter (\<lambda>j. x < j) (stored_heights T db))"
    unfolding within_def using assms by (intro sorted_filter_first) auto
  then show ?thesis by (auto simp: filter_empty_conv)
qed

lemma within_empty: "(\<And>k. k \<in> dom (mdb_set_key T db) \<Longrightarrow> lo \<le> k \<Longrightarrow> \<not> k \<le> hi) \<Longrightarrow> within T db lo hi = []"
  unfolding within_def filter_empty_conv stored_heights_simps by blast

lemma within_single: "rev (within T db x x) = within T db x x"
proof (cases "x \<in> dom (mdb_set_key T db)")
  case False
  then have "within T db x x = []" by (intro within_empty) (metis antisym)
  then show ?thesis by simp
qed (simp add: within_one)

lemma within_cong:
  assumes "\<And>k. k \<in> dom (mdb_set_key T db) \<Longrightarrow> (lo \<le> k \<and> k \<le> hi) = (lo' \<le> k \<and> k \<le> hi')"
  shows "within T db lo hi = within T db lo' hi'"
  unfolding within_def using assms by (intro filter_cong) auto

lemma range_exact:
  assumes "lmdb_laws T" "keyed T db"
    and "x \<in> dom (mdb_set_key T db)" "min start stop \<le> x" "y \<in> dom (mdb_set_key T db)" "y \<le> max start stop"
  shows "get_checkpoints_range T db start stop n = take (if n = 0 then 2 ^ 64 - 1 else n) (map (checkpoint_at T db)
    (if start \<le> stop then within T db start stop else rev (within T db stop start)))"
proof -
  define b t where "b = hd (stored_heights T db)" and "t = last (stored_heights T db)"
  have ne: "dom (mdb_set_key T db) \<noteq> {}" using assms(3) by auto
  have bt: "b \<le> k \<and> k \<le> t" if "k \<in> dom (mdb_set_key T db)" for k
    unfolding b_def t_def using stored_bounds[OF that] .
  have "b \<le> t" using bt[OF assms(3)] by auto
  have w: "within T db (clamp lo b t) (clamp hi b t) = within T db lo hi" if "lo \<le> x" "y \<le> hi" for lo hi
  proof (rule within_cong)
    fix k assume "k \<in> dom (mdb_set_key T db)"
    from bt[OF this] show "(clamp lo b t \<le> k \<and> k \<le> clamp hi b t) = (lo \<le> k \<and> k \<le> hi)"
      using that bt[OF assms(3)] bt[OF assms(5)] by (auto simp: clamp_def)
  qed
  have r: "get_checkpoints_range T db start stop n = take (desired n) (map (checkpoint_at T db)
    (if clamp start b t \<le> clamp stop b t then within T db (clamp start b t) (clamp stop b t)
     else rev (within T db (clamp stop b t) (clamp start b t))))"
    unfolding b_def t_def by (rule range_clamped[OF assms(1,2) ne])
  show ?thesis
  proof (cases "start \<le> stop")
    case True
    then show ?thesis using r w[of start stop] clamp_mono[OF \<open>b \<le> t\<close> True] assms(4,6) by simp
  next
    case False
    then have le: "clamp stop b t \<le> clamp start b t" using clamp_mono[OF \<open>b \<le> t\<close>] by simp
    have "within T db (clamp stop b t) (clamp start b t) = within T db stop start"
      using w[of stop start] False assms(4,6) by simp
    then show ?thesis using r False le within_single[of T db "clamp start b t"]
      by (cases "clamp start b t \<le> clamp stop b t") (auto dest: antisym)
  qed
qed

text \<open>C22. For a range that is not entirely above or below the stored checkpoints, \<^const>\<open>get_checkpoints_range\<close> returns the
  first checkpoints of the range, as many as desired (all for zero), in ascending order of height, or
  in descending order when the range is given backwards.\<close>

theorem checkpoints_range_exact:
  assumes "lmdb_laws T" "keyed T db"
    and "x \<in> dom (mdb_set_key T db)" "min start stop \<le> x" "y \<in> dom (mdb_set_key T db)" "y \<le> max start stop"
  shows "get_checkpoints_range T db start stop n = take (if n = 0 then 2 ^ 64 - 1 else n) (map (checkpoint_at T db)
    (if start \<le> stop then within T db start stop else rev (within T db stop start)))"
  by (rule range_exact[OF assms])


section \<open>The immutable checkpoint\<close>

lemma immutable_exact:
  assumes "lmdb_laws T" "keyed T db" "y \<in> dom (mdb_set_key T db)" "y \<le> height"
  shows "get_immutable_checkpoint T db height =
    (case rev (within T db 0 height) of
       [] \<Rightarrow> None
     | k # ks \<Rightarrow> if blk_signatures (stored T db k) = [] then Some (checkpoint_at T db k)
                 else map_option (checkpoint_at T db) (if ks = [] then None else Some (hd ks)))"
proof -
  have "get_checkpoints_range T db height 0 2 = take 2 (map (checkpoint_at T db) (rev (within T db 0 height)))"
  proof (cases "height = 0")
    case True
    then show ?thesis using range_exact[OF assms(1,2), of y height 0 y 2] assms(3,4) by (simp add: within_single)
  next
    case False
    then show ?thesis using range_exact[OF assms(1,2), of y height 0 y 2] assms(3,4) by (simp add: word_le_0_iff)
  qed
  then show ?thesis
    unfolding get_immutable_checkpoint_def CHECKPOINT_NUM_CHECKPOINTS_FOR_CHAIN_FINALITY_def Let_def
    by (cases "rev (within T db 0 height)" rule: remdups_adj.cases) (auto simp: take_Cons')
qed

section \<open>Culling\<close>

text \<open>The heights that the loop removes: every fourth from where it starts, except the persistent ones.\<close>

definition culled :: "u64 \<Rightarrow> u64 \<Rightarrow> u64 \<Rightarrow> bool" where
  "culled start stop k \<longleftrightarrow> start \<le> k \<and> k < stop \<and> (unat k - unat start) mod 4 = 0 \<and> unat k mod 60 \<noteq> 0"

lemma every_fourth:
  fixes k s :: nat
  shows "s \<le> k \<and> (k - s) mod 4 = 0 \<longleftrightarrow> k = s \<or> (s + 4 \<le> k \<and> (k - (s + 4)) mod 4 = 0)"
proof (cases "s + 4 \<le> k")
  case True
  then have "k - s = (k - (s + 4)) + 4" by simp
  then have "(k - s) mod 4 = (k - (s + 4)) mod 4" by (simp only: mod_add_self2)
  then show ?thesis using True by simp
next
  case False
  then show ?thesis by auto
qed

lemma culled_step:
  assumes "unat start' = unat start + 4"
  shows "culled start stop k \<longleftrightarrow> (k = start \<and> start < stop \<and> unat start mod 60 \<noteq> 0) \<or> culled start' stop k"
  using every_fourth[of "unat start" "unat k"]
  unfolding culled_def word_le_nat_alt word_less_nat_alt word_unat_eq_iff assms by metis

lemma cull_loop_exact:
  assumes "lmdb_laws T" "unat stop \<le> 2 ^ 63"
  shows "\<exists>l db'. cull_loop T stop db start = Some (l, db') \<and>
    mdb_set_key T db' = (\<lambda>k. if culled start stop k then None else mdb_set_key T db k) \<and> stop \<le> l \<and> unat l mod 4 = unat start mod 4"
proof (induction "unat stop - unat start" arbitrary: db start rule: less_induct)
  case less
  show ?case
  proof (cases "start < stop")
    case False
    then have "culled start stop k = False" for k by (auto simp: culled_def)
    then show ?thesis using False by (subst cull_loop.simps) simp
  next
    case True
    define db1 where "db1 = (if start mod of_nat CHECKPOINT_STORE_PERSISTENTLY_INTERVAL = 0 then db else remove_block_checkpoint T db start)"
    have m: "(start mod of_nat CHECKPOINT_STORE_PERSISTENTLY_INTERVAL = 0) = (unat start mod 60 = 0)"
      by (simp add: CHECKPOINT_STORE_PERSISTENTLY_INTERVAL_def word_unat_eq_iff unat_mod)
    have s4: "unat (start + of_nat CHECKPOINT_INTERVAL) = unat start + 4"
      using True assms(2) by (simp add: CHECKPOINT_INTERVAL_def unat_word_ariths(1) word_less_nat_alt)
    have "unat stop - unat (start + of_nat CHECKPOINT_INTERVAL) < unat stop - unat start"
      using True by (simp add: s4 word_less_nat_alt)
    from less[OF this, of db1] obtain l db' where r: "cull_loop T stop db1 (start + of_nat CHECKPOINT_INTERVAL) = Some (l, db')"
      "mdb_set_key T db' = (\<lambda>k. if culled (start + of_nat CHECKPOINT_INTERVAL) stop k then None else mdb_set_key T db1 k)" "stop \<le> l"
      "unat l mod 4 = unat (start + of_nat CHECKPOINT_INTERVAL) mod 4"
      by blast
    have "cull_loop T stop db start = Some (l, db')" using True r(1) by (subst cull_loop.simps) (simp add: db1_def)
    moreover have "mdb_set_key T db' = (\<lambda>k. if culled start stop k then None else mdb_set_key T db k)"
      unfolding r(2) db1_def m culled_step[OF s4] using True by (auto simp: fun_eq_iff remove_stored[OF assms(1)])
    moreover have "unat l mod 4 = unat start mod 4" using r(4) unfolding s4 by simp
    ultimately show ?thesis using r(3) by blast
  qed
qed

lemma range_stored:
  assumes "lmdb_laws T" "keyed T db" "cp \<in> set (get_checkpoints_range T db start stop n)"
  shows "\<exists>k \<in> dom (mdb_set_key T db). cp = checkpoint_at T db k"
proof (cases "dom (mdb_set_key T db) = {}")
  case True
  then show ?thesis using assms(3) top_bottom(1)[OF assms(1), of db] by (simp add: get_checkpoints_range_def)
next
  case False
  have w: "set (within T db lo hi) \<subseteq> dom (mdb_set_key T db)" for lo hi
    unfolding within_def set_filter stored_heights_simps by blast
  define b t where "b = hd (stored_heights T db)" and "t = last (stored_heights T db)"
  define ks where "ks = (if clamp start b t \<le> clamp stop b t then within T db (clamp start b t) (clamp stop b t)
     else rev (within T db (clamp stop b t) (clamp start b t)))"
  have ks: "get_checkpoints_range T db start stop n = take (desired n) (map (checkpoint_at T db) ks)"
    "set ks \<subseteq> dom (mdb_set_key T db)"
    unfolding ks_def b_def t_def by (rule range_clamped[OF assms(1,2) False]) (simp add: w)
  then have "cp \<in> checkpoint_at T db ` set ks" using assms(3) in_set_takeD by fastforce
  then show ?thesis using ks(2) by blast
qed

lemma immutable_stored:
  assumes "lmdb_laws T" "keyed T db" "get_immutable_checkpoint T db height = Some cp"
  shows "cp_height cp \<in> dom (mdb_set_key T db)"
proof -
  let ?r = "get_checkpoints_range T db height 0 CHECKPOINT_NUM_CHECKPOINTS_FOR_CHAIN_FINALITY"
  have "cp \<in> set ?r"
    using assms(3) nth_mem[of 0 ?r] nth_mem[of 1 ?r]
    by (auto simp: get_immutable_checkpoint_def Let_def CHECKPOINT_NUM_CHECKPOINTS_FOR_CHAIN_FINALITY_def split: if_splits)
  then show ?thesis using range_stored[OF assms(1,2)] keyed_stored[OF assms(2)] by fastforce
qed

lemma update_stored:
  assumes "lmdb_laws T" "length (cp_signatures cp) \<le> CHECKPOINT_QUORUM_SIZE"
  shows "\<exists>c'. update_checkpoint T False c cp = Some (True, c') \<and>
    mdb_set_key T (m_db c') = (mdb_set_key T (m_db c))(cp_height cp \<mapsto>
      \<lparr>blk_height = cp_height cp, blk_hash = cp_hash cp, blk_signatures = cp_signatures cp\<rparr>) \<and>
    m_last_cull_height c' = m_last_cull_height c \<and> m_immutable_height c' = m_immutable_height c"
  using assms by (simp add: update_checkpoint_def update_block_checkpoint_def convert_checkpoint_into_buffer_def put_stored)

text \<open>Where culling ends and starts.\<close>

definition cull_end :: "'db lmdb \<Rightarrow> 'db checkpoints \<Rightarrow> u64 \<Rightarrow> u64" where
  "cull_end T c height = (case get_immutable_checkpoint T (m_db c) (height + 1) of None \<Rightarrow> 0 | Some cp \<Rightarrow> cp_height cp)"

definition cull_start :: "'db lmdb \<Rightarrow> 'db checkpoints \<Rightarrow> u64 \<Rightarrow> u64" where
  "cull_start T c height = max (m_last_cull_height c) (start_cull (cull_end T c height))"

lemma block_add_exact:
  assumes "lmdb_laws T" "keyed T (m_db c)" "\<forall>k \<in> dom (mdb_set_key T (m_db c)). unat k \<le> 2 ^ 63"
    and "60 \<le> unat height" "hf12_checkpointing \<le> version"
    and "\<forall>cp. info = Some cp \<longrightarrow> length (cp_signatures cp) \<le> CHECKPOINT_QUORUM_SIZE"
  shows "\<exists>c' kept. block_add T False c height version info = Some c' \<and>
    kept = (\<lambda>k. if culled (cull_start T c height) (cull_end T c height) k then None else mdb_set_key T (m_db c) k) \<and>
    mdb_set_key T (m_db c') = (case info of None \<Rightarrow> kept | Some cp \<Rightarrow> kept(cp_height cp \<mapsto>
       \<lparr>blk_height = cp_height cp, blk_hash = cp_hash cp, blk_signatures = cp_signatures cp\<rparr>)) \<and>
    cull_end T c height \<le> m_last_cull_height c' \<and>
    unat (m_last_cull_height c') mod 4 = unat (cull_start T c height) mod 4"
proof -
  have e: "unat (cull_end T c height) \<le> 2 ^ 63"
    using immutable_stored[OF assms(1,2)] assms(3) by (fastforce simp: cull_end_def split: option.split)
  from cull_loop_exact[OF assms(1) e, of "m_db c" "cull_start T c height"]
  obtain l db' where l: "cull_loop T (cull_end T c height) (m_db c) (cull_start T c height) = Some (l, db')"
    "mdb_set_key T db' = (\<lambda>k. if culled (cull_start T c height) (cull_end T c height) k then None else mdb_set_key T (m_db c) k)"
    "cull_end T c height \<le> l" "unat l mod 4 = unat (cull_start T c height) mod 4" by blast
  have h: "\<not> height < of_nat CHECKPOINT_STORE_PERSISTENTLY_INTERVAL" "\<not> version < hf12_checkpointing"
    using assms(4,5) by (auto simp: CHECKPOINT_STORE_PERSISTENTLY_INTERVAL_def word_less_nat_alt)
  let ?c = "c\<lparr>m_last_cull_height := l, m_db := db'\<rparr>"
  have eq: "block_add T False c height version info =
      (case info of None \<Rightarrow> Some ?c | Some cp \<Rightarrow> map_option snd (update_checkpoint T False ?c cp))"
    using h l(1) unfolding block_add_def cull_start_def cull_end_def[symmetric] Let_def by simp
  show ?thesis
  proof (cases info)
    case None
    then show ?thesis using l(2-4) eq by simp
  next
    case (Some cp)
    from update_stored[OF assms(1), of cp ?c] assms(6) Some obtain c' where
      "update_checkpoint T False ?c cp = Some (True, c')"
      "mdb_set_key T (m_db c') = (mdb_set_key T db')(cp_height cp \<mapsto>
         \<lparr>blk_height = cp_height cp, blk_hash = cp_hash cp, blk_signatures = cp_signatures cp\<rparr>)"
      "m_last_cull_height c' = l" by auto
    then show ?thesis using l(2-4) Some eq by simp
  qed
qed


section \<open>Detaching\<close>

lemma detach_loop_exact:
  assumes "lmdb_laws T"
  shows "mdb_set_key T (detach_loop T height db d) =
    (\<lambda>k. if height \<le> k \<and> 4 \<le> k \<and> k \<le> d \<and> (unat d - unat k) mod 4 = 0 then None else mdb_set_key T db k)"
proof (induction "unat d" arbitrary: db d rule: less_induct)
  case less
  have i: "of_nat CHECKPOINT_INTERVAL = (4 :: u64)" by (simp add: CHECKPOINT_INTERVAL_def)
  show ?case
  proof (cases "height \<le> d \<and> 4 \<le> d")
    case False
    then show ?thesis by (subst detach_loop.simps) (auto simp: i fun_eq_iff)
  next
    case True
    then have d4: "unat (d - 4) = unat d - 4" "4 \<le> unat d" by (simp_all add: unat_sub word_le_nat_alt)
    have "(k \<le> d \<and> (unat d - unat k) mod 4 = 0) \<longleftrightarrow> k = d \<or> (k \<le> d - 4 \<and> (unat (d - 4) - unat k) mod 4 = 0)" for k
    proof -
      have e: "(unat k + 4 \<le> unat d) = (unat k \<le> unat d - 4)" "unat d - (unat k + 4) = unat d - 4 - unat k"
        using d4(2) by linarith+
      show ?thesis
        unfolding word_le_nat_alt word_unat_eq_iff d4(1) every_fourth[of "unat k" "unat d"] e
        by (rule disj_cong[OF eq_commute refl])
    qed
    moreover have "mdb_set_key T (detach_loop T height (remove_block_checkpoint T db d) (d - 4)) =
      (\<lambda>k. if height \<le> k \<and> 4 \<le> k \<and> k \<le> d - 4 \<and> (unat (d - 4) - unat k) mod 4 = 0 then None
           else mdb_set_key T (remove_block_checkpoint T db d) k)"
      using d4 by (intro less) simp
    ultimately show ?thesis using True
      by (subst detach_loop.simps) (auto simp: i fun_eq_iff remove_stored[OF assms])
  qed
qed

lemma detached_exact:
  assumes "lmdb_laws T" "keyed T (m_db c)" "\<forall>k \<in> dom (mdb_set_key T (m_db c)). unat k mod 4 = 0"
  shows "mdb_set_key T (m_db (checkpoints_detached T False c height)) =
      (\<lambda>k. if height \<le> k \<and> 4 \<le> k then None else mdb_set_key T (m_db c) k)"
    "m_last_cull_height (checkpoints_detached T False c height) = min (m_last_cull_height c) height"
proof -
  let ?D = "dom (mdb_set_key T (m_db c))" and ?t = "last (stored_heights T (m_db c))"
  show "m_last_cull_height (checkpoints_detached T False c height) = min (m_last_cull_height c) height"
    by (simp add: checkpoints_detached_def Let_def split: option.split)
  show "mdb_set_key T (m_db (checkpoints_detached T False c height)) =
      (\<lambda>k. if height \<le> k \<and> 4 \<le> k then None else mdb_set_key T (m_db c) k)"
  proof (cases "?D = {}")
    case True
    then show ?thesis by (auto simp: checkpoints_detached_def Let_def top_bottom[OF assms(1)] fun_eq_iff)
  next
    case False
    have t: "?t \<in> ?D" by (rule last_stored[OF False])
    have "get_top_checkpoint T (m_db c) = Some (checkpoint_at T (m_db c) ?t)"
      using top_bottom(1)[OF assms(1)] False get_block_Some[OF t] by simp
    then have eq: "m_db (checkpoints_detached T False c height) = detach_loop T height (m_db c) ?t"
      using keyed_stored[OF assms(2) t] by (simp add: checkpoints_detached_def Let_def)
    have "k \<le> ?t \<and> (unat ?t - unat k) mod 4 = 0" if "k \<in> ?D" for k
      using stored_bounds[OF that] assms(3) t that by (simp add: mod_eq_0_iff_dvd dvd_diff_nat)
    then show ?thesis unfolding eq detach_loop_exact[OF assms(1)] by (fastforce simp: fun_eq_iff domIff)
  qed
qed


text \<open>C21. Adding a block removes exactly the checkpoints at every fourth height from where culling resumes up
  to the immutable checkpoint, except those at multiples of 60, and then stores the checkpoint of the
  block: the loop ends, and nothing at or above the immutable checkpoint is lost.\<close>

theorem block_add_culls:
  assumes "lmdb_laws T" "keyed T (m_db c)" "\<forall>k \<in> dom (mdb_set_key T (m_db c)). unat k \<le> 2 ^ 63"
    and "60 \<le> unat height" "hf12_checkpointing \<le> version"
    and "\<forall>cp. info = Some cp \<longrightarrow> length (cp_signatures cp) \<le> CHECKPOINT_QUORUM_SIZE"
  shows "\<exists>c'. block_add T False c height version info = Some c' \<and> keyed T (m_db c') \<and>
    (\<forall>k. info = None \<or> k \<noteq> cp_height (the info) \<longrightarrow> get_checkpoint T c' k =
       (if culled (cull_start T c height) (cull_end T c height) k then None else get_checkpoint T c k)) \<and>
    (\<forall>cp. info = Some cp \<longrightarrow> map_option cp_hash (get_checkpoint T c' (cp_height cp)) = Some (cp_hash cp)) \<and>
    (\<forall>k. culled (cull_start T c height) (cull_end T c height) k \<longrightarrow> k < cull_end T c height \<and> unat k mod 60 \<noteq> 0)"
proof -
  from block_add_exact[OF assms] obtain c' kept where
    c': "block_add T False c height version info = Some c'"
    and kept: "kept = (\<lambda>k. if culled (cull_start T c height) (cull_end T c height) k then None else mdb_set_key T (m_db c) k)"
    and db: "mdb_set_key T (m_db c') = (case info of None \<Rightarrow> kept | Some cp \<Rightarrow> kept(cp_height cp \<mapsto>
       \<lparr>blk_height = cp_height cp, blk_hash = cp_hash cp, blk_signatures = cp_signatures cp\<rparr>))"
    by blast
  have "keyed T (m_db c')"
    using assms(2) unfolding keyed_def db kept by (auto split: option.splits if_splits)
  moreover have "get_checkpoint T c' k = (if culled (cull_start T c height) (cull_end T c height) k then None else get_checkpoint T c k)"
    if "info = None \<or> k \<noteq> cp_height (the info)" for k
    using that by (cases info) (auto simp: get_checkpoint_def get_block_checkpoint_def db kept)
  moreover have "map_option cp_hash (get_checkpoint T c' (cp_height cp)) = Some (cp_hash cp)" if "info = Some cp" for cp
    using that by (simp add: get_checkpoint_def get_block_checkpoint_def db)
  moreover have "k < cull_end T c height \<and> unat k mod 60 \<noteq> 0" if "culled (cull_start T c height) (cull_end T c height) k" for k
    using that by (simp add: culled_def)
  ultimately show ?thesis using c' by blast
qed

text \<open>When the stored checkpoints are at multiples of 4, detaching the chain at a height removes exactly
  the checkpoints from that height on, save one at height 0.\<close>

lemma detach_removes:
  assumes "lmdb_laws T" "keyed T (m_db c)" "\<forall>k \<in> dom (mdb_set_key T (m_db c)). unat k mod 4 = 0"
  shows "get_checkpoint T (checkpoints_detached T False c height) k =
    (if height \<le> k \<and> k \<noteq> 0 then None else get_checkpoint T c k)"
proof -
  have z: "k \<noteq> 0 \<longleftrightarrow> 4 \<le> k" if "k \<in> dom (mdb_set_key T (m_db c))"
  proof -
    have "unat k mod 4 = 0" using assms(3) that by blast
    then have "unat k \<noteq> 0 \<longleftrightarrow> 4 \<le> unat k" by presburger
    then show ?thesis by (simp add: word_le_nat_alt unat_eq_zero)
  qed
  show ?thesis
    using z unfolding get_checkpoint_def get_block_checkpoint_def detached_exact(1)[OF assms]
    by (cases "mdb_set_key T (m_db c) k") auto
qed


section \<open>Alternative blocks\<close>

lemma alternative_exact:
  assumes "lmdb_laws T" "keyed T (m_db c)" "y \<in> dom (mdb_set_key T (m_db c))" "y \<le> height" "block \<noteq> 0"
  shows "fst (fst (is_alternative_block_allowed T c height block)) \<longleftrightarrow>
      m_immutable_height (snd (is_alternative_block_allowed T c height block)) < block"
    "m_immutable_height (snd (is_alternative_block_allowed T c height block)) =
      max (case get_immutable_checkpoint T (m_db c) height of None \<Rightarrow> 0 | Some cp \<Rightarrow> cp_height cp) (m_immutable_height c)"
proof -
  have "get_checkpoints_range T (m_db c) 0 height 1 = take 1 (map (checkpoint_at T (m_db c)) (within T (m_db c) 0 height))"
    using range_exact[OF assms(1,2,3) _ assms(3), of 0 height 1] assms(4) by simp
  moreover have "y \<in> set (within T (m_db c) 0 height)" using assms(3,4) by (auto simp: within_def)
  then obtain k ks where w: "within T (m_db c) 0 height = k # ks" by (cases "within T (m_db c) 0 height") auto
  moreover have "k \<in> dom (mdb_set_key T (m_db c))" "k \<le> height"
  proof -
    have "k \<in> set (within T (m_db c) 0 height)" using w by simp
    then show "k \<in> dom (mdb_set_key T (m_db c))" "k \<le> height" by (auto simp: within_def)
  qed
  ultimately have r: "get_checkpoints_range T (m_db c) 0 height 1 = [checkpoint_at T (m_db c) k]"
    "\<not> height < cp_height (checkpoint_at T (m_db c) k)" by (simp_all add: keyed_stored[OF assms(2)] leD)
  show "fst (fst (is_alternative_block_allowed T c height block)) \<longleftrightarrow>
      m_immutable_height (snd (is_alternative_block_allowed T c height block)) < block"
    "m_immutable_height (snd (is_alternative_block_allowed T c height block)) =
      max (case get_immutable_checkpoint T (m_db c) height of None \<Rightarrow> 0 | Some cp \<Rightarrow> cp_height cp) (m_immutable_height c)"
    using r assms(5) word_gt_0[of block] by (auto simp: is_alternative_block_allowed_def Let_def split: option.split)
qed

text \<open>The operations that change the object, in any order.\<close>

inductive cp_step :: "'db lmdb \<Rightarrow> 'db checkpoints \<Rightarrow> 'db checkpoints \<Rightarrow> bool" for T where
  add_block: "block_add T ro c height version info = Some c' \<Longrightarrow> cp_step T c c'"
| detach: "cp_step T c (checkpoints_detached T ro c height)"
| update: "update_checkpoint T ro c cp = Some (r, c') \<Longrightarrow> cp_step T c c'"
| alternative: "cp_step T c (snd (is_alternative_block_allowed T c height block))"

lemma keyed_update:
  assumes "lmdb_laws T" "keyed T (m_db c)" "update_checkpoint T ro c cp = Some (r, c')"
  shows "keyed T (m_db c')"
  using assms by (auto simp: update_checkpoint_def update_block_checkpoint_def convert_checkpoint_into_buffer_def
      put_stored keyed_def split: if_splits option.splits)

lemma keyed_remove: "lmdb_laws T \<Longrightarrow> keyed T db \<Longrightarrow> keyed T (remove_block_checkpoint T db k)"
  by (simp add: keyed_def remove_stored)

lemma keyed_cull:
  assumes "cull_loop T stop db start = Some r"
  shows "lmdb_laws T \<longrightarrow> keyed T db \<longrightarrow> keyed T (snd r)"
  using assms
proof (rule cull_loop.raw_induct[where P = "\<lambda>T stop db start r. lmdb_laws T \<longrightarrow> keyed T db \<longrightarrow> keyed T (snd r)", rotated])
  fix f and T :: "'a lmdb" and stop db start r
  assume IH: "\<And>(T :: 'a lmdb) stop db start r. f T stop db start = Some r \<Longrightarrow> lmdb_laws T \<longrightarrow> keyed T db \<longrightarrow> keyed T (snd r)"
    and r: "(if \<not> start < stop then Some (start, db)
      else f T stop (if start mod of_nat CHECKPOINT_STORE_PERSISTENTLY_INTERVAL = 0 then db else remove_block_checkpoint T db start)
        (start + of_nat CHECKPOINT_INTERVAL)) = Some r"
  show "lmdb_laws T \<longrightarrow> keyed T db \<longrightarrow> keyed T (snd r)"
  proof (cases "start < stop")
    case False
    then show ?thesis using r by auto
  next
    case True
    then show ?thesis using r IH keyed_remove[of T db start] by (auto split: if_splits)
  qed
qed

lemma keyed_detach_loop: "lmdb_laws T \<Longrightarrow> keyed T db \<Longrightarrow> keyed T (detach_loop T height db d)"
  by (simp add: keyed_def detach_loop_exact)

lemma cp_step_inv:
  assumes "lmdb_laws T" "cp_step T c c'" "keyed T (m_db c)"
  shows "keyed T (m_db c') \<and> m_immutable_height c \<le> m_immutable_height c'"
  using assms(2)
proof cases
  case (add_block ro height version info)
  let ?e = "case get_immutable_checkpoint T (m_db c) (height + 1) of None \<Rightarrow> 0 | Some cp \<Rightarrow> cp_height cp"
  show ?thesis
  proof (cases "ro \<or> height < of_nat CHECKPOINT_STORE_PERSISTENTLY_INTERVAL \<or> version < hf12_checkpointing")
    case True
    then have "block_add T ro c height version info = Some c" by (auto simp: block_add_def)
    then show ?thesis using add_block assms(3) by simp
  next
    case False
    then have "block_add T ro c height version info =
      (case cull_loop T ?e (m_db c) (max (m_last_cull_height c) (start_cull ?e)) of None \<Rightarrow> None
       | Some (l, db) \<Rightarrow> (case info of None \<Rightarrow> Some (c\<lparr>m_last_cull_height := l, m_db := db\<rparr>)
          | Some cp \<Rightarrow> map_option snd (update_checkpoint T ro (c\<lparr>m_last_cull_height := l, m_db := db\<rparr>) cp)))"
      unfolding block_add_def Let_def by (simp only: de_Morgan_disj if_False simp_thms)
    then obtain l db where l: "cull_loop T ?e (m_db c) (max (m_last_cull_height c) (start_cull ?e)) = Some (l, db)"
      and c': "(case info of None \<Rightarrow> Some (c\<lparr>m_last_cull_height := l, m_db := db\<rparr>)
        | Some cp \<Rightarrow> map_option snd (update_checkpoint T ro (c\<lparr>m_last_cull_height := l, m_db := db\<rparr>) cp)) = Some c'"
      using add_block by (cases "cull_loop T ?e (m_db c) (max (m_last_cull_height c) (start_cull ?e))") auto
    have k: "keyed T (m_db (c\<lparr>m_last_cull_height := l, m_db := db\<rparr>))" using keyed_cull[OF l] assms(1,3) by simp
    show ?thesis
    proof (cases info)
      case None
      then show ?thesis using c' k by auto
    next
      case (Some cp)
      then obtain r where u: "update_checkpoint T ro (c\<lparr>m_last_cull_height := l, m_db := db\<rparr>) cp = Some (r, c')"
        using c' by auto
      then show ?thesis using keyed_update[OF assms(1) k u] by (auto simp: update_checkpoint_def split: if_splits)
    qed
  qed
next
  case (detach ro height)
  then show ?thesis using assms(1,3)
    by (auto simp: checkpoints_detached_def Let_def keyed_detach_loop split: option.splits)
next
  case (update ro cp r)
  then show ?thesis using keyed_update[OF assms(1,3) update]
    by (auto simp: update_checkpoint_def split: if_splits)
next
  case (alternative height block)
  then show ?thesis using assms(3)
    by (auto simp: is_alternative_block_allowed_def Let_def split: option.splits if_splits)
qed

lemma cp_steps_inv:
  assumes "lmdb_laws T" "(cp_step T)\<^sup>*\<^sup>* c c'" "keyed T (m_db c)"
  shows "keyed T (m_db c') \<and> m_immutable_height c \<le> m_immutable_height c'"
  using assms(2)
proof (induction rule: rtranclp_induct)
  case (step c1 c2)
  then show ?case using cp_step_inv[OF assms(1) step.hyps(2)] by auto
qed (simp add: assms(3))

text \<open>C12. Once an alternative block at a height was refused for being at or below the immutable height, every
  alternative block at that height or below is refused after any further operations, as long as the
  table holds a checkpoint at or below the height of the chain.\<close>

theorem refused_forever:
  assumes "lmdb_laws T" "keyed T (m_db c)" "y \<in> dom (mdb_set_key T (m_db c))" "y \<le> height"
    and "is_alternative_block_allowed T c height block = ((False, sn), c1)"
    and "(cp_step T)\<^sup>*\<^sup>* c1 c2" "z \<in> dom (mdb_set_key T (m_db c2))" "z \<le> height'" "block' \<le> block"
  shows "\<not> fst (fst (is_alternative_block_allowed T c2 height' block'))"
proof (cases "block' = 0")
  case True
  then show ?thesis by (simp add: is_alternative_block_allowed_def)
next
  case False
  then have "block \<noteq> 0" using assms(9) by (metis word_le_0_iff)
  from alternative_exact(1)[OF assms(1-4) this] assms(5) have b: "block \<le> m_immutable_height c1" by simp
  have "cp_step T c c1" using cp_step.alternative[of T c height block] assms(5) by simp
  then have "keyed T (m_db c1)" using cp_step_inv[OF assms(1) _ assms(2)] by blast
  note inv = cp_steps_inv[OF assms(1,6) this]
  note alt = alternative_exact[OF assms(1) conjunct1[OF inv] assms(7,8) False]
  have "block' \<le> m_immutable_height (snd (is_alternative_block_allowed T c2 height' block'))"
    unfolding alt(2) using b inv assms(9) by (intro max.coboundedI2) (meson order_trans)
  then show ?thesis unfolding alt(1) by (simp add: not_less)
qed

text \<open>A checkpoint that passes the verification fits the buffer of the table: storing it is defined,
  and reading it back gives its height, hash, signatures and kind, with every other height unchanged.\<close>

lemma verified_checkpoint_stored:
  assumes "lmdb_laws T" "verify_checkpoint check_signature version cp q = Some True"
  shows "\<exists>c' cp'. update_checkpoint T False c cp = Some (True, c') \<and> get_checkpoint T c' (cp_height cp) = Some cp' \<and>
    cp_height cp' = cp_height cp \<and> cp_hash cp' = cp_hash cp \<and> cp_signatures cp' = cp_signatures cp \<and>
    (cp_type cp' = service_node \<longleftrightarrow> cp_type cp = service_node) \<and>
    (\<forall>k. k \<noteq> cp_height cp \<longrightarrow> get_checkpoint T c' k = get_checkpoint T c k)"
proof -
  have l: "length (cp_signatures cp) \<le> CHECKPOINT_QUORUM_SIZE" "cp_type cp = service_node \<longleftrightarrow> cp_signatures cp \<noteq> []"
    using assms(2) by (auto simp: verify_checkpoint_def verify_quorum_signatures_def CHECKPOINT_MIN_VOTES_def Let_def split: if_splits)
  from update_stored[OF assms(1) l(1), of c] obtain c' where
    "update_checkpoint T False c cp = Some (True, c')"
    "mdb_set_key T (m_db c') = (mdb_set_key T (m_db c))(cp_height cp \<mapsto>
      \<lparr>blk_height = cp_height cp, blk_hash = cp_hash cp, blk_signatures = cp_signatures cp\<rparr>)" by blast
  then show ?thesis using l(2) by (auto simp: get_checkpoint_def get_block_checkpoint_def)
qed

section \<open>A store\<close>

text \<open>A map from heights satisfies the laws of the store; the examples below use it.\<close>

definition map_lmdb :: "(u64 \<rightharpoonup> blk_checkpoint) lmdb" where
  "map_lmdb =
     \<lparr>mdb_set_key = \<lambda>m. m, mdb_put = \<lambda>m k v. m(k \<mapsto> v), mdb_del = \<lambda>m k. m(k := None),
      mdb_first = \<lambda>m. if dom m = {} then None else m (hd (sorted_list_of_set (dom m))),
      mdb_last = \<lambda>m. if dom m = {} then None else m (last (sorted_list_of_set (dom m))),
      mdb_next = \<lambda>m k. map (the \<circ> m) (filter (\<lambda>j. k < j) (sorted_list_of_set (dom m))),
      mdb_prev = \<lambda>m k. rev (map (the \<circ> m) (filter (\<lambda>j. j < k) (sorted_list_of_set (dom m))))\<rparr>"

lemma map_lmdb_set_key [simp]: "mdb_set_key map_lmdb = (\<lambda>m. m)"
  by (simp add: map_lmdb_def)

lemma map_lmdb_laws: "lmdb_laws map_lmdb"
  unfolding lmdb_laws_def stored_heights_Nil
  by (simp add: stored_heights_def map_lmdb_def o_def)

text \<open>Checkpoints at the heights 0 (hard coded), 4, 8 and 12.\<close>

definition demo_blk :: "u64 \<Rightarrow> blk_checkpoint" where
  "demo_blk k = \<lparr>blk_height = k, blk_hash = [ucast k],
     blk_signatures = (if k = 0 then [] else [\<lparr>voter_index = 0, voter_signature = []\<rparr>])\<rparr>"

definition demo_table :: "u64 \<rightharpoonup> blk_checkpoint" where
  "demo_table = [0 \<mapsto> demo_blk 0, 4 \<mapsto> demo_blk 4, 8 \<mapsto> demo_blk 8, 12 \<mapsto> demo_blk 12]"

lemma demo_table_dom: "dom demo_table = {0, 4, 8, 12}"
  by (auto simp: demo_table_def)

lemma demo_table_at:
  "demo_table 0 = Some (demo_blk 0)" "demo_table 4 = Some (demo_blk 4)" "demo_table 8 = Some (demo_blk 8)"
  "demo_table 12 = Some (demo_blk 12)"
  by (simp_all add: demo_table_def)

lemma demo_table_keyed: "keyed map_lmdb demo_table"
  by (auto simp: keyed_def demo_table_def demo_blk_def split: if_splits)

lemma demo_stored_heights: "stored_heights map_lmdb demo_table = [0, 4, 8, 12]"
  by (simp add: stored_heights_def demo_table_dom sorted_list_of_set_insert_remove)

theorem checkpoints_range_exact_witness:
  "map cp_height (get_checkpoints_range map_lmdb demo_table 100 3 2) = [12, 8]"
proof -
  have "get_checkpoints_range map_lmdb demo_table 100 3 2 = take (if (2::nat) = 0 then 2 ^ 64 - 1 else 2)
      (map (checkpoint_at map_lmdb demo_table)
        (if (100::u64) \<le> 3 then within map_lmdb demo_table 100 3 else rev (within map_lmdb demo_table 3 100)))"
    by (rule checkpoints_range_exact[OF map_lmdb_laws demo_table_keyed, of 8 _ _ 4]) (simp_all add: demo_table_dom)
  then show ?thesis
    by (simp add: within_def demo_stored_heights demo_table_at demo_blk_def)
qed



definition demo_object :: "u64 \<Rightarrow> (u64 \<rightharpoonup> blk_checkpoint) checkpoints" where
  "demo_object last_cull = \<lparr>m_nettype = MAINNET, m_last_cull_height = last_cull, m_immutable_height = 0, m_db = demo_table\<rparr>"

lemma demo_object_simps [simp]: "m_db (demo_object n) = demo_table" "m_last_cull_height (demo_object n) = n"
  by (simp_all add: demo_object_def)

lemma demo_immutable:
  "12 \<le> height \<Longrightarrow> get_immutable_checkpoint map_lmdb demo_table height = Some (convert_mdb_val_to_checkpoint (demo_blk 8))"
  using immutable_exact[OF map_lmdb_laws demo_table_keyed, of 0 height] order_trans[of _ 12 height]
  by (simp add: demo_table_dom within_def demo_stored_heights demo_table_at demo_blk_def)

lemma demo_cull_end: "cull_end map_lmdb (demo_object n) 60 = 8"
  by (simp add: cull_end_def demo_immutable demo_blk_def)

lemma demo_cull_start: "cull_start map_lmdb (demo_object 0) 60 = 0"
  by (simp add: cull_start_def demo_cull_end start_cull_def CHECKPOINT_STORE_PERSISTENTLY_INTERVAL_def
      CHECKPOINT_INTERVAL_def)

theorem block_add_culls_witness:
  "\<exists>c. block_add map_lmdb False (demo_object 0) 60 hf19_reward_batching None = Some c \<and>
     get_checkpoint map_lmdb c 4 = None \<and>
     get_checkpoint map_lmdb c 8 = Some (convert_mdb_val_to_checkpoint (demo_blk 8))"
proof -
  have h: "keyed map_lmdb (m_db (demo_object 0))"
    "\<forall>k\<in>dom (mdb_set_key map_lmdb (m_db (demo_object 0))). unat k \<le> 2 ^ 63"
    "60 \<le> unat (60 :: u64)" "hf12_checkpointing \<le> hf19_reward_batching"
    by (simp_all add: demo_table_keyed demo_table_dom less_eq_hf_def)
  from block_add_culls[OF map_lmdb_laws h, of None, unfolded demo_cull_start demo_cull_end]
  obtain c where c: "block_add map_lmdb False (demo_object 0) 60 hf19_reward_batching None = Some c"
    "\<And>k. get_checkpoint map_lmdb c k = (if culled 0 8 k then None else get_checkpoint map_lmdb (demo_object 0) k)"
    by auto
  have "get_checkpoint map_lmdb c 4 = None" unfolding c(2) by (simp add: culled_def)
  moreover have "get_checkpoint map_lmdb c 8 = Some (convert_mdb_val_to_checkpoint (demo_blk 8))"
    unfolding c(2) by (simp add: culled_def get_checkpoint_def get_block_checkpoint_def demo_table_at)
  ultimately show ?thesis using c(1) by blast
qed


theorem refused_forever_witness:
  "\<exists>sn c. is_alternative_block_allowed map_lmdb (demo_object 0) 20 6 = ((False, sn), c) \<and>
     \<not> fst (fst (is_alternative_block_allowed map_lmdb (checkpoints_detached map_lmdb False c 6) 20 6))"
proof -
  obtain ok sn c where r: "is_alternative_block_allowed map_lmdb (demo_object 0) 20 6 = ((ok, sn), c)"
    by (metis surj_pair)
  have alt: "ok \<longleftrightarrow> m_immutable_height c < 6" "m_immutable_height c = max 8 (m_immutable_height (demo_object 0))"
    using alternative_exact[OF map_lmdb_laws, of "demo_object 0" 0 20 6] demo_table_keyed
    by (simp_all add: demo_table_dom r demo_immutable demo_blk_def)
  have nok: "\<not> ok" using alt by (simp add: demo_object_def)
  have db: "m_db c = demo_table"
    using r by (auto simp: is_alternative_block_allowed_def Let_def split: if_splits prod.splits)
  have k: "keyed map_lmdb (m_db c)" "\<forall>k\<in>dom (mdb_set_key map_lmdb (m_db c)). unat k mod 4 = 0"
    by (simp_all add: db demo_table_keyed demo_table_dom)
  have "0 \<in> dom (mdb_set_key map_lmdb (m_db (checkpoints_detached map_lmdb False c 6)))"
    unfolding detached_exact(1)[OF map_lmdb_laws k] by (simp add: db demo_table_at domIff)
  then have "\<not> fst (fst (is_alternative_block_allowed map_lmdb (checkpoints_detached map_lmdb False c 6) 20 6))"
    using r nok
    by (intro refused_forever[OF map_lmdb_laws, of "demo_object 0" 0 20 6 sn c])
      (auto simp: demo_table_keyed demo_table_dom intro: cp_step.detach)
  then show ?thesis using r nok by auto
qed

end
