(* ===== verification/Base58.thy ===== *)
theory Base58
  imports Varint Int_Util
begin

text \<open>
  The base 58 text encoding of \<^verbatim>\<open>src/common/base58.cpp\<close>: blocks of at most eight bytes are written as
  fixed width base 58 numbers, and addresses carry a varint tag and a four byte checksum.  Data are
  byte lists, encoded text is a \<open>string\<close>.  The hash function \<^verbatim>\<open>cn_fast_hash\<close> is an argument of the
  two address functions.
\<close>

section \<open>Tables\<close>

definition alphabet :: string where
  "alphabet = ''123456789ABCDEFGHJKLMNPQRSTUVWXYZabcdefghijkmnopqrstuvwxyz''"

definition full_block_size :: nat where
  "full_block_size = 8"

definition encoded_block_sizes :: "nat list" where
  "encoded_block_sizes = [0, 2, 3, 5, 6, 7, 9, 10, 11]"

definition full_encoded_block_size :: nat where
  "full_encoded_block_size = last encoded_block_sizes"

definition decoded_block_sizes :: "int list" where
  "decoded_block_sizes = [0, -1, 1, 2, -1, 3, 4, 5, -1, 6, 7, 8]"

definition addr_checksum_size :: nat where
  "addr_checksum_size = 4"

text \<open>The constructor of \<^verbatim>\<open>reverse_alphabet_table\<close>: -1 everywhere, then the index of each letter.\<close>

definition from_b58_lut :: "char \<Rightarrow> int" where
  "from_b58_lut = fold (\<lambda>i lut. lut(alphabet ! i := int i)) [0..<length alphabet] (\<lambda>_. -1)"

section \<open>Blocks\<close>

text \<open>Big endian conversion between at most eight bytes and a 64 bit number.\<close>

definition uint_8be_to_64 :: "bytes \<Rightarrow> u64" where
  "uint_8be_to_64 data = foldl (\<lambda>n b. n * 256 + ucast b) 0 data"

primrec uint_64_to_8be :: "u64 \<Rightarrow> nat \<Rightarrow> bytes" where
  "uint_64_to_8be num 0 = []"
| "uint_64_to_8be num (Suc n) = uint_64_to_8be (num div 256) n @ [ucast num]"

text \<open>The digit loop of \<^verbatim>\<open>encode_block\<close> writes from the right end of \<^term>\<open>res\<close>, the part of the
  output buffer that belongs to the block; a write outside of it is \<^term>\<open>None\<close>.\<close>

function encode_loop :: "u64 \<Rightarrow> int \<Rightarrow> string \<Rightarrow> string option" where
  "encode_loop num i res =
     (if 0 < num then
        let remainder = num mod of_nat (length alphabet) in
        (if 0 \<le> i \<and> i < int (length res)
         then encode_loop (num div of_nat (length alphabet)) (i - 1) (res[nat i := alphabet ! unat remainder])
         else None)
      else Some res)"
  by pat_completeness auto
termination
  by (relation "measure (\<lambda>(num, i, res). unat num)")
    (auto simp: alphabet_def unat_div word_gt_0 unat_gt_0)
declare encode_loop.simps [simp del]

definition encode_block :: "bytes \<Rightarrow> string \<Rightarrow> string option" where
  "encode_block block res =
     encode_loop (uint_8be_to_64 block) (int (encoded_block_sizes ! length block) - 1) res"

text \<open>The loop of \<^verbatim>\<open>decode_block\<close> runs over the letters from the last to the first.\<close>

fun decode_loop :: "string \<Rightarrow> u64 \<Rightarrow> u64 \<Rightarrow> u64 option" where
  "decode_loop [] res_num order = Some res_num"
| "decode_loop (c # cs) res_num order =
     (let digit = from_b58_lut c in
      if digit < 0 then None
      else
        let (lo, product_hi) = mul128 order (of_int digit);
            tmp = res_num + lo
        in if tmp < res_num \<or> 0 \<noteq> product_hi then None
           else decode_loop cs tmp (order * of_nat (length alphabet)))"

definition decode_block :: "string \<Rightarrow> bytes option" where
  "decode_block block =
     (let res_size = decoded_block_sizes ! length block in
      if res_size \<le> 0 then None
      else case decode_loop (rev block) 0 1 of
          None \<Rightarrow> None
        | Some res_num \<Rightarrow>
            if nat res_size < full_block_size \<and> push_bit (8 * nat res_size) 1 \<le> res_num then None
            else Some (uint_64_to_8be res_num (nat res_size)))"

section \<open>Strings\<close>

fun encode_full_blocks :: "nat \<Rightarrow> bytes \<Rightarrow> string option" where
  "encode_full_blocks 0 data = Some []"
| "encode_full_blocks (Suc n) data =
     (case encode_block (take full_block_size data) (replicate full_encoded_block_size (alphabet ! 0)) of
        None \<Rightarrow> None
      | Some e \<Rightarrow> map_option ((@) e) (encode_full_blocks n (drop full_block_size data)))"

definition encode :: "bytes \<Rightarrow> string option" where
  "encode data =
     (if data = [] then Some []
      else
        let full_block_count = length data div full_block_size;
            last_block_size = length data mod full_block_size
        in case encode_full_blocks full_block_count data of
             None \<Rightarrow> None
           | Some res \<Rightarrow>
               if 0 < last_block_size
               then map_option ((@) res)
                      (encode_block (drop (full_block_count * full_block_size) data)
                        (replicate (encoded_block_sizes ! last_block_size) (alphabet ! 0)))
               else Some res)"

fun decode_full_blocks :: "nat \<Rightarrow> string \<Rightarrow> bytes option" where
  "decode_full_blocks 0 enc = Some []"
| "decode_full_blocks (Suc n) enc =
     (case decode_block (take full_encoded_block_size enc) of
        None \<Rightarrow> None
      | Some d \<Rightarrow> map_option ((@) d) (decode_full_blocks n (drop full_encoded_block_size enc)))"

definition decode :: "string \<Rightarrow> bytes option" where
  "decode enc =
     (if enc = [] then Some []
      else
        let full_block_count = length enc div full_encoded_block_size;
            last_block_size = length enc mod full_encoded_block_size;
            last_block_decoded_size = decoded_block_sizes ! last_block_size
        in if last_block_decoded_size < 0 then None
           else case decode_full_blocks full_block_count enc of
               None \<Rightarrow> None
             | Some data \<Rightarrow>
                 if 0 < last_block_size
                 then map_option ((@) data)
                        (decode_block (drop (full_block_count * full_encoded_block_size) enc))
                 else Some data)"

section \<open>Addresses\<close>

definition encode_addr :: "(bytes \<Rightarrow> bytes) \<Rightarrow> u64 \<Rightarrow> bytes \<Rightarrow> string option" where
  "encode_addr cn_fast_hash tag data =
     (let buf = write_varint tag @ data
      in encode (buf @ take addr_checksum_size (cn_fast_hash buf)))"

definition decode_addr :: "(bytes \<Rightarrow> bytes) \<Rightarrow> string \<Rightarrow> (u64 \<times> bytes) option" where
  "decode_addr cn_fast_hash addr =
     (case decode addr of
        None \<Rightarrow> None
      | Some addr_data \<Rightarrow>
          if length addr_data \<le> addr_checksum_size then None
          else
            let checksum = drop (length addr_data - addr_checksum_size) addr_data;
                body = take (length addr_data - addr_checksum_size) addr_data;
                expected_checksum = take addr_checksum_size (cn_fast_hash body)
            in if expected_checksum \<noteq> checksum then None
               else case read_varint body of
                   (n, tag, rest) \<Rightarrow> if n \<le> 0 then None else Some (tag, drop (nat n) body))"

section \<open>Digits\<close>

text \<open>The reference: \<^term>\<open>n\<close> as exactly \<^term>\<open>i\<close> base 58 digits.\<close>

primrec b58 :: "nat \<Rightarrow> nat \<Rightarrow> string" where
  "b58 0 n = []"
| "b58 (Suc i) n = b58 i (n div 58) @ [alphabet ! (n mod 58)]"

definition be_nat :: "bytes \<Rightarrow> nat" where
  "be_nat bs = foldl (\<lambda>n b. n * 256 + unat b) 0 bs"

lemma length_alphabet: "length alphabet = 58"
  by (simp add: alphabet_def)

lemma distinct_alphabet: "distinct alphabet"
  by (simp add: alphabet_def)

lemma lut_fold:
  assumes "distinct xs" "n \<le> length xs"
  shows "fold (\<lambda>i lut. lut(xs ! i := int i)) [0..<n] (\<lambda>_. -1) c
    = (if \<exists>i<n. xs ! i = c then int (THE i. i < n \<and> xs ! i = c) else -1)"
  using assms(2)
proof (induction n)
  case (Suc n)
  let ?f = "fold (\<lambda>i lut. lut(xs ! i := int i)) [0..<n] (\<lambda>_. -1)"
  show ?case
  proof (cases "xs ! n = c")
    case True
    then have "(THE i. i < Suc n \<and> xs ! i = c) = n"
      using Suc.prems assms(1) by (intro the_equality) (auto simp: nth_eq_iff_index_eq)
    then show ?thesis using True by auto
  next
    case False
    then have "(\<lambda>i. i < Suc n \<and> xs ! i = c) = (\<lambda>i. i < n \<and> xs ! i = c)"
      by (auto simp: less_Suc_eq)
    then show ?thesis using Suc False by (auto simp: less_Suc_eq)
  qed
qed simp

lemma lut_alphabet:
  assumes "d < 58"
  shows "from_b58_lut (alphabet ! d) = int d"
proof -
  have "(THE i. i < length alphabet \<and> alphabet ! i = alphabet ! d) = d"
    using assms distinct_alphabet by (intro the_equality) (auto simp: length_alphabet nth_eq_iff_index_eq)
  then show ?thesis
    using assms unfolding from_b58_lut_def
    by (subst lut_fold[OF distinct_alphabet order_refl]) (auto simp: length_alphabet)
qed

lemma lut_letter:
  assumes "\<not> from_b58_lut c < 0"
  obtains d where "d < 58" "c = alphabet ! d" "from_b58_lut c = int d"
proof -
  have "\<exists>i < length alphabet. alphabet ! i = c"
    using assms unfolding from_b58_lut_def
    by (subst (asm) lut_fold[OF distinct_alphabet order_refl]) (auto split: if_splits)
  then obtain d where "d < 58" "c = alphabet ! d" by (auto simp: length_alphabet)
  then show thesis using that lut_alphabet by blast
qed

lemma length_b58 [simp]: "length (b58 i n) = i"
  by (induction i arbitrary: n) auto

lemma b58_zero: "b58 i 0 = replicate i (alphabet ! 0)"
  by (induction i) (auto simp flip: replicate_append_same)

lemma encode_loop_b58:
  assumes "unat num < 58 ^ i"
  shows "encode_loop num (int i - 1) (replicate i (alphabet ! 0) @ suf) = Some (b58 i (unat num) @ suf)"
  using assms
proof (induction i arbitrary: num suf)
  case 0
  then have "num = 0" by (simp add: unat_eq_0)
  then show ?case by (subst encode_loop.simps) simp
next
  case (Suc i)
  show ?case
  proof (cases "num = 0")
    case True
    then show ?thesis by (subst encode_loop.simps) (simp only: unat_0 b58_zero if_False less_irrefl)
  next
    case False
    let ?d = "alphabet ! unat (num mod 58)"
    have q: "unat (num div 58) = unat num div 58" by (simp add: unat_div)
    have m: "unat (num mod 58) = unat num mod 58" by (simp add: unat_mod)
    have "unat (num div 58) < 58 ^ i"
      using Suc.prems by (simp add: q less_mult_imp_div_less mult.commute)
    note IH = Suc.IH[OF this, of "?d # suf"]
    have upd: "(replicate (Suc i) (alphabet ! 0) @ suf)[i := ?d] = replicate i (alphabet ! 0) @ ?d # suf"
      by (simp add: list_update_append flip: replicate_append_same)
    have "encode_loop num (int (Suc i) - 1) (replicate (Suc i) (alphabet ! 0) @ suf)
        = encode_loop (num div 58) (int i - 1) ((replicate (Suc i) (alphabet ! 0) @ suf)[i := ?d])"
      using False by (subst encode_loop.simps) (simp add: length_alphabet word_gt_0 Let_def)
    also have "\<dots> = Some (b58 (Suc i) (unat num) @ suf)"
      unfolding upd IH by (simp add: q m)
    finally show ?thesis .
  qed
qed

lemma mul128_digit:
  assumes "d < 58" "mul128 order (of_int (int d)) = (lo, hi)"
  shows "unat lo = unat order * d mod 2 ^ 64" "(hi = 0) = (unat order * d < 2 ^ 64)"
proof -
  have d: "unat (of_int (int d) :: u64) = d" using assms(1) by (simp add: unat_of_nat)
  show "unat lo = unat order * d mod 2 ^ 64"
    using mul128_unat(1)[of order "of_int (int d)"] unfolding assms(2) d by simp
  have "unat hi = unat order * d div 2 ^ 64"
    using mul128_unat(2)[of order "of_int (int d)"] unfolding assms(2) d by simp
  then show "(hi = 0) = (unat order * d < 2 ^ 64)"
    by (metis div_eq_0_iff power_not_zero unat_eq_0 zero_neq_numeral)
qed

lemma u64_of_nat: "n < 2 ^ 64 \<Longrightarrow> unat (of_nat n :: u64) = n"
  by (simp add: unat_of_nat)

lemma u64_add_small:
  assumes "unat (x :: u64) + unat y < 2 ^ 64"
  shows "unat (x + y) = unat x + unat y" "\<not> x + y < x"
  using assms carry_add[of x y] u64_less[of "x + y"] by (auto split: if_splits)

lemma decode_loop_digit:
  assumes "d < 58" "mul128 order (of_int (int d)) = (lo, hi)"
  shows "decode_loop (alphabet ! d # cs) res order
    = (if res + lo < res \<or> 0 \<noteq> hi then None else decode_loop cs (res + lo) (order * 58))"
  using assms(2) by (simp add: lut_alphabet[OF assms(1)] length_alphabet)

lemma order_next: "of_nat (58 ^ k) * (58 :: u64) = of_nat (58 ^ Suc k)"
  by simp

lemma decode_loop_b58:
  assumes "unat res + 58 ^ k * n < 2 ^ 64" "n < 58 ^ i"
  shows "decode_loop (rev (b58 i n)) res (of_nat (58 ^ k)) = Some (res + of_nat (58 ^ k * n))"
  using assms
proof (induction i arbitrary: n res k)
  case (Suc i)
  define d q where "d = n mod 58" and "q = n div 58"
  have n: "n = 58 * q + d" by (simp add: d_def q_def)
  have d58: "d < 58" by (simp add: d_def)
  obtain lo hi where m: "mul128 (of_nat (58 ^ k)) (of_int (int d)) = (lo, hi)" by fastforce
  have split: "unat res + 58 ^ k * d + 58 ^ Suc k * q < 2 ^ 64"
    using Suc.prems(1) unfolding n by (simp add: algebra_simps)
  have ord: "unat (of_nat (58 ^ k) :: u64) * d = 58 ^ k * d"
  proof (cases "d = 0")
    case False
    then have "58 ^ k * 1 \<le> 58 ^ k * d" by (intro mult_le_mono2) simp
    then have "(58 :: nat) ^ k < 2 ^ 64" using split by linarith
    then have "unat (of_nat (58 ^ k) :: u64) = 58 ^ k" by (intro u64_of_nat) simp
    then show ?thesis by (simp only:)
  qed simp
  note md = mul128_digit[OF d58 m, unfolded ord]
  have lt: "58 ^ k * d < 2 ^ 64" using split by linarith
  have lo: "unat lo = 58 ^ k * d" unfolding md(1) using lt by simp
  have hi: "hi = 0" using md(2) lt by blast
  have add: "unat res + unat lo < 2 ^ 64" unfolding lo using split by linarith
  note tmp = u64_add_small[OF add]
  have q: "q < 58 ^ i"
    using Suc.prems(2) by (simp add: q_def less_mult_imp_div_less mult.commute)
  have "unat (res + lo) + 58 ^ Suc k * q < 2 ^ 64" unfolding tmp lo using split .
  note IH = Suc.IH[OF this q]
  have lo_w: "lo = of_nat (58 ^ k * d)"
    unfolding lo[symmetric] by simp
  have sum: "res + lo + of_nat (58 ^ Suc k * q) = res + of_nat (58 ^ k * n)"
    unfolding lo_w n by (simp add: algebra_simps)
  have "decode_loop (rev (b58 (Suc i) n)) res (of_nat (58 ^ k))
      = decode_loop (rev (b58 i q)) (res + lo) (of_nat (58 ^ Suc k))"
    using tmp(2) hi by (simp only: b58.simps rev_append rev.simps append.simps
        decode_loop_digit[OF d58 m] order_next flip: d_def q_def) simp
  then show ?case by (simp only: IH sum)
qed simp

lemma decode_loop_canonical:
  assumes "decode_loop cs res (of_nat (58 ^ k)) = Some r" "k + length cs \<le> 11"
  shows "\<exists>n. n < 58 ^ length cs \<and> cs = rev (b58 (length cs) n) \<and> unat r = unat res + 58 ^ k * n"
  using assms
proof (induction cs arbitrary: res k)
  case (Cons c cs)
  have "\<not> from_b58_lut c < 0" using Cons.prems(1) by (auto simp: Let_def)
  then obtain d where d: "d < 58" "c = alphabet ! d" "from_b58_lut c = int d" by (rule lut_letter)
  obtain lo hi where m: "mul128 (of_nat (58 ^ k)) (of_int (int d)) = (lo, hi)" by fastforce
  have "k \<le> 10" using Cons.prems(2) by simp
  then have "(58 :: nat) ^ k \<le> 58 ^ 10" by (rule power_increasing) simp
  then have ord: "unat (of_nat (58 ^ k) :: u64) = 58 ^ k" by (intro u64_of_nat) simp
  have no: "\<not> res + lo < res" "hi = 0"
    and rec: "decode_loop cs (res + lo) (of_nat (58 ^ Suc k)) = Some r"
    using Cons.prems(1) unfolding d(2) decode_loop_digit[OF d(1) m] order_next
    by (auto split: if_splits)
  note md = mul128_digit[OF d(1) m, unfolded ord]
  have lo: "unat lo = 58 ^ k * d" unfolding md(1) using md(2) no(2) by simp
  have tmp: "unat (res + lo) = unat res + unat lo" using carry_add[of res lo] no(1) by simp
  obtain n where n: "n < 58 ^ length cs" "cs = rev (b58 (length cs) n)"
    "unat r = unat (res + lo) + 58 ^ Suc k * n"
    using Cons.IH[OF rec] Cons.prems(2) by auto
  let ?n = "58 * n + d"
  have "?n < 58 ^ length (c # cs)" using n(1) d(1) by simp
  moreover have "c # cs = rev (b58 (length (c # cs)) ?n)" using d n(2) by simp
  moreover have "unat r = unat res + 58 ^ k * ?n" unfolding n(3) tmp lo by (simp add: algebra_simps)
  ultimately show ?case by blast
qed simp

section \<open>Bytes\<close>

lemma be_nat_snoc [simp]: "be_nat (bs @ [b]) = be_nat bs * 256 + unat b"
  by (simp add: be_nat_def)

lemma be_nat_Nil [simp]: "be_nat [] = 0"
  by (simp add: be_nat_def)

lemma byte_less: "unat (b :: u8) < 256"
  using unsigned_less[of b, where 'a=nat] by simp

lemma digit_less: "x * m + b < n * m" if "x < n" "b < m" for x m b n :: nat
proof -
  have "x * m + b < (x + 1) * m" using that(2) by simp
  also have "\<dots> \<le> n * m" using that(1) by (intro mult_le_mono1) simp
  finally show ?thesis .
qed

lemma be_nat_less: "be_nat bs < 256 ^ length bs"
proof (induction bs rule: rev_induct)
  case (snoc b bs)
  then show ?case
    by (simp only: be_nat_snoc length_append_singleton power_Suc2 digit_less byte_less)
qed simp

lemma pow256_u64: "n \<le> 8 \<Longrightarrow> (256 :: nat) ^ n \<le> 2 ^ 64"
  using power_increasing[of n 8 "256 :: nat"] by simp

lemma uint_8be_to_64_unat:
  "length bs \<le> 8 \<Longrightarrow> unat (uint_8be_to_64 bs) = be_nat bs"
proof (induction bs rule: rev_induct)
  case Nil
  then show ?case by (simp add: uint_8be_to_64_def)
next
  case (snoc b bs)
  have "be_nat (bs @ [b]) < 2 ^ 64"
    using be_nat_less[of "bs @ [b]"] pow256_u64[OF snoc.prems] by (rule less_le_trans)
  then have lt: "be_nat bs * 256 + unat b < 2 ^ 64" by simp
  have *: "uint_8be_to_64 (bs @ [b]) = uint_8be_to_64 bs * 256 + ucast b"
    by (simp add: uint_8be_to_64_def)
  have "unat (uint_8be_to_64 bs) = be_nat bs" using snoc by simp
  then show ?case
    unfolding * using lt by (simp add: unat_word_ariths unat_ucast_byte byte_less less_trans[OF byte_less])
qed

lemma length_uint_64_to_8be [simp]: "length (uint_64_to_8be num n) = n"
  by (induction n arbitrary: num) auto

lemma uint_64_to_8be_be_nat:
  "unat num = be_nat bs \<Longrightarrow> length bs = n \<Longrightarrow> uint_64_to_8be num n = bs"
proof (induction n arbitrary: num bs)
  case (Suc n)
  then obtain b cs where bs: "bs = cs @ [b]" by (cases bs rule: rev_cases) auto
  have num: "unat num = be_nat cs * 256 + unat b" using Suc.prems(1) bs by simp
  have "unat (num div 256) = be_nat cs" unfolding unat_div num using byte_less[of b] by simp
  moreover have "unat (ucast num :: u8) = unat b"
    using num byte_less[of b] by (simp add: unsigned_ucast_eq take_bit_eq_mod)
  then have "ucast num = b" by (simp add: word_unat_eq_iff)
  ultimately show ?case using Suc.IH[of "num div 256" cs] Suc.prems(2) bs by simp
qed simp

lemma be_nat_uint_64_to_8be:
  "unat num < 256 ^ n \<Longrightarrow> be_nat (uint_64_to_8be num n) = unat num"
proof (induction n arbitrary: num)
  case (Suc n)
  have q: "unat (num div 256) = unat num div 256" by (simp add: unat_div)
  have "unat (num div 256) < 256 ^ n"
    using Suc.prems by (simp add: q less_mult_imp_div_less mult.commute)
  then have "be_nat (uint_64_to_8be (num div 256) n) = unat num div 256"
    using Suc.IH q by simp
  moreover have "unat (ucast num :: u8) = unat num mod 256"
    by (simp add: unsigned_ucast_eq take_bit_eq_mod)
  ultimately show ?case by simp
qed (simp add: be_nat_def)

section \<open>Block codec\<close>

lemma block_sizes:
  assumes "1 \<le> m" "m \<le> 8"
  shows "256 ^ m \<le> (58 :: nat) ^ (encoded_block_sizes ! m)"
    and "decoded_block_sizes ! (encoded_block_sizes ! m) = int m"
    and "encoded_block_sizes ! m \<le> 11"
proof -
  have "m \<in> {1, 2, 3, 4, 5, 6, 7, 8}" using assms by auto
  then show "256 ^ m \<le> (58 :: nat) ^ (encoded_block_sizes ! m)"
    "decoded_block_sizes ! (encoded_block_sizes ! m) = int m" "encoded_block_sizes ! m \<le> 11"
    by (auto simp: encoded_block_sizes_def decoded_block_sizes_def)
qed

lemma decoded_sizes:
  assumes "e \<le> 11" "\<not> decoded_block_sizes ! e \<le> 0"
  shows "\<exists>m \<in> set [1..<9]. decoded_block_sizes ! e = int m \<and> encoded_block_sizes ! m = e"
proof -
  have "e \<in> {0, 1, 2, 3, 4, 5, 6, 7, 8, 9, 10, 11}"
    unfolding insert_iff empty_iff using assms(1) by presburger
  moreover have "e \<notin> {0, 1, 4, 8}" using assms(2) by (auto simp: decoded_block_sizes_def intro!: gr0I)
  ultimately have "e \<in> {2, 3, 5, 6, 7, 9, 10, 11}" by auto
  then show ?thesis
    by (elim insertE emptyE)
      (simp_all add: decoded_block_sizes_def encoded_block_sizes_def upt_rec)
qed

lemma encode_block_b58:
  assumes "1 \<le> length bs" "length bs \<le> 8"
  defines "e \<equiv> encoded_block_sizes ! length bs"
  shows "encode_block bs (replicate e (alphabet ! 0)) = Some (b58 e (be_nat bs))"
proof -
  have n: "unat (uint_8be_to_64 bs) = be_nat bs" using assms(2) by (rule uint_8be_to_64_unat)
  have "be_nat bs < 58 ^ e"
    using be_nat_less block_sizes(1)[OF assms(1,2)] unfolding e_def by (rule less_le_trans)
  then show ?thesis
    using encode_loop_b58[of "uint_8be_to_64 bs" e "[]"] by (simp add: encode_block_def n flip: e_def)
qed

lemma block_overflow:
  assumes "m < 8"
  shows "(2 ^ (8 * m) \<le> (x :: u64)) = (256 ^ m \<le> unat x)"
proof -
  have "(256 :: nat) ^ m = 2 ^ (8 * m)" by (simp add: power_mult)
  moreover have "unat (push_bit (8 * m) 1 :: u64) = 2 ^ (8 * m)"
    using assms power_strict_increasing[of "8 * m" 64 "2 :: nat"] by (subst unat_push_bit) simp
  ultimately show ?thesis by (simp add: word_le_nat_alt push_bit_eq_mult)
qed

lemma decode_encode_block:
  assumes "1 \<le> length bs" "length bs \<le> 8"
  shows "decode_block (b58 (encoded_block_sizes ! length bs) (be_nat bs)) = Some bs"
proof -
  let ?m = "length bs" and ?n = "be_nat bs"
  let ?e = "encoded_block_sizes ! ?m"
  have n: "?n < 256 ^ ?m" by (rule be_nat_less)
  then have n64: "?n < 2 ^ 64" using pow256_u64[OF assms(2)] by (rule less_le_trans)
  have "?n < 58 ^ ?e" using n block_sizes(1)[OF assms] by (rule less_le_trans)
  then have loop: "decode_loop (rev (b58 ?e ?n)) 0 1 = Some (of_nat ?n)"
    using decode_loop_b58[of 0 0 ?n ?e] n64 by simp
  have un: "unat (of_nat ?n :: u64) = ?n" using n64 by (rule u64_of_nat)
  have "\<not> (?m < full_block_size \<and> push_bit (8 * ?m) 1 \<le> (of_nat ?n :: u64))"
    using n by (auto simp: block_overflow full_block_size_def un)
  then show ?thesis
    using assms(1) uint_64_to_8be_be_nat[OF un refl]
    by (auto simp: decode_block_def block_sizes(2)[OF assms] Let_def loop)
qed

lemma encode_decode_block:
  assumes "length s \<le> 11" "decode_block s = Some bs"
  shows "1 \<le> length bs" "length bs \<le> 8" "encoded_block_sizes ! length bs = length s"
    "encode_block bs (replicate (length s) (alphabet ! 0)) = Some s"
proof -
  have "\<not> decoded_block_sizes ! length s \<le> 0"
    using assms(2) by (auto simp: decode_block_def split: if_splits)
  then obtain m where m: "1 \<le> m" "m \<le> 8" "decoded_block_sizes ! length s = int m"
    "encoded_block_sizes ! m = length s" using decoded_sizes[OF assms(1)] by auto
  obtain r where r: "decode_loop (rev s) 0 1 = Some r" "bs = uint_64_to_8be r m"
    "\<not> (m < full_block_size \<and> 2 ^ (8 * m) \<le> r)"
    using assms(2) m(1,3) by (auto simp: decode_block_def Let_def split: option.splits if_splits)
  obtain n where n: "rev s = rev (b58 (length s) n)" "unat r = n"
    using decode_loop_canonical[of "rev s" 0 0 r] r(1) assms(1) by auto
  have "n < 256 ^ m"
  proof (cases "m = 8")
    case True
    then show ?thesis using u64_less[of r] n(2) by simp
  next
    case False
    then show ?thesis using r(3) m(2) block_overflow[of m r] n(2) by (simp add: full_block_size_def not_le)
  qed
  then have be: "be_nat bs = n" using be_nat_uint_64_to_8be r(2) n(2) by blast
  show len: "1 \<le> length bs" "length bs \<le> 8" "encoded_block_sizes ! length bs = length s"
    using m r(2) by simp_all
  show "encode_block bs (replicate (length s) (alphabet ! 0)) = Some s"
    using encode_block_b58[OF len(1,2)] n(1) unfolding len(3) be by simp
qed

section \<open>String codec\<close>

lemmas block_size_consts = full_block_size_def full_encoded_block_size_def

lemma sizes_8 [simp]: "full_encoded_block_size = 11" "encoded_block_sizes ! 8 = 11"
  "encoded_block_sizes ! 0 = 0"
  by (simp_all add: full_encoded_block_size_def encoded_block_sizes_def)

lemma encode_full_blocks_ok:
  assumes "8 * n \<le> length data"
  shows "\<exists>e. encode_full_blocks n data = Some e \<and> length e = 11 * n
    \<and> (\<forall>rest. decode_full_blocks n (e @ rest) = Some (take (8 * n) data))"
  using assms
proof (induction n arbitrary: data)
  case (Suc n)
  let ?b = "take 8 data"
  have len: "length ?b = 8" using Suc.prems by simp
  have enc: "encode_block ?b (replicate 11 (alphabet ! 0)) = Some (b58 11 (be_nat ?b))"
    using encode_block_b58[of ?b, unfolded len] by simp
  have dec: "decode_block (b58 11 (be_nat ?b)) = Some ?b"
    using decode_encode_block[of ?b, unfolded len] by simp
  obtain e where e: "encode_full_blocks n (drop 8 data) = Some e" "length e = 11 * n"
    "\<And>rest. decode_full_blocks n (e @ rest) = Some (take (8 * n) (drop 8 data))"
  proof -
    have "8 * n \<le> length (drop 8 data)" using Suc.prems by auto
    from Suc.IH[OF this] show ?thesis using that by blast
  qed
  have "take 8 data @ take (8 * n) (drop 8 data) = take (8 * Suc n) data"
    by (simp flip: take_add)
  then show ?case using enc dec e by (simp add: full_block_size_def)
qed simp

lemma decode_full_blocks_ok:
  assumes "11 * n \<le> length enc" "decode_full_blocks n enc = Some d"
  shows "length d = 8 * n \<and> (\<forall>rest. encode_full_blocks n (d @ rest) = Some (take (11 * n) enc))"
  using assms
proof (induction n arbitrary: enc d)
  case (Suc n)
  let ?b = "take 11 enc"
  have len: "length ?b = 11" using Suc.prems(1) by simp
  obtain b d' where b: "decode_block ?b = Some b" and d': "decode_full_blocks n (drop 11 enc) = Some d'"
    and d: "d = b @ d'"
    using Suc.prems(2) by (auto split: option.splits)
  note blk = encode_decode_block[OF _ b, unfolded len, simplified]
  have "length b = 8"
  proof (rule ccontr)
    assume "length b \<noteq> 8"
    then have "length b \<in> {1, 2, 3, 4, 5, 6, 7}" using blk(1,2) by auto
    then show False using blk(3) by (auto simp: encoded_block_sizes_def)
  qed
  then have b8: "take 8 (d @ rest) = b" "drop 8 (d @ rest) = d' @ rest" for rest
    using d by simp_all
  have tk: "take 11 enc @ take (11 * n) (drop 11 enc) = take (11 * Suc n) enc"
    by (simp flip: take_add)
  have "11 * n \<le> length (drop 11 enc)" using Suc.prems(1) by auto
  note IH = Suc.IH[OF this d']
  show ?case
  proof (intro conjI allI)
    show "length d = 8 * Suc n" using IH \<open>length b = 8\<close> d by simp
    fix rest
    show "encode_full_blocks (Suc n) (d @ rest) = Some (take (11 * Suc n) enc)"
      using IH blk(4) by (simp only: encode_full_blocks.simps full_block_size_def b8 sizes_8
          option.case option.map tk)
  qed
qed simp

lemma encode_decode_ok: "\<exists>e. encode data = Some e \<and> decode e = Some data"
proof (cases "data = []")
  case True
  then show ?thesis by (simp add: encode_def decode_def)
next
  case False
  let ?n = "length data div 8" and ?r = "length data mod 8"
  have len: "8 * ?n + ?r = length data" by simp
  have "8 * ?n \<le> length data" by simp
  from encode_full_blocks_ok[OF this] obtain e where e: "encode_full_blocks ?n data = Some e"
    "length e = 11 * ?n" "\<And>rest. decode_full_blocks ?n (e @ rest) = Some (take (8 * ?n) data)"
    by blast
  show ?thesis
  proof (cases "?r = 0")
    case True
    then have pos: "0 < ?n" using False len by (cases ?n) auto
    have "encode data = Some e"
      using False e(1) True by (simp add: encode_def full_block_size_def)
    moreover have "decode e = Some data"
      using e(2) e(3)[of "[]"] pos True len
      by (auto simp: decode_def decoded_block_sizes_def Let_def)
    ultimately show ?thesis by blast
  next
    case r: False
    let ?l = "drop (8 * ?n) data"
    have ll: "length ?l = ?r" unfolding length_drop using len by linarith
    have lb: "1 \<le> length ?l" "length ?l \<le> 8" unfolding ll using r by simp_all
    let ?e = "encoded_block_sizes ! ?r"
    have "?r \<in> {1, 2, 3, 4, 5, 6, 7}" using r by auto
    then have small: "?e < 11" "0 < ?e" by (auto simp: encoded_block_sizes_def)
    define t where "t = b58 ?e (be_nat ?l)"
    have lt: "length t = ?e" by (simp add: t_def)
    have enc: "encode_block ?l (replicate ?e (alphabet ! 0)) = Some t"
      using encode_block_b58[OF lb] unfolding ll t_def .
    have dec: "decode_block t = Some ?l"
      using decode_encode_block[OF lb] unfolding ll t_def .
    have "encode data = Some (e @ t)"
      using False r e(1) enc by (simp add: encode_def full_block_size_def mult.commute)
    moreover have "decode (e @ t) = Some data"
    proof -
      have "length (e @ t) div 11 = ?n" "length (e @ t) mod 11 = ?e" "t \<noteq> []"
        using small e(2) lt by auto
      moreover have "decoded_block_sizes ! ?e = int ?r"
        using block_sizes(2)[OF lb] unfolding ll .
      moreover have "drop (?n * 11) (e @ t) = t" using e(2) by simp
      ultimately show ?thesis
        using small e(3)[of t] dec by (simp add: decode_def Let_def)
    qed
    ultimately show ?thesis by blast
  qed
qed

lemma decode_encode_ok:
  assumes "decode enc = Some data"
  shows "encode data = Some enc"
proof (cases "enc = []")
  case True
  then show ?thesis using assms by (simp add: encode_def decode_def)
next
  case False
  let ?n = "length enc div 11" and ?r = "length enc mod 11"
  have len: "11 * ?n + ?r = length enc" by simp
  obtain d where d: "decode_full_blocks ?n enc = Some d"
    and data: "0 < ?r \<Longrightarrow> \<exists>l. decode_block (drop (11 * ?n) enc) = Some l \<and> data = d @ l"
      "?r = 0 \<Longrightarrow> data = d"
    using assms False
    by (auto simp: decode_def Let_def mult.commute split: if_splits option.splits)
  have "11 * ?n \<le> length enc" by simp
  from decode_full_blocks_ok[OF this d] have full: "length d = 8 * ?n"
    "\<And>rest. encode_full_blocks ?n (d @ rest) = Some (take (11 * ?n) enc)" by blast+
  show ?thesis
  proof (cases "?r = 0")
    case True
    then have "0 < ?n" using False len by (cases ?n) auto
    moreover have "take (11 * ?n) enc = enc" using True len by simp
    ultimately show ?thesis
      using data(2)[OF True] full(1) full(2)[of "[]"]
      by (auto simp: encode_def full_block_size_def)
  next
    case r: False
    let ?t = "drop (11 * ?n) enc"
    have lt: "length ?t = ?r" unfolding length_drop using len by linarith
    obtain l where l: "decode_block ?t = Some l" "data = d @ l" using data(1) r by auto
    have "length ?t \<le> 11" unfolding lt by simp
    note blk = encode_decode_block[OF this l(1), unfolded lt]
    have "length l \<noteq> 8"
    proof
      assume "length l = 8"
      then have "?r = 11" using blk(3) by simp
      then show False using mod_less_divisor[of 11 "length enc"] by linarith
    qed
    then have lb: "length l < 8" using blk(2) by simp
    have "length data div 8 = ?n" "length data mod 8 = length l" "l \<noteq> []"
      "drop (?n * 8) data = l"
      using l(2) full(1) lb blk(1) by auto
    then have "encode data = Some (take (11 * ?n) enc @ ?t)"
      using full(2)[of l] blk(1,3,4) l(2)
      by (simp add: encode_def full_block_size_def Let_def)
    then show ?thesis by simp
  qed
qed

section \<open>Address codec\<close>

lemma decode_addr_encode_addr:
  assumes "\<And>bs. addr_checksum_size \<le> length (cn_fast_hash bs)"
  shows "\<exists>s. encode_addr cn_fast_hash tag data = Some s \<and> decode_addr cn_fast_hash s = Some (tag, data)"
proof -
  define buf where "buf = write_varint tag @ data"
  define ck where "ck = take addr_checksum_size (cn_fast_hash buf)"
  obtain s where s: "encode (buf @ ck) = Some s" "decode s = Some (buf @ ck)"
    using encode_decode_ok by blast
  have ck: "length ck = addr_checksum_size" using assms by (simp add: ck_def)
  have "buf \<noteq> []" using write_varint_nonempty by (simp add: buf_def)
  moreover have "read_varint buf = (int (length (write_varint tag)), tag, data)"
    unfolding buf_def by (rule read_write_varint) simp
  ultimately have "decode_addr cn_fast_hash s = Some (tag, data)"
    using s(2) ck by (simp add: decode_addr_def Let_def ck_def write_varint_nonempty) (simp add: buf_def)
  moreover have "encode_addr cn_fast_hash tag data = Some s"
    using s(1) by (simp add: encode_addr_def Let_def ck_def buf_def)
  ultimately show ?thesis by blast
qed

lemma encode_addr_decode_addr:
  assumes "decode_addr cn_fast_hash s = Some (tag, data)"
  shows "encode_addr cn_fast_hash tag data = Some s"
proof -
  obtain bs where bs: "decode s = Some bs" using assms by (auto simp: decode_addr_def split: option.splits)
  define body ck where "body = take (length bs - addr_checksum_size) bs"
    and "ck = drop (length bs - addr_checksum_size) bs"
  have split: "bs = body @ ck" by (simp add: body_def ck_def)
  obtain n rest where ck: "take addr_checksum_size (cn_fast_hash body) = ck"
    and rd: "read_varint body = (n, tag, rest)" "0 < n" "data = drop (nat n) body"
    using assms bs
    by (auto simp: decode_addr_def Let_def split: if_splits prod.splits simp flip: body_def ck_def)
  have ex: "body = write_varint tag @ rest \<and> n = int (length (write_varint tag))"
    using read_varint_exact[OF _ rd(1,2)] by simp
  then have "body = write_varint tag @ data" using rd(3) by simp
  then show ?thesis
    using decode_encode_ok[OF bs] split ck by (simp add: encode_addr_def Let_def)
qed

section \<open>The contract of the text encodings\<close>

locale text_codec =
  fixes enc :: "'v \<Rightarrow> string option"
    and dec :: "string \<Rightarrow> 'v option"
  assumes dec_of_enc: "\<exists>s. enc v = Some s \<and> dec s = Some v"
    and enc_of_dec: "dec s = Some v \<Longrightarrow> enc v = Some s"
begin

lemma total: "\<exists>s. enc v = Some s"
  using dec_of_enc by blast

lemma dec_iff_enc: "dec s = Some v \<longleftrightarrow> enc v = Some s"
  using dec_of_enc[of v] enc_of_dec[of s v] by force

lemma distinct_texts: "enc v = enc v' \<Longrightarrow> v = v'"
  using dec_of_enc[of v] dec_of_enc[of v'] by force

end

interpretation b58_text: text_codec encode decode
  using encode_decode_ok decode_encode_ok by unfold_locales

lemma addr_text_codec:
  assumes "\<And>bs. addr_checksum_size \<le> length (cn_fast_hash bs)"
  shows "text_codec (\<lambda>(tag, data). encode_addr cn_fast_hash tag data) (decode_addr cn_fast_hash)"
proof
  fix v :: "u64 \<times> bytes"
  obtain tag data where v: "v = (tag, data)" by fastforce
  show "\<exists>s. (case v of (tag, data) \<Rightarrow> encode_addr cn_fast_hash tag data) = Some s
      \<and> decode_addr cn_fast_hash s = Some v"
    using decode_addr_encode_addr[of cn_fast_hash tag data] assms v by simp
next
  fix s and v :: "u64 \<times> bytes"
  assume "decode_addr cn_fast_hash s = Some v"
  then show "(case v of (tag, data) \<Rightarrow> encode_addr cn_fast_hash tag data) = Some s"
    using encode_addr_decode_addr by (cases v) simp
qed

section \<open>Properties\<close>

text \<open>C32. \<^verbatim>\<open>encode\<close> never writes outside its buffer, and \<^verbatim>\<open>decode\<close> accepts a text with result d exactly
  when it is the encoding of d: the round trip in both directions, so no two texts decode to the
  same data.\<close>

theorem base58_codec:
  "(\<exists>text. encode d = Some text) \<and> (decode s = Some d \<longleftrightarrow> encode d = Some s)"
  using b58_text.total b58_text.dec_iff_enc by blast

text \<open>C33. An address text decodes to a tag and data exactly when it is the encoding of them: the
  varint tag, the data and the four checksum bytes are all determined by the text and determine it.
  The hash is any function whose values have at least four bytes.\<close>

theorem base58_addr_codec:
  assumes "\<And>bs. addr_checksum_size \<le> length (cn_fast_hash bs)"
  shows "(\<exists>text. encode_addr cn_fast_hash tag data = Some text)
    \<and> (decode_addr cn_fast_hash s = Some (tag, data) \<longleftrightarrow> encode_addr cn_fast_hash tag data = Some s)"
  using text_codec.total[OF addr_text_codec[OF assms], where v = "(tag, data)"]
    text_codec.dec_iff_enc[OF addr_text_codec[OF assms], where s = s and v = "(tag, data)"] by auto

theorem base58_addr_codec_witness:
  "addr_checksum_size \<le> length (replicate 32 (7 :: u8))
    \<and> encode_addr (\<lambda>bs. replicate 32 7) 300 [1, 2] = Some ''Vmh6rhF3r1t''
    \<and> decode_addr (\<lambda>bs. replicate 32 7) ''Vmh6rhF3r1t'' = Some (300, [1, 2])"
proof -
  have h: "addr_checksum_size \<le> length (replicate 32 (7 :: u8))" by (simp add: addr_checksum_size_def)
  have e: "encode_addr (\<lambda>bs. replicate 32 7) 300 [1, 2] = Some ''Vmh6rhF3r1t''" by code_simp
  then show ?thesis
    using base58_addr_codec[of "\<lambda>bs. replicate 32 7" 300 "[1, 2]" "''Vmh6rhF3r1t''"] h by blast
qed

end
