(* ===== verification/Address.thy ===== *)
theory Address
  imports Base58 Network_Config
begin

text \<open>
  Account addresses as text, \<^verbatim>\<open>src/cryptonote_basic/cryptonote_basic_impl.cpp\<close>: an address is the two public
  keys, with a payment identifier when it is integrated; its text is the base 58 encoding of a prefix
  of the network and the serialised keys.  Keys and identifiers are byte lists of 32 and 8 bytes.  The
  hash behind the checksum and the test that a key is a point of the curve are arguments.
\<close>

section \<open>Definitions\<close>

record account_public_address =
  m_spend_public_key :: bytes
  m_view_public_key :: bytes

record integrated_address =
  adr :: account_public_address
  iadr_payment_id :: bytes

record address_parse_info =
  address :: account_public_address
  is_subaddress :: bool
  has_payment_id :: bool
  payment_id :: bytes

text \<open>The binary archive: a blob is its bytes; reading past the end throws.\<close>

definition read_blob :: "nat \<Rightarrow> bytes \<Rightarrow> (bytes \<times> bytes) option" where
  "read_blob n data = (if length data < n then None else Some (take n data, drop n data))"

definition serialize_address :: "account_public_address \<Rightarrow> bytes" where
  "serialize_address a = m_spend_public_key a @ m_view_public_key a"

definition unserialize_address :: "bytes \<Rightarrow> (account_public_address \<times> bytes) option" where
  "unserialize_address data =
     (case read_blob 32 data of
        None \<Rightarrow> None
      | Some (spend, rest) \<Rightarrow>
          (case read_blob 32 rest of
             None \<Rightarrow> None
           | Some (view, rest') \<Rightarrow> Some (\<lparr>m_spend_public_key = spend, m_view_public_key = view\<rparr>, rest')))"

definition serialize_integrated :: "integrated_address \<Rightarrow> bytes" where
  "serialize_integrated i = serialize_address (adr i) @ iadr_payment_id i"

definition unserialize_integrated :: "bytes \<Rightarrow> (integrated_address \<times> bytes) option" where
  "unserialize_integrated data =
     (case unserialize_address data of
        None \<Rightarrow> None
      | Some (a, rest) \<Rightarrow>
          (case read_blob 8 rest of
             None \<Rightarrow> None
           | Some (pid, rest') \<Rightarrow> Some (\<lparr>adr = a, iadr_payment_id = pid\<rparr>, rest')))"

text \<open>\<^verbatim>\<open>parse_binary\<close> also throws when bytes are left over.\<close>

definition parse_binary :: "(bytes \<Rightarrow> ('a \<times> bytes) option) \<Rightarrow> bytes \<Rightarrow> 'a option" where
  "parse_binary unserialize data =
     (case unserialize data of
        None \<Rightarrow> None
      | Some (v, rest) \<Rightarrow> (if rest \<noteq> [] then None else Some v))"

text \<open>The printers throw on an undefined network.\<close>

definition get_account_address_as_str ::
  "(bytes \<Rightarrow> bytes) \<Rightarrow> network_type \<Rightarrow> bool \<Rightarrow> account_public_address \<Rightarrow> string option" where
  "get_account_address_as_str cn_fast_hash nettype subaddress a =
     (case get_config nettype of
        None \<Rightarrow> None
      | Some conf \<Rightarrow>
          let address_prefix = of_nat (if subaddress then PUBLIC_SUBADDRESS_BASE58_PREFIX conf
                                       else PUBLIC_ADDRESS_BASE58_PREFIX conf)
          in encode_addr cn_fast_hash address_prefix (serialize_address a))"

definition get_account_integrated_address_as_str ::
  "(bytes \<Rightarrow> bytes) \<Rightarrow> network_type \<Rightarrow> account_public_address \<Rightarrow> bytes \<Rightarrow> string option" where
  "get_account_integrated_address_as_str cn_fast_hash nettype a pid =
     (case get_config nettype of
        None \<Rightarrow> None
      | Some conf \<Rightarrow>
          encode_addr cn_fast_hash (of_nat (PUBLIC_INTEGRATED_ADDRESS_BASE58_PREFIX conf))
            (serialize_integrated \<lparr>adr = a, iadr_payment_id = pid\<rparr>))"

definition as_str :: "(bytes \<Rightarrow> bytes) \<Rightarrow> network_type \<Rightarrow> address_parse_info \<Rightarrow> string option" where
  "as_str cn_fast_hash nettype info =
     (if has_payment_id info
      then get_account_integrated_address_as_str cn_fast_hash nettype (address info) (payment_id info)
      else get_account_address_as_str cn_fast_hash nettype (is_subaddress info) (address info))"

text \<open>The parser throws on an undefined network, returns false, or returns true with the address.
  What a failed parse leaves in the result is not modelled.\<close>

datatype address_result = Address_Throws | Address_False | Address_Info address_parse_info

definition read_address_info :: "address_parse_info \<Rightarrow> bytes \<Rightarrow> address_parse_info option" where
  "read_address_info info data =
     (if has_payment_id info then
        map_option (\<lambda>iadr. info\<lparr>address := adr iadr, payment_id := iadr_payment_id iadr\<rparr>)
          (parse_binary unserialize_integrated data)
      else map_option (\<lambda>a. info\<lparr>address := a\<rparr>) (parse_binary unserialize_address data))"

definition get_account_address_from_str ::
  "(bytes \<Rightarrow> bytes) \<Rightarrow> (bytes \<Rightarrow> bool) \<Rightarrow> address_parse_info \<Rightarrow> network_type \<Rightarrow> string \<Rightarrow> address_result" where
  "get_account_address_from_str cn_fast_hash check_key info nettype str =
     (case get_config nettype of
        None \<Rightarrow> Address_Throws
      | Some conf \<Rightarrow>
        (case decode_addr cn_fast_hash str of
           None \<Rightarrow> Address_False
         | Some (prefix, data) \<Rightarrow>
           (let parse = (\<lambda>info.
                  (case read_address_info info data of
                     None \<Rightarrow> Address_False
                   | Some info \<Rightarrow>
                       (if \<not> check_key (m_spend_public_key (address info)) \<or>
                           \<not> check_key (m_view_public_key (address info))
                        then Address_False else Address_Info info)))
            in if of_nat (PUBLIC_INTEGRATED_ADDRESS_BASE58_PREFIX conf) = prefix
               then parse (info\<lparr>is_subaddress := False, has_payment_id := True\<rparr>)
               else if of_nat (PUBLIC_ADDRESS_BASE58_PREFIX conf) = prefix
               then parse (info\<lparr>is_subaddress := False, has_payment_id := False\<rparr>)
               else if of_nat (PUBLIC_SUBADDRESS_BASE58_PREFIX conf) = prefix
               then parse (info\<lparr>is_subaddress := True, has_payment_id := False\<rparr>)
               else Address_False)))"

section \<open>The serialised address\<close>

definition address_prefix :: "network_config \<Rightarrow> address_parse_info \<Rightarrow> u64" where
  "address_prefix conf i = of_nat
     (if has_payment_id i then PUBLIC_INTEGRATED_ADDRESS_BASE58_PREFIX conf
      else if is_subaddress i then PUBLIC_SUBADDRESS_BASE58_PREFIX conf
      else PUBLIC_ADDRESS_BASE58_PREFIX conf)"

definition address_blob :: "address_parse_info \<Rightarrow> bytes" where
  "address_blob i = serialize_address (address i) @ (if has_payment_id i then payment_id i else [])"

definition well_formed :: "address_parse_info \<Rightarrow> bool" where
  "well_formed i \<longleftrightarrow> length (m_spend_public_key (address i)) = 32 \<and>
     length (m_view_public_key (address i)) = 32 \<and> (has_payment_id i \<longrightarrow> length (payment_id i) = 8)"

lemma as_str_encode:
  "as_str cn_fast_hash nettype i =
     (case get_config nettype of None \<Rightarrow> None
      | Some conf \<Rightarrow> encode_addr cn_fast_hash (address_prefix conf i) (address_blob i))"
  by (simp add: as_str_def get_account_integrated_address_as_str_def get_account_address_as_str_def
      address_prefix_def address_blob_def serialize_integrated_def Let_def split: option.split)

lemma read_blob_iff: "read_blob n data = Some (b, rest) \<longleftrightarrow> length b = n \<and> data = b @ rest"
  by (auto simp: read_blob_def)

lemma read_blob_append [simp]: "length b = n \<Longrightarrow> read_blob n (b @ rest) = Some (b, rest)"
  by (simp add: read_blob_iff)

lemma unserialize_address_iff:
  "unserialize_address data = Some (a, rest) \<longleftrightarrow>
     length (m_spend_public_key a) = 32 \<and> length (m_view_public_key a) = 32 \<and> data = serialize_address a @ rest"
proof
  assume "unserialize_address data = Some (a, rest)"
  then show "length (m_spend_public_key a) = 32 \<and> length (m_view_public_key a) = 32 \<and> data = serialize_address a @ rest"
    by (auto simp: unserialize_address_def serialize_address_def read_blob_iff split: option.splits)
next
  assume "length (m_spend_public_key a) = 32 \<and> length (m_view_public_key a) = 32 \<and> data = serialize_address a @ rest"
  then show "unserialize_address data = Some (a, rest)"
    by (simp add: unserialize_address_def serialize_address_def)
qed

lemma unserialize_integrated_iff:
  "unserialize_integrated data = Some (i, rest) \<longleftrightarrow>
     length (m_spend_public_key (adr i)) = 32 \<and> length (m_view_public_key (adr i)) = 32 \<and>
     length (iadr_payment_id i) = 8 \<and> data = serialize_integrated i @ rest"
proof
  assume "unserialize_integrated data = Some (i, rest)"
  then show "length (m_spend_public_key (adr i)) = 32 \<and> length (m_view_public_key (adr i)) = 32 \<and>
     length (iadr_payment_id i) = 8 \<and> data = serialize_integrated i @ rest"
    by (auto simp: unserialize_integrated_def serialize_integrated_def unserialize_address_iff read_blob_iff
        split: option.splits)
next
  assume a: "length (m_spend_public_key (adr i)) = 32 \<and> length (m_view_public_key (adr i)) = 32 \<and>
     length (iadr_payment_id i) = 8 \<and> data = serialize_integrated i @ rest"
  then have "unserialize_address data = Some (adr i, iadr_payment_id i @ rest)"
    by (simp add: unserialize_address_iff serialize_integrated_def)
  then show "unserialize_integrated data = Some (i, rest)"
    using a by (simp add: unserialize_integrated_def)
qed

lemma parse_binary_iff: "parse_binary u data = Some v \<longleftrightarrow> u data = Some (v, [])"
  by (auto simp: parse_binary_def split: option.splits)

lemma read_address_info_iff:
  "read_address_info i data = Some j \<longleftrightarrow>
     well_formed j \<and> data = address_blob j \<and> is_subaddress j = is_subaddress i \<and>
     has_payment_id j = has_payment_id i \<and> (\<not> has_payment_id i \<longrightarrow> payment_id j = payment_id i)"
proof (cases "has_payment_id i")
  case True
  then have "read_address_info i data = Some j \<longleftrightarrow>
      (\<exists>x. unserialize_integrated data = Some (x, []) \<and> j = i\<lparr>address := adr x, payment_id := iadr_payment_id x\<rparr>)"
    by (auto simp: read_address_info_def parse_binary_iff)
  also have "\<dots> \<longleftrightarrow> unserialize_integrated data = Some (\<lparr>adr = address j, iadr_payment_id = payment_id j\<rparr>, []) \<and>
      is_subaddress j = is_subaddress i \<and> has_payment_id j"
    using True by (cases i; cases j) (auto intro!: exI[of _ "\<lparr>adr = address j, iadr_payment_id = payment_id j\<rparr>"])
  finally show ?thesis
    using True by (auto simp: unserialize_integrated_iff well_formed_def address_blob_def serialize_integrated_def)
next
  case False
  then have "read_address_info i data = Some j \<longleftrightarrow>
      (\<exists>x. unserialize_address data = Some (x, []) \<and> j = i\<lparr>address := x\<rparr>)"
    by (auto simp: read_address_info_def parse_binary_iff)
  also have "\<dots> \<longleftrightarrow> unserialize_address data = Some (address j, []) \<and>
      is_subaddress j = is_subaddress i \<and> \<not> has_payment_id j \<and> payment_id j = payment_id i"
    using False by (cases i; cases j) auto
  finally show ?thesis
    using False by (auto simp: unserialize_address_iff well_formed_def address_blob_def)
qed

section \<open>Parsing\<close>

lemma address_blob_length: "well_formed i \<Longrightarrow> length (address_blob i) = (if has_payment_id i then 72 else 64)"
  by (simp add: address_blob_def serialize_address_def well_formed_def)

text \<open>The prefixes of the networks.\<close>

lemma mainnet_prefixes [simp]:
  "PUBLIC_ADDRESS_BASE58_PREFIX mainnet_config = 0x191eb4" "PUBLIC_INTEGRATED_ADDRESS_BASE58_PREFIX mainnet_config = 0x191eb3"
  "PUBLIC_SUBADDRESS_BASE58_PREFIX mainnet_config = 0x191eb2"
  by (simp_all add: mainnet_config_def)

lemma testnet_prefixes [simp]:
  "PUBLIC_ADDRESS_BASE58_PREFIX testnet_config = 0x1c1eb4" "PUBLIC_INTEGRATED_ADDRESS_BASE58_PREFIX testnet_config = 0x179eb4"
  "PUBLIC_SUBADDRESS_BASE58_PREFIX testnet_config = 0x0f1eb4"
  by (simp_all add: testnet_config_def)

lemma devnet_prefixes [simp]:
  "PUBLIC_ADDRESS_BASE58_PREFIX devnet_config = 3930" "PUBLIC_INTEGRATED_ADDRESS_BASE58_PREFIX devnet_config = 4442"
  "PUBLIC_SUBADDRESS_BASE58_PREFIX devnet_config = 5850"
  by (simp_all add: devnet_config_def)

lemma stagenet_prefixes [simp]:
  "PUBLIC_ADDRESS_BASE58_PREFIX stagenet_config = 0x1b9eb4" "PUBLIC_INTEGRATED_ADDRESS_BASE58_PREFIX stagenet_config = 0x1b9eb4"
  "PUBLIC_SUBADDRESS_BASE58_PREFIX stagenet_config = 0x1b9eb4"
  by (simp_all add: stagenet_config_def)

lemma localdev_prefixes [simp]:
  "PUBLIC_ADDRESS_BASE58_PREFIX localdev_config = 3930" "PUBLIC_INTEGRATED_ADDRESS_BASE58_PREFIX localdev_config = 4442"
  "PUBLIC_SUBADDRESS_BASE58_PREFIX localdev_config = 5850"
  by (simp_all add: localdev_config_def)

lemma fakechain_prefixes [simp]:
  "PUBLIC_ADDRESS_BASE58_PREFIX fakechain_config = 0x191eb4" "PUBLIC_INTEGRATED_ADDRESS_BASE58_PREFIX fakechain_config = 0x191eb3"
  "PUBLIC_SUBADDRESS_BASE58_PREFIX fakechain_config = 0x191eb2"
  by (simp_all add: fakechain_config_def)

text \<open>The networks whose three prefixes differ.\<close>

abbreviation distinct_prefixes :: "network_type \<Rightarrow> bool" where
  "distinct_prefixes nettype \<equiv> nettype \<noteq> STAGENET \<and> nettype \<noteq> UNDEFINED"

lemma prefixes_distinct:
  assumes "distinct_prefixes nettype"
  shows "\<exists>conf. get_config nettype = Some conf \<and>
    distinct [of_nat (PUBLIC_INTEGRATED_ADDRESS_BASE58_PREFIX conf), of_nat (PUBLIC_ADDRESS_BASE58_PREFIX conf),
      of_nat (PUBLIC_SUBADDRESS_BASE58_PREFIX conf) :: u64]"
  using assms by (cases nettype) simp_all

text \<open>What follows the choice of the kind of address.\<close>

definition parse_keys :: "(bytes \<Rightarrow> bool) \<Rightarrow> bytes \<Rightarrow> address_parse_info \<Rightarrow> address_result" where
  "parse_keys check_key data i =
     (case read_address_info i data of
        None \<Rightarrow> Address_False
      | Some j \<Rightarrow> if \<not> check_key (m_spend_public_key (address j)) \<or> \<not> check_key (m_view_public_key (address j))
                  then Address_False else Address_Info j)"

lemma parse_keys_iff:
  "parse_keys check_key data i = Address_Info j \<longleftrightarrow>
     read_address_info i data = Some j \<and> check_key (m_spend_public_key (address j)) \<and> check_key (m_view_public_key (address j))"
  by (auto simp: parse_keys_def split: option.splits if_splits)

lemma from_str_cases:
  "get_account_address_from_str h check_key i nettype s =
     (case get_config nettype of None \<Rightarrow> Address_Throws
      | Some conf \<Rightarrow>
        (case decode_addr h s of None \<Rightarrow> Address_False
         | Some (prefix, data) \<Rightarrow>
             if of_nat (PUBLIC_INTEGRATED_ADDRESS_BASE58_PREFIX conf) = prefix
             then parse_keys check_key data (i\<lparr>is_subaddress := False, has_payment_id := True\<rparr>)
             else if of_nat (PUBLIC_ADDRESS_BASE58_PREFIX conf) = prefix
             then parse_keys check_key data (i\<lparr>is_subaddress := False, has_payment_id := False\<rparr>)
             else if of_nat (PUBLIC_SUBADDRESS_BASE58_PREFIX conf) = prefix
             then parse_keys check_key data (i\<lparr>is_subaddress := True, has_payment_id := False\<rparr>)
             else Address_False))"
  unfolding get_account_address_from_str_def Let_def parse_keys_def ..

lemma from_str_iff:
  assumes "distinct_prefixes nettype" "get_config nettype = Some conf"
  shows "get_account_address_from_str h check_key i nettype s = Address_Info j \<longleftrightarrow>
    decode_addr h s = Some (address_prefix conf j, address_blob j) \<and> well_formed j \<and>
    \<not> (is_subaddress j \<and> has_payment_id j) \<and> (\<not> has_payment_id j \<longrightarrow> payment_id j = payment_id i) \<and>
    check_key (m_spend_public_key (address j)) \<and> check_key (m_view_public_key (address j))"
proof (cases "decode_addr h s")
  case None
  then show ?thesis using assms(2) by (simp add: from_str_cases)
next
  case (Some pd)
  obtain prefix data where pd: "pd = (prefix, data)" by (cases pd)
  have d: "distinct [of_nat (PUBLIC_INTEGRATED_ADDRESS_BASE58_PREFIX conf), of_nat (PUBLIC_ADDRESS_BASE58_PREFIX conf),
      of_nat (PUBLIC_SUBADDRESS_BASE58_PREFIX conf) :: u64]" using prefixes_distinct[OF assms(1)] assms(2) by auto
  show ?thesis
    using d by (cases "has_payment_id j"; cases "is_subaddress j")
      (auto simp: from_str_cases assms(2) Some pd parse_keys_iff read_address_info_iff address_prefix_def)
qed

lemma as_str_total:
  assumes "\<And>bs. addr_checksum_size \<le> length (cn_fast_hash bs)" "nettype \<noteq> UNDEFINED"
  shows "\<exists>s. as_str cn_fast_hash nettype i = Some s"
  using assms(2) decode_addr_encode_addr[of cn_fast_hash] assms(1)
  by (cases nettype) (auto simp: as_str_encode, blast+)

text \<open>A sub-address to apply the theorems to.\<close>

definition sample_info :: address_parse_info where
  "sample_info = \<lparr>address = \<lparr>m_spend_public_key = replicate 32 1, m_view_public_key = replicate 32 2\<rparr>,
     is_subaddress = True, has_payment_id = False, payment_id = []\<rparr>"

abbreviation sample_hash :: "bytes \<Rightarrow> bytes" where
  "sample_hash \<equiv> \<lambda>bs :: bytes. replicate 32 (7 :: u8)"

lemma sample_hash_length: "addr_checksum_size \<le> length (sample_hash bs)"
  by (simp add: addr_checksum_size_def)

text \<open>C26. On every network but the staging one (whose three prefixes coincide), a text parses to an address exactly when
  it is the text printed for that address: parsing is the inverse of printing in both directions, so no
  two texts name the same address.  Parsed addresses have keys of 32 bytes that pass the key test,
  an integrated address is no sub-address, and without a payment identifier the caller's is kept.\<close>

theorem address_text_iff:
  assumes "\<And>bs. addr_checksum_size \<le> length (cn_fast_hash bs)"
    and "nettype \<noteq> STAGENET" "nettype \<noteq> UNDEFINED"
  shows "get_account_address_from_str cn_fast_hash check_key i nettype s = Address_Info j \<longleftrightarrow>
    as_str cn_fast_hash nettype j = Some s \<and> well_formed j \<and> \<not> (is_subaddress j \<and> has_payment_id j) \<and>
    (has_payment_id j \<or> payment_id j = payment_id i) \<and>
    check_key (m_spend_public_key (address j)) \<and> check_key (m_view_public_key (address j))"
proof -
  obtain conf where conf: "get_config nettype = Some conf" using prefixes_distinct assms(2,3) by blast
  have "(decode_addr cn_fast_hash s = Some (address_prefix conf j, address_blob j)) =
      (as_str cn_fast_hash nettype j = Some s)"
    using text_codec.dec_iff_enc[OF addr_text_codec[OF assms(1)], where v = "(address_prefix conf j, address_blob j)"]
    by (simp add: as_str_encode conf)
  then show ?thesis using from_str_iff[OF _ conf] assms(2,3) by auto
qed

theorem address_text_iff_witness:
  "\<exists>s. as_str (\<lambda>bs. replicate 32 7) MAINNET sample_info = Some s \<and>
     get_account_address_from_str (\<lambda>bs. replicate 32 7) (\<lambda>key. length key = 32) sample_info MAINNET s = Address_Info sample_info"
proof -
  have m: "MAINNET \<noteq> STAGENET" "MAINNET \<noteq> UNDEFINED" by simp_all
  obtain s where s: "as_str sample_hash MAINNET sample_info = Some s"
    using as_str_total[OF sample_hash_length m(2)] by blast
  have "well_formed sample_info" "\<not> has_payment_id sample_info"
    "length (m_spend_public_key (address sample_info)) = 32" "length (m_view_public_key (address sample_info)) = 32"
    by (simp_all add: sample_info_def well_formed_def)
  then show ?thesis
    using s address_text_iff[OF sample_hash_length m, of "\<lambda>key. length key = 32" sample_info s sample_info] by blast
qed

text \<open>C27. On the staging network no address or sub-address is readable: the text printed for one is
  taken for an integrated address, whose payment identifier is missing, and is refused.\<close>

theorem stagenet_address_refused:
  assumes "\<And>bs. addr_checksum_size \<le> length (cn_fast_hash bs)" "well_formed j" "\<not> has_payment_id j"
  shows "\<exists>s. as_str cn_fast_hash STAGENET j = Some s \<and>
    get_account_address_from_str cn_fast_hash check_key i STAGENET s = Address_False"
proof -
  obtain s where s: "encode_addr cn_fast_hash 0x1b9eb4 (address_blob j) = Some s"
      "decode_addr cn_fast_hash s = Some (0x1b9eb4, address_blob j)"
    using decode_addr_encode_addr[of cn_fast_hash "0x1b9eb4" "address_blob j"] assms(1) by blast
  have "read_address_info (i\<lparr>is_subaddress := False, has_payment_id := True\<rparr>) (address_blob j) \<noteq> Some k" for k
    using address_blob_length[OF assms(2)] address_blob_length[of k] assms(3) by (auto simp: read_address_info_iff)
  then have "read_address_info (i\<lparr>is_subaddress := False, has_payment_id := True\<rparr>) (address_blob j) = None"
    by (cases "read_address_info (i\<lparr>is_subaddress := False, has_payment_id := True\<rparr>) (address_blob j)") auto
  then show ?thesis using s
    by (auto simp: as_str_encode from_str_cases address_prefix_def parse_keys_def)
qed

theorem stagenet_address_refused_witness:
  "well_formed sample_info \<and> (\<exists>s. as_str (\<lambda>bs. replicate 32 7) STAGENET sample_info = Some s \<and>
     get_account_address_from_str (\<lambda>bs. replicate 32 7) (\<lambda>key. True) sample_info STAGENET s = Address_False)"
proof -
  have w: "well_formed sample_info" "\<not> has_payment_id sample_info" by (simp_all add: sample_info_def well_formed_def)
  show ?thesis using w(1) stagenet_address_refused[OF sample_hash_length w] by blast
qed

text \<open>A text of one of the four public networks is refused by each of the others.\<close>

lemma address_other_network:
  assumes "\<And>bs. addr_checksum_size \<le> length (cn_fast_hash bs)"
    and "nettype \<in> {MAINNET, TESTNET, DEVNET, STAGENET}" "other \<in> {MAINNET, TESTNET, DEVNET, STAGENET}" "other \<noteq> nettype"
  shows "\<exists>s. as_str cn_fast_hash nettype j = Some s \<and>
    get_account_address_from_str cn_fast_hash check_key i other s = Address_False"
proof -
  obtain conf conf' where c: "get_config nettype = Some conf" "get_config other = Some conf'" using assms(2,3) by auto
  obtain s where s: "encode_addr cn_fast_hash (address_prefix conf j) (address_blob j) = Some s"
      "decode_addr cn_fast_hash s = Some (address_prefix conf j, address_blob j)"
    using decode_addr_encode_addr[of cn_fast_hash "address_prefix conf j" "address_blob j"] assms(1) by blast
  have "address_prefix conf j \<notin> {of_nat (PUBLIC_INTEGRATED_ADDRESS_BASE58_PREFIX conf'),
      of_nat (PUBLIC_ADDRESS_BASE58_PREFIX conf'), of_nat (PUBLIC_SUBADDRESS_BASE58_PREFIX conf')}"
    using assms(2-4) c
    by (auto simp: address_prefix_def)
  then show ?thesis using s c by (auto simp: as_str_encode from_str_cases)
qed

end
