(* ===== verification/Block_Reward.thy ===== *)
theory Block_Reward
  imports Address Stake_Rules
begin

text \<open>
  The reward of a block and its division, from \<^verbatim>\<open>src/cryptonote_basic/cryptonote_basic_impl.cpp\<close>,
  \<^verbatim>\<open>src/oxen_economy.h\<close> and \<^verbatim>\<open>src/cryptonote_core/cryptonote_tx_utils.cpp\<close>: the base reward with the penalty of
  a block above the median weight, the governance and service node parts, and the division of a reward
  by portions.  Amounts, weights and heights are 64 bit words.  The floating point formula of hard fork
  8 is an argument, and so is the value of a result the code leaves unset.
\<close>

section \<open>Definitions\<close>

definition BLOCK_GRANTED_FULL_REWARD_ZONE_V5 :: u64 where "BLOCK_GRANTED_FULL_REWARD_ZONE_V5 = 300000"

definition EMISSION_LINEAR_BASE :: u64 where "EMISSION_LINEAR_BASE = push_bit 61 1"
definition EMISSION_SUPPLY_MULTIPLIER :: u64 where "EMISSION_SUPPLY_MULTIPLIER = 19"
definition EMISSION_SUPPLY_DIVISOR :: u64 where "EMISSION_SUPPLY_DIVISOR = 10"
definition EMISSION_DIVISOR :: u64 where "EMISSION_DIVISOR = 2000000"

definition BLOCK_REWARD_HF15 :: u64 where "BLOCK_REWARD_HF15 = 25 * COIN"
definition MINER_REWARD_HF15 :: u64 where "MINER_REWARD_HF15 = BLOCK_REWARD_HF15 * 24 div 100"
definition SN_REWARD_HF15 :: u64 where "SN_REWARD_HF15 = BLOCK_REWARD_HF15 * 66 div 100"
definition FOUNDATION_REWARD_HF15 :: u64 where "FOUNDATION_REWARD_HF15 = BLOCK_REWARD_HF15 * 10 div 100"
definition CHAINFLIP_LIQUIDITY_HF16 :: u64 where "CHAINFLIP_LIQUIDITY_HF16 = BLOCK_REWARD_HF15 * 24 div 100"
definition BLOCK_REWARD_HF17 :: u64 where "BLOCK_REWARD_HF17 = 18333333333"
definition FOUNDATION_REWARD_HF17 :: u64 where "FOUNDATION_REWARD_HF17 = 1833333333"
definition SN_REWARD_HF19 :: u64 where "SN_REWARD_HF19 = 8250000000"
definition FOUNDATION_REWARD_HF19 :: u64 where "FOUNDATION_REWARD_HF19 = 12400000000"
definition BLOCK_REWARD_HF19 :: u64 where "BLOCK_REWARD_HF19 = SN_REWARD_HF19 + FOUNDATION_REWARD_HF19"

definition get_min_block_weight :: "hf \<Rightarrow> u64" where
  "get_min_block_weight version = BLOCK_GRANTED_FULL_REWARD_ZONE_V5"

definition block_reward_unpenalized_formula_v7 :: "u64 \<Rightarrow> u64 \<Rightarrow> u64" where
  "block_reward_unpenalized_formula_v7 already_generated_coins height =
     (let emission_supply_component = already_generated_coins * EMISSION_SUPPLY_MULTIPLIER div EMISSION_SUPPLY_DIVISOR;
          result = (EMISSION_LINEAR_BASE - emission_supply_component) div EMISSION_DIVISOR
      in if emission_supply_component > EMISSION_LINEAR_BASE then 0 else result)"

text \<open>The reward and the reward without penalty; \<^const>\<open>None\<close> when the code returns false.  The assertions of a debug
  build are not part of the model.\<close>

definition get_base_block_reward ::
  "(u64 \<Rightarrow> u64) \<Rightarrow> u64 \<Rightarrow> u64 \<Rightarrow> u64 \<Rightarrow> u64 \<Rightarrow> hf \<Rightarrow> u64 \<Rightarrow> (u64 \<times> u64) option" where
  "get_base_block_reward formula_v8 median_weight current_block_weight already_generated_coins reward_unpenalized version height =
     (if already_generated_coins = 0 then Some (276786541324700000, reward_unpenalized)
      else
        (let base_reward =
               (if version \<ge> hf19_reward_batching then BLOCK_REWARD_HF19
                else if version \<ge> hf17 then BLOCK_REWARD_HF17
                else if version \<ge> hf15_ons then BLOCK_REWARD_HF15
                else if version \<ge> hf8 then formula_v8 height
                else block_reward_unpenalized_formula_v7 already_generated_coins height);
             full_reward_zone = get_min_block_weight version;
             median_weight = (if median_weight < full_reward_zone then full_reward_zone else median_weight)
         in if current_block_weight \<le> median_weight then Some (base_reward, base_reward)
            else if current_block_weight > 2 * median_weight then None
            else
              (let multiplicand = (2 * median_weight - current_block_weight) * current_block_weight;
                   (product_lo, product_hi) = mul128 base_reward multiplicand;
                   (reward_hi, reward_lo) = div128_32 product_hi product_lo (ucast median_weight);
                   (reward_hi, reward_lo) = div128_32 reward_hi reward_lo (ucast median_weight)
               in Some (reward_lo, base_reward))))"

definition governance_reward_formula :: "hf \<Rightarrow> u64 \<Rightarrow> u64" where
  "governance_reward_formula version base_reward =
     (if version \<ge> ETH_BLS then 0
      else if version \<ge> hf19_reward_batching then FOUNDATION_REWARD_HF19
      else if version \<ge> hf17 then FOUNDATION_REWARD_HF17
      else if version \<ge> hf16_pulse then FOUNDATION_REWARD_HF15 + CHAINFLIP_LIQUIDITY_HF16
      else if version \<ge> hf15_ons then FOUNDATION_REWARD_HF15
      else base_reward div 20)"

text \<open>The length of the interval is converted to an unsigned number.\<close>

definition height_has_governance_output :: "network_type \<Rightarrow> hf \<Rightarrow> u64 \<Rightarrow> bool option" where
  "height_has_governance_output nettype hard_fork_version height =
     (if height = 0 then Some False
      else if hard_fork_version \<ge> ETH_BLS then Some False
      else if hard_fork_version \<le> hf9_service_nodes \<or> hard_fork_version \<ge> hf19_reward_batching then Some True
      else
        (case get_config nettype of
           None \<Rightarrow> None
         | Some conf \<Rightarrow>
             Some (\<not> height mod word_of_int (BLOCKS_IN conf (GOVERNANCE_REWARD_INTERVAL conf)) \<noteq> 0)))"

definition service_node_reward_formula :: "u64 \<Rightarrow> hf \<Rightarrow> u64" where
  "service_node_reward_formula base_reward hard_fork_version =
     (if hard_fork_version \<ge> hf19_reward_batching then SN_REWARD_HF19
      else if hard_fork_version \<ge> hf15_ons then SN_REWARD_HF15
      else if hard_fork_version \<ge> hf9_service_nodes then base_reward div 2
      else 0)"

record payout_entry =
  payout_address :: account_public_address
  payout_portions :: u64

definition get_portion_of_reward :: "u64 \<Rightarrow> u64 \<Rightarrow> u64" where
  "get_portion_of_reward portions total_service_node_reward =
     mul128_div64 total_service_node_reward portions STAKING_PORTIONS"

text \<open>The loop collects the rewards and their sum; the remainder goes to the first.\<close>

definition distribute_reward_by_portions :: "payout_entry list \<Rightarrow> u64 \<Rightarrow> bool \<Rightarrow> u64 list" where
  "distribute_reward_by_portions payout total_reward distribute_remainder =
     (let (paid_reward, result) =
        foldl (\<lambda>(paid_reward, result) entry.
          let reward = get_portion_of_reward (payout_portions entry) total_reward
          in (paid_reward + reward, result @ [reward])) (0, []) payout
      in if distribute_remainder \<and> payout \<noteq> []
         then (let remainder = total_reward - paid_reward in (hd result + remainder) # tl result)
         else result)"

definition calculate_sum_of_portions :: "payout_entry list \<Rightarrow> u64 \<Rightarrow> u64" where
  "calculate_sum_of_portions payout total_service_node_reward =
     foldl (\<lambda>reward entry. reward + get_portion_of_reward (payout_portions entry) total_service_node_reward) 0 payout"

record block_reward_parts =
  service_node_total :: u64
  governance_due :: u64
  governance_paid :: u64
  base_miner :: u64
  miner_fee :: u64
  original_base_reward :: u64

record oxen_block_reward_context =
  ctx_height :: u64
  ctx_fee :: u64
  batched_governance :: u64
  block_leader_payouts :: "payout_entry list"

datatype reward_outcome = Reward_Throws | Reward_False | Reward_Parts block_reward_parts

definition get_oxen_block_reward ::
  "(u64 \<Rightarrow> u64) \<Rightarrow> u64 \<Rightarrow> u64 \<Rightarrow> u64 \<Rightarrow> u64 \<Rightarrow> hf \<Rightarrow> oxen_block_reward_context \<Rightarrow> reward_outcome" where
  "get_oxen_block_reward formula_v8 unset median_weight current_block_weight already_generated_coins hard_fork_version oxen_context =
     (if hard_fork_version \<ge> ETH_BLS then Reward_Throws
      else
        (let result = \<lparr>service_node_total = 0, governance_due = 0, governance_paid = 0, base_miner = 0,
                       miner_fee = 0, original_base_reward = 0\<rparr>
         in case get_base_block_reward formula_v8 median_weight current_block_weight already_generated_coins unset
                   hard_fork_version (ctx_height oxen_context) of
              None \<Rightarrow> Reward_False
            | Some (base_reward, base_reward_unpenalized) \<Rightarrow>
                if base_reward = 0 then Reward_False
                else if already_generated_coins = 0
                then Reward_Parts (result\<lparr>original_base_reward := base_reward, base_miner := base_reward\<rparr>)
                else
                  (let original = (if hard_fork_version \<ge> hf13_enforce_checkpoints then base_reward_unpenalized
                                   else base_reward);
                       due = governance_reward_formula hard_fork_version original;
                       result = result\<lparr>original_base_reward := original, governance_due := due,
                         governance_paid := (if hard_fork_version \<ge> hf10_bulletproofs
                                             then batched_governance oxen_context else due)\<rparr>;
                       service_node_reward = service_node_reward_formula original hard_fork_version
                   in if hard_fork_version < hf16_pulse then
                        (let total = calculate_sum_of_portions (block_leader_payouts oxen_context) service_node_reward;
                             non_miner_amounts = due + total
                         in Reward_Parts (result\<lparr>service_node_total := total,
                              base_miner := (if base_reward > non_miner_amounts then base_reward - non_miner_amounts else 0),
                              miner_fee := ctx_fee oxen_context\<rparr>))
                      else
                        (let penalty = base_reward_unpenalized - base_reward;
                             result = result\<lparr>service_node_total := service_node_reward,
                               miner_fee := (if penalty \<ge> ctx_fee oxen_context then 0 else ctx_fee oxen_context - penalty)\<rparr>;
                             allocated = due + service_node_reward;
                             remainder = base_reward_unpenalized - allocated
                         in if allocated > base_reward_unpenalized \<or> remainder \<noteq> 0 then Reward_False
                            else Reward_Parts result))))"

section \<open>The base reward\<close>

lemma penalty_product:
  fixes m w :: nat
  assumes "m \<le> w" "w \<le> 2 * m"
  shows "(2 * m - w) * w \<le> m * m" "m < w \<Longrightarrow> (2 * m - w) * w < m * m"
proof -
  obtain d where d: "w = m + d" "d \<le> m" using assms by (metis add_le_cancel_left le_Suc_ex mult_2)
  have "(2 * m - w) * w = m * m - d * d" unfolding d(1) using d(2) by (simp add: diff_mult_distrib add_mult_distrib algebra_simps)
  moreover have "d * d \<le> m * m" using d(2) by (simp add: mult_le_mono)
  moreover have "m < w \<Longrightarrow> 0 < d * d" using d(1) by simp
  ultimately show "(2 * m - w) * w \<le> m * m" "m < w \<Longrightarrow> (2 * m - w) * w < m * m" by linarith+
qed

lemma penalty_antimono:
  fixes m w w' :: nat
  assumes "m \<le> w" "w \<le> w'" "w' \<le> 2 * m"
  shows "(2 * m - w') * w' \<le> (2 * m - w) * w"
proof -
  obtain d where d: "w = m + d" "d \<le> m" using assms by (metis add_le_cancel_left le_Suc_ex le_trans mult_2)
  obtain e where e: "w' = m + e" "e \<le> m" using assms by (metis add_le_cancel_left le_Suc_ex le_trans mult_2)
  have "(2 * m - w) * w = m * m - d * d" "(2 * m - w') * w' = m * m - e * e" unfolding d(1) e(1) using d(2) e(2)
    by (simp_all add: diff_mult_distrib add_mult_distrib algebra_simps)
  moreover have "d * d \<le> e * e" using assms(2) d(1) e(1) by (simp add: mult_le_mono)
  ultimately show ?thesis by simp
qed

text \<open>The 128 bit product, divided twice by the median.\<close>

lemma penalized_reward:
  assumes m: "unat m < 2 ^ 32" "m \<noteq> 0" and w: "unat m \<le> unat w" "unat w \<le> 2 * unat m"
    and p: "mul128 base ((2 * m - w) * w) = (lo, hi)"
    and q: "div128_32 hi lo (ucast m) = (hi1, lo1)" and r: "div128_32 hi1 lo1 (ucast m) = (hi2, lo2)"
  shows "unat lo2 = unat base * ((2 * unat m - unat w) * unat w) div (unat m * unat m)"
proof -
  let ?p = "unat base * ((2 * unat m - unat w) * unat w)"
  have um: "unat (ucast m :: u32) = unat m" using m(1) by (simp add: unsigned_ucast_eq take_bit_nat_eq_self_iff)
  have m0: "0 < unat m" using m(2) by (simp add: unat_gt_0)
  have "unat (2 * m) = 2 * unat m" using m(1) by (simp add: unat_word_ariths)
  then have d: "unat (2 * m - w) = 2 * unat m - unat w" using w(2) by (simp add: unat_sub word_le_nat_alt)
  have mm: "unat m * unat m < 2 ^ 32 * 2 ^ 32" using m(1) by (intro mult_strict_mono) auto
  have le: "(2 * unat m - unat w) * unat w \<le> unat m * unat m" by (rule penalty_product(1)[OF w])
  have "unat ((2 * m - w) * w) = (2 * unat m - unat w) * unat w"
    using le mm by (simp add: unat_word_ariths(2) d)
  then have P: "pair_nat hi lo = ?p" using mul128_unat[of base "(2 * m - w) * w"] p by simp
  have Q: "pair_nat hi1 lo1 = ?p div unat m"
  proof -
    have "?p div unat m < 2 ^ 128" using pair_less[of hi lo] P by (metis div_le_dividend le_less_trans)
    then have "?p div unat m div 2 ^ 64 * 2 ^ 64 + ?p div unat m mod 2 ^ 64 = ?p div unat m" by (metis div_mult_mod_eq)
    then show ?thesis using div128_32_unat[of hi lo "ucast m"] q unfolding um P by simp
  qed
  have "?p div unat m div unat m = ?p div (unat m * unat m)" by (simp add: div_mult2_eq)
  moreover have "?p div (unat m * unat m) \<le> unat base * (unat m * unat m) div (unat m * unat m)"
    by (rule div_le_mono[OF mult_le_mono2[OF le]])
  then have "?p div (unat m * unat m) < 2 ^ 64" using m0 u64_less[of base] by simp
  ultimately show ?thesis using div128_32_unat(2)[of hi1 lo1 "ucast m"] r unfolding um Q by simp
qed


text \<open>The median used, and the reward of an empty block.\<close>

definition effective_median :: "u64 \<Rightarrow> nat" where
  "effective_median median = max (unat median) 300000"

lemma base_reward_cases:
  assumes "coins \<noteq> 0" "unat median < 2 ^ 32"
  shows "\<exists>base. get_base_block_reward formula median w coins unset version height =
    (if 2 * effective_median median < unat w then None
     else Some (if unat w \<le> effective_median median then base
                else of_nat (unat base * ((2 * effective_median median - unat w) * unat w)
                        div (effective_median median * effective_median median)), base)) \<and>
    get_base_block_reward formula median 0 coins unset version height = Some (base, base)"
proof -
  define m where "m = (if median < get_min_block_weight version then get_min_block_weight version else median)"
  have em: "effective_median median = unat m" "unat m < 2 ^ 32" "m \<noteq> 0"
    using assms(2) by (auto simp: m_def effective_median_def get_min_block_weight_def
        BLOCK_GRANTED_FULL_REWARD_ZONE_V5_def word_less_nat_alt)
  have m2: "unat (2 * m) = 2 * unat m" using em(2) by (simp add: unat_word_ariths)
  define base where "base =
      (if version \<ge> hf19_reward_batching then BLOCK_REWARD_HF19
       else if version \<ge> hf17 then BLOCK_REWARD_HF17
       else if version \<ge> hf15_ons then BLOCK_REWARD_HF15
       else if version \<ge> hf8 then formula height else block_reward_unpenalized_formula_v7 coins height)"
  have eq: "get_base_block_reward formula median x coins unset version height =
      (if x \<le> m then Some (base, base) else if x > 2 * m then None
       else case mul128 base ((2 * m - x) * x) of (lo, hi) \<Rightarrow>
         case div128_32 hi lo (ucast m) of (hi, lo) \<Rightarrow>
         case div128_32 hi lo (ucast m) of (hi, lo) \<Rightarrow> Some (lo, base))" for x
    using assms(1) unfolding get_base_block_reward_def Let_def m_def[symmetric] base_def[symmetric] by simp
  have pen: "(case mul128 base ((2 * m - w) * w) of (lo, hi) \<Rightarrow>
       case div128_32 hi lo (ucast m) of (hi, lo) \<Rightarrow>
       case div128_32 hi lo (ucast m) of (hi, lo) \<Rightarrow> Some (lo, base)) =
     Some (of_nat (unat base * ((2 * unat m - unat w) * unat w) div (unat m * unat m)), base)"
    if w: "unat m \<le> unat w" "unat w \<le> 2 * unat m"
  proof -
    obtain lo hi where p: "mul128 base ((2 * m - w) * w) = (lo, hi)" by fastforce
    obtain hi1 lo1 where q: "div128_32 hi lo (ucast m) = (hi1, lo1)" by fastforce
    obtain hi2 lo2 where r: "div128_32 hi1 lo1 (ucast m) = (hi2, lo2)" by fastforce
    have "lo2 = of_nat (unat lo2)" by simp
    then show ?thesis using penalized_reward[OF em(2,3) w p q r] p q r by simp
  qed
  have "get_base_block_reward formula median 0 coins unset version height = Some (base, base)" by (simp add: eq)
  moreover have "get_base_block_reward formula median w coins unset version height =
    (if 2 * unat m < unat w then None
     else Some (if unat w \<le> unat m then base
                else of_nat (unat base * ((2 * unat m - unat w) * unat w) div (unat m * unat m)), base))"
    using pen by (auto simp: eq word_le_nat_alt word_less_nat_alt m2)
  ultimately show ?thesis unfolding em(1) by blast
qed

lemma penalized_le:
  fixes b m w :: nat
  assumes "m \<le> w" "w \<le> 2 * m" "0 < m"
  shows "b * ((2 * m - w) * w) div (m * m) \<le> b" "m < w \<Longrightarrow> 0 < b \<Longrightarrow> b * ((2 * m - w) * w) div (m * m) < b"
proof -
  have "b * ((2 * m - w) * w) \<le> b * (m * m)" using penalty_product(1)[OF assms(1,2)] by (rule mult_le_mono2)
  then have "b * ((2 * m - w) * w) div (m * m) \<le> b * (m * m) div (m * m)" by (rule div_le_mono)
  then show "b * ((2 * m - w) * w) div (m * m) \<le> b" using assms(3) by simp
  assume "m < w" "0 < b"
  then have "b * ((2 * m - w) * w) < b * (m * m)" using penalty_product(2)[OF assms(1,2)] by simp
  then show "b * ((2 * m - w) * w) div (m * m) < b" using assms(3) by (simp add: less_mult_imp_div_less)
qed

lemma penalized_pos:
  fixes b m w :: nat
  assumes "m \<le> w" "w < 2 * m" "m \<le> b"
  shows "0 < b * ((2 * m - w) * w) div (m * m)"
proof -
  have "1 * m \<le> (2 * m - w) * w" using assms by (intro mult_le_mono) auto
  then have "m * m \<le> b * ((2 * m - w) * w)" using assms(3) by (intro mult_le_mono) auto
  moreover have "0 < m * m" using assms(1,2) by auto
  ultimately show ?thesis by (simp add: div_greater_zero_iff)
qed

lemma effective_median_pos: "0 < effective_median median"
  by (simp add: effective_median_def)

lemma base_reward_penalty_exact:
  assumes "coins \<noteq> 0" "unat median < 2 ^ 32" "unat w \<le> 2 * effective_median median"
  shows "\<exists>r base. get_base_block_reward formula median w coins unset version height = Some (r, base) \<and>
    get_base_block_reward formula median 0 coins unset version height = Some (base, base) \<and>
    unat r = (if unat w \<le> effective_median median then unat base
      else unat base * ((2 * effective_median median - unat w) * unat w)
             div (effective_median median * effective_median median))"
proof -
  let ?m = "effective_median median"
  obtain base where b: "get_base_block_reward formula median w coins unset version height =
      (if 2 * ?m < unat w then None else Some (if unat w \<le> ?m then base
         else of_nat (unat base * ((2 * ?m - unat w) * unat w) div (?m * ?m)), base))"
    "get_base_block_reward formula median 0 coins unset version height = Some (base, base)"
    using base_reward_cases[OF assms(1,2)] by blast
  have "unat (of_nat (unat base * ((2 * ?m - unat w) * unat w) div (?m * ?m)) :: u64) =
      unat base * ((2 * ?m - unat w) * unat w) div (?m * ?m)" if "\<not> unat w \<le> ?m"
  proof -
    have "unat base * ((2 * ?m - unat w) * unat w) div (?m * ?m) \<le> unat base"
      using that assms(3) effective_median_pos by (intro penalized_le(1)) auto
    then have "unat base * ((2 * ?m - unat w) * unat w) div (?m * ?m) < 2 ^ 64"
      using u64_less[of base] by (rule le_less_trans)
    then show ?thesis by (simp add: unat_of_nat)
  qed
  then show ?thesis using b assms(3) by auto
qed

text \<open>C35. A block of at most the median weight earns the full reward; above it, up to twice the median,
  the reward is the full one times \<^term>\<open>(2 * m - w) * w / (m * m)\<close>, rounded down, computed exactly by the 128 bit
  product and two divisions; it is then strictly smaller, and a heavier block is refused.  The median
  counts as at least 300000 and fits 32 bits.\<close>

theorem base_reward_penalty:
  assumes "coins \<noteq> 0" "unat median < 2 ^ 32"
  defines "m \<equiv> max (unat median) 300000"
  shows "case get_base_block_reward formula median w coins unset version height of
      None \<Rightarrow> 2 * m < unat w
    | Some (r, base) \<Rightarrow> unat w \<le> 2 * m \<and>
        get_base_block_reward formula median 0 coins unset version height = Some (base, base) \<and>
        unat r = (if unat w \<le> m then unat base else unat base * ((2 * m - unat w) * unat w) div (m * m)) \<and>
        r \<le> base \<and> (m < unat w \<longrightarrow> base \<noteq> 0 \<longrightarrow> r < base)"
proof (cases "2 * m < unat w")
  case True
  then show ?thesis using base_reward_cases[OF assms(1,2), of formula w unset version height]
    by (auto simp: m_def effective_median_def)
next
  case False
  have m: "m = effective_median median" by (simp add: m_def effective_median_def)
  from base_reward_penalty_exact[OF assms(1,2), of w formula unset version height] False
  obtain r base where rb: "get_base_block_reward formula median w coins unset version height = Some (r, base)"
      "get_base_block_reward formula median 0 coins unset version height = Some (base, base)"
      "unat r = (if unat w \<le> m then unat base else unat base * ((2 * m - unat w) * unat w) div (m * m))"
    unfolding m by auto
  have "r \<le> base \<and> (m < unat w \<longrightarrow> base \<noteq> 0 \<longrightarrow> r < base)"
    using rb(3) False penalized_le[of m "unat w" "unat base"] effective_median_pos[of median]
    unfolding m[symmetric] by (auto simp: word_le_nat_alt word_less_nat_alt unat_gt_0)
  then show ?thesis using rb False by simp
qed

theorem base_reward_penalty_witness:
  "get_base_block_reward (\<lambda>h. 0) 1000 400000 1 0 hf19_reward_batching 5 = Some (18355555555, 20650000000)
    \<and> (18355555555 :: nat) = 20650000000 * ((2 * 300000 - 400000) * 400000) div (300000 * 300000)"
proof -
  have h: "(1 :: u64) \<noteq> 0" "unat (1000 :: u64) < 2 ^ 32" by simp_all
  have e: "get_base_block_reward (\<lambda>h. 0) 1000 400000 1 0 hf19_reward_batching 5 = Some (18355555555, 20650000000)" by code_simp
  show ?thesis using base_reward_penalty[OF h, where w = 400000 and formula = "\<lambda>h. 0" and unset = 0 and version = hf19_reward_batching and height = 5] e by simp
qed

section \<open>The division of the reward\<close>

lemma pulse_base_reward:
  assumes "coins \<noteq> 0" "hf16_pulse \<le> version" "version < ETH_BLS"
  shows "\<exists>base. get_base_block_reward formula median 0 coins unset version height = Some (base, base) \<and>
    governance_reward_formula version base + service_node_reward_formula base version = base \<and>
    governance_reward_formula version base \<le> base \<and> 2 ^ 32 \<le> unat base"
proof -
  have v: "hf15_ons \<le> version" using assms(2) by (auto simp: hf_order)
  define base where "base = (if version \<ge> hf19_reward_batching then BLOCK_REWARD_HF19
      else if version \<ge> hf17 then BLOCK_REWARD_HF17 else BLOCK_REWARD_HF15)"
  have "get_base_block_reward formula median 0 coins unset version height = Some (base, base)"
    using assms(1) v by (simp add: get_base_block_reward_def Let_def base_def)
  moreover have "governance_reward_formula version base + service_node_reward_formula base version = base \<and>
    governance_reward_formula version base \<le> base \<and> 2 ^ 32 \<le> unat base"
    using assms(2,3) v by (auto simp: base_def governance_reward_formula_def service_node_reward_formula_def
        BLOCK_REWARD_HF19_def BLOCK_REWARD_HF17_def BLOCK_REWARD_HF15_def SN_REWARD_HF19_def SN_REWARD_HF15_def
        FOUNDATION_REWARD_HF19_def FOUNDATION_REWARD_HF17_def FOUNDATION_REWARD_HF15_def
        CHAINFLIP_LIQUIDITY_HF16_def COIN_def)
  ultimately show ?thesis by blast
qed

text \<open>C20. From hard fork 16 on, the division of the block reward never fails for want of or excess of
  reward: unless the block has twice the median weight or more, the governance and service node parts
  are returned and together are exactly the reward of an empty block; the miner gets no part of it,
  and of the fees what remains after the penalty of a heavy block.\<close>

theorem block_reward_conserved:
  assumes "coins \<noteq> 0" "unat median < 2 ^ 32" "hf16_pulse \<le> version" "version < ETH_BLS"
    and "unat w < 2 * max (unat median) 300000"
  shows "\<exists>r base parts. get_base_block_reward formula median w coins unset version (ctx_height ctx) = Some (r, base) \<and>
    get_oxen_block_reward formula unset median w coins version ctx = Reward_Parts parts \<and>
    unat (governance_due parts) + unat (service_node_total parts) = unat base \<and>
    original_base_reward parts = base \<and> base_miner parts = 0 \<and>
    governance_paid parts = batched_governance ctx \<and>
    unat (miner_fee parts) = unat (ctx_fee ctx) - (unat base - unat r)"
proof -
  let ?m = "effective_median median"
  have m: "?m = max (unat median) 300000" by (simp add: effective_median_def)
  then have w: "unat w \<le> 2 * ?m" using assms(5) by simp
  from base_reward_penalty_exact[OF assms(1,2) w, of formula unset version "ctx_height ctx"]
  obtain r base where rb: "get_base_block_reward formula median w coins unset version (ctx_height ctx) = Some (r, base)"
      "get_base_block_reward formula median 0 coins unset version (ctx_height ctx) = Some (base, base)"
      "unat r = (if unat w \<le> ?m then unat base else unat base * ((2 * ?m - unat w) * unat w) div (?m * ?m))"
    by blast
  from pulse_base_reward[OF assms(1,3,4), of formula median unset "ctx_height ctx"] rb(2)
  have sum: "governance_reward_formula version base + service_node_reward_formula base version = base"
    and le: "governance_reward_formula version base \<le> base" and big: "2 ^ 32 \<le> unat base" by auto
  have "?m \<le> unat base" using big assms(2) unfolding m by simp
  then have r0: "r \<noteq> 0" and rle: "r \<le> base"
    using rb(3) w assms(5) penalized_pos[of ?m "unat w" "unat base"] penalized_le(1)[of ?m "unat w" "unat base"]
      effective_median_pos[of median] big unfolding m[symmetric]
    by (auto simp: word_le_nat_alt unat_eq_zero simp flip: unat_gt_0 split: if_splits)
  have v: "\<not> version < hf16_pulse" "hf13_enforce_checkpoints \<le> version" "hf10_bulletproofs \<le> version" "\<not> ETH_BLS \<le> version"
    using assms(3,4) by (auto simp: hf_order)
  have pen: "unat (base - r) = unat base - unat r" using rle by (simp add: unat_sub)
  have fee: "unat (if base - r \<ge> ctx_fee ctx then 0 else ctx_fee ctx - (base - r)) =
      unat (ctx_fee ctx) - (unat base - unat r)"
    by (auto simp: word_le_nat_alt unat_sub pen)
  have "unat base = unat (governance_reward_formula version base) + unat (service_node_reward_formula base version)"
  proof -
    have "service_node_reward_formula base version = base - governance_reward_formula version base"
      using sum by (simp add: eq_diff_eq add.commute)
    then show ?thesis using le by (simp add: unat_sub word_le_nat_alt)
  qed
  then show ?thesis using rb(1) r0 assms(1) v fee sum
    by (simp add: get_oxen_block_reward_def Let_def)
qed

theorem block_reward_conserved_witness:
  "\<exists>r base parts. get_base_block_reward (\<lambda>h. 0) 1000 400000 1 0 hf19_reward_batching 5 = Some (r, base) \<and>
    get_oxen_block_reward (\<lambda>h. 0) 0 1000 400000 1 hf19_reward_batching
      \<lparr>ctx_height = 5, ctx_fee = 7, batched_governance = 0, block_leader_payouts = []\<rparr> = Reward_Parts parts \<and>
    unat (governance_due parts) + unat (service_node_total parts) = unat base"
proof -
  have h: "(1 :: u64) \<noteq> 0" "unat (1000 :: u64) < 2 ^ 32" "hf16_pulse \<le> hf19_reward_batching" "hf19_reward_batching < ETH_BLS"
    "unat (400000 :: u64) < 2 * max (unat (1000 :: u64)) 300000" by (simp_all add: hf_order)
  show ?thesis using block_reward_conserved[OF h, of "\<lambda>h. 0" 0
      "\<lparr>ctx_height = 5, ctx_fee = 7, batched_governance = 0, block_leader_payouts = []\<rparr>"] by auto
qed

section \<open>Shares by portions\<close>

abbreviation portions_total :: "payout_entry list \<Rightarrow> nat" where
  "portions_total payout \<equiv> sum_list (map (\<lambda>e. unat (payout_portions e)) payout)"

abbreviation share_of :: "u64 \<Rightarrow> payout_entry \<Rightarrow> nat" where
  "share_of amount e \<equiv> unat amount * unat (payout_portions e) div unat STAKING_PORTIONS"

lemma sum_shares_le:
  "sum_list (map (share_of amount) payout) \<le> unat amount * portions_total payout div unat STAKING_PORTIONS"
proof (induction payout)
  case (Cons e payout)
  have "share_of amount e + unat amount * portions_total payout div unat STAKING_PORTIONS
      \<le> (unat amount * unat (payout_portions e) + unat amount * portions_total payout) div unat STAKING_PORTIONS"
    by (subst div_add1_eq) (rule le_add1)
  then show ?case using Cons by (simp add: distrib_left)
qed simp

lemma shares_within:
  assumes "portions_total payout \<le> unat STAKING_PORTIONS"
  shows "sum_list (map (share_of amount) payout) \<le> unat amount"
proof -
  have "unat amount * portions_total payout div unat STAKING_PORTIONS \<le> unat amount * unat STAKING_PORTIONS div unat STAKING_PORTIONS"
    using assms by (intro div_le_mono mult_le_mono2)
  also have "\<dots> = unat amount" by (simp add: STAKING_PORTIONS_def)
  finally show ?thesis using sum_shares_le le_trans by blast
qed

lemma portion_of_reward:
  assumes "unat (payout_portions e) \<le> unat STAKING_PORTIONS"
  shows "unat (get_portion_of_reward (payout_portions e) amount) = share_of amount e"
proof -
  have "share_of amount e \<le> unat amount" using shares_within[of "[e]"] assms by simp
  then have "share_of amount e < 2 ^ 64" using u64_less[of amount] by (rule le_less_trans)
  then show ?thesis by (simp add: get_portion_of_reward_def mul128_div64_unat)
qed

lemma map_portions:
  assumes "portions_total payout \<le> unat STAKING_PORTIONS"
  shows "map (\<lambda>e. unat (get_portion_of_reward (payout_portions e) amount)) payout = map (share_of amount) payout"
proof (rule map_cong[OF refl])
  fix e assume "e \<in> set payout"
  then have "unat (payout_portions e) \<le> portions_total payout" using member_le_sum_list[of "unat (payout_portions e)"] by force
  then show "unat (get_portion_of_reward (payout_portions e) amount) = share_of amount e"
    using assms by (intro portion_of_reward) linarith
qed

lemma distribute_fold:
  "foldl (\<lambda>(paid, result) e. (paid + get_portion_of_reward (payout_portions e) amount,
      result @ [get_portion_of_reward (payout_portions e) amount])) (p, rs) payout
    = (foldl (\<lambda>reward e. reward + get_portion_of_reward (payout_portions e) amount) p payout,
       rs @ map (\<lambda>e. get_portion_of_reward (payout_portions e) amount) payout)"
  by (induction payout arbitrary: p rs) simp_all

lemma sum_fold:
  assumes "unat p + sum_list (map (\<lambda>e. unat (f e)) payout) < 2 ^ 64"
  shows "unat (foldl (\<lambda>reward e. reward + f e) (p :: u64) payout) = unat p + sum_list (map (\<lambda>e. unat (f e)) payout)"
  using assms
proof (induction payout arbitrary: p)
  case (Cons e payout)
  then have "unat (p + f e) = unat p + unat (f e)" by (simp add: unat_word_ariths)
  then show ?case using Cons.IH[of "p + f e"] Cons.prems by (simp add: add.assoc)
qed simp

lemma sum_of_portions:
  assumes "portions_total payout \<le> unat STAKING_PORTIONS"
  shows "unat (calculate_sum_of_portions payout amount) = sum_list (map (share_of amount) payout)"
  using sum_fold[of 0 "\<lambda>e. get_portion_of_reward (payout_portions e) amount" payout]
    shares_within[OF assms, of amount] u64_less[of amount]
  by (simp add: calculate_sum_of_portions_def map_portions[OF assms])

lemma distribute_eq:
  "distribute_reward_by_portions payout amount rem =
     (let result = map (\<lambda>e. get_portion_of_reward (payout_portions e) amount) payout
      in if rem \<and> payout \<noteq> [] then (hd result + (amount - calculate_sum_of_portions payout amount)) # tl result else result)"
  by (simp add: distribute_reward_by_portions_def calculate_sum_of_portions_def Let_def distribute_fold)

text \<open>A reward divided by portions that are together at most the whole is never exceeded, and with the remainder
  given to the first it is paid out exactly: every recipient gets the share rounded down, and the
  first in addition what the rounding left.\<close>

lemma distribute_reward_exact:
  assumes "sum_list (map (\<lambda>e. unat (payout_portions e)) payout) \<le> unat STAKING_PORTIONS"
  shows "map unat (distribute_reward_by_portions payout amount False) = map (share_of amount) payout \<and>
    sum_list (map (share_of amount) payout) \<le> unat amount \<and>
    (payout \<noteq> [] \<longrightarrow> sum_list (map unat (distribute_reward_by_portions payout amount True)) = unat amount \<and>
      map unat (tl (distribute_reward_by_portions payout amount True)) = map (share_of amount) (tl payout))"
proof -
  have pt: "portions_total payout \<le> unat STAKING_PORTIONS" using assms(1) .
  note mp = map_portions[OF pt, of amount] and within = shares_within[OF pt, of amount]
  have rem: "unat (amount - calculate_sum_of_portions payout amount) = unat amount - sum_list (map (share_of amount) payout)"
    using within sum_of_portions[OF pt, of amount] by (simp add: unat_sub word_le_nat_alt)
  show ?thesis
  proof (cases payout)
    case Nil
    then show ?thesis by (simp add: distribute_eq)
  next
    case (Cons e es)
    have h: "unat (get_portion_of_reward (payout_portions e) amount) = share_of amount e"
      and t: "map (\<lambda>e. unat (get_portion_of_reward (payout_portions e) amount)) es = map (share_of amount) es"
      using mp Cons by simp_all
    have "unat (get_portion_of_reward (payout_portions e) amount + (amount - calculate_sum_of_portions payout amount))
        = unat amount - sum_list (map (share_of amount) es)"
      using rem h within u64_less[of amount] unfolding Cons by (simp add: unat_word_ariths(1))
    then show ?thesis using within unfolding Cons by (simp add: distribute_eq comp_def t h)
  qed
qed

end
