(* ===== verification/Difficulty.thy ===== *)
theory Difficulty
  imports Int_Util Hardfork
begin

text \<open>
  Proof of work, \<^verbatim>\<open>src/cryptonote_basic/difficulty.cpp\<close>: the test of a hash against a difficulty, the window
  of time stamps and difficulties, and the choice of the calculation mode.  The calculation itself
  (\<^verbatim>\<open>next_difficulty_v2\<close>) is floating point arithmetic and is not modelled.
\<close>

section \<open>Definitions\<close>

definition cadd :: "u64 \<Rightarrow> u64 \<Rightarrow> bool" where
  "cadd a b \<longleftrightarrow> a + b < a"

definition cadc :: "u64 \<Rightarrow> u64 \<Rightarrow> bool \<Rightarrow> bool" where
  "cadc a b c \<longleftrightarrow> a + b < a \<or> (c \<and> a + b = -1)"

text \<open>The hash read as four 64 bit words, least significant byte first.\<close>

definition hash_word :: "bytes \<Rightarrow> nat \<Rightarrow> u64" where
  "hash_word hash i = foldr (\<lambda>b n. n * 256 + ucast b) (take 8 (drop (8 * i) hash)) 0"

definition check_hash :: "bytes \<Rightarrow> u64 \<Rightarrow> bool" where
  "check_hash hash difficulty =
     (let (top, high3) = mul128 (hash_word hash 3) difficulty in
      if high3 \<noteq> 0 then False
      else
        let (low0, cur) = mul128 (hash_word hash 0) difficulty;
            (low1, high1) = mul128 (hash_word hash 1) difficulty;
            carry1 = cadd cur low1;
            (low2, high2) = mul128 (hash_word hash 2) difficulty;
            carry2 = cadc high1 low2 carry1;
            carry3 = cadc high2 top carry2
        in \<not> carry3)"

definition old_DIFFICULTY_WINDOW :: nat where "old_DIFFICULTY_WINDOW = 59"

definition DIFFICULTY_BLOCKS_COUNT :: "bool \<Rightarrow> nat" where
  "DIFFICULTY_BLOCKS_COUNT before_hf16 =
     (if before_hf16 then old_DIFFICULTY_WINDOW + 2 else old_DIFFICULTY_WINDOW + 1)"

text \<open>The loop that erases the front while the vector is too long.\<close>

function trim_front :: "nat \<Rightarrow> 'a list \<Rightarrow> 'a list" where
  "trim_front count xs = (if length xs > count then trim_front count (tl xs) else xs)"
  by auto
termination by (relation "measure (\<lambda>(c, xs). length xs)") auto

definition add_timestamp_and_difficulty ::
  "hard_fork list \<Rightarrow> network_type \<Rightarrow> nat \<Rightarrow> u64 list \<Rightarrow> u64 list \<Rightarrow> u64 \<Rightarrow> u64 \<Rightarrow> u64 list \<times> u64 list" where
  "add_timestamp_and_difficulty fakechain nettype chain_height timestamps difficulties timestamp cumulative_difficulty =
     (let before_hf16 = (\<not> is_hard_fork_at_least fakechain nettype hf16_pulse chain_height)
      in (trim_front (DIFFICULTY_BLOCKS_COUNT before_hf16) (timestamps @ [timestamp]),
          trim_front (DIFFICULTY_BLOCKS_COUNT before_hf16) (difficulties @ [cumulative_difficulty])))"

datatype difficulty_calc_mode = use_old_lwma | hf12_override | hf16_override | devnet_mode | normal_mode

definition difficulty_mode :: "hard_fork list \<Rightarrow> network_type \<Rightarrow> nat \<Rightarrow> difficulty_calc_mode" where
  "difficulty_mode fakechain nettype height =
     (if nettype = DEVNET \<or> nettype = LOCALDEV \<or> nettype = STAGENET then devnet_mode
      else if \<not> is_hard_fork_at_least fakechain nettype hf10_bulletproofs height then use_old_lwma
      else if (case fst (get_hard_fork_heights fakechain nettype hf12_checkpointing) of
                 None \<Rightarrow> False | Some start \<Rightarrow> height \<ge> start \<and> height \<le> start + old_DIFFICULTY_WINDOW)
      then hf12_override
      else if nettype = MAINNET \<and>
              (case fst (get_hard_fork_heights fakechain nettype hf16_pulse) of
                 None \<Rightarrow> False | Some start \<Rightarrow> height \<ge> start \<and> height \<le> start + old_DIFFICULTY_WINDOW)
      then hf16_override
      else normal_mode)"

section \<open>A hash as a number\<close>

definition le_nat :: "bytes \<Rightarrow> nat" where
  "le_nat bs = foldr (\<lambda>b n. n * 256 + unat b) bs 0"

lemma le_nat_simps [simp]: "le_nat [] = 0" "le_nat (b # bs) = le_nat bs * 256 + unat b"
  by (simp_all add: le_nat_def)

lemma le_nat_less: "le_nat bs < 256 ^ length bs"
proof (induction bs)
  case (Cons b bs)
  have "unat b < 256" using unsigned_less[of b, where 'a=nat] by simp
  then show ?case using Cons by (simp add: algebra_simps)
qed simp

lemma le_nat_append: "le_nat (as @ bs) = le_nat as + le_nat bs * 256 ^ length as"
  by (induction as) (simp_all add: algebra_simps)

lemma le_nat_zeros: "le_nat (replicate n 0) = 0"
  by (induction n) simp_all

lemma word_le_nat:
  "length bs \<le> 8 \<Longrightarrow> unat (foldr (\<lambda>b n. n * 256 + ucast b) bs 0 :: u64) = le_nat bs"
proof (induction bs)
  case (Cons b bs)
  have "le_nat (b # bs) < 256 ^ length (b # bs)" by (rule le_nat_less)
  also have "(256::nat) ^ length (b # bs) \<le> 256 ^ 8" using Cons.prems by (intro power_increasing) auto
  finally have "le_nat bs * 256 + unat b < 2 ^ 64" by simp
  moreover have "unat (ucast b :: u64) = unat b"
    using unsigned_less[of b, where 'a=nat] by (simp add: unat_ucast_byte)
  ultimately show ?case using Cons by (simp add: unat_word_ariths)
qed simp

lemma le_nat_words:
  assumes "length hash = 32"
  shows "le_nat hash = unat (hash_word hash 0) + unat (hash_word hash 1) * 2 ^ 64 +
    unat (hash_word hash 2) * 2 ^ 128 + unat (hash_word hash 3) * 2 ^ 192"
proof -
  have w: "unat (hash_word hash i) = le_nat (take 8 (drop (8 * i) hash))" for i
    unfolding hash_word_def by (rule word_le_nat) simp
  have split: "le_nat (drop n hash) = le_nat (take 8 (drop n hash)) + le_nat (drop (n + 8) hash) * 2 ^ 64"
    if "n + 8 \<le> 32" for n
  proof -
    have len: "length (take 8 (drop n hash)) = 8" using that assms by simp
    have "le_nat (drop n hash) = le_nat (take 8 (drop n hash) @ drop 8 (drop n hash))"
      by (simp only: append_take_drop_id)
    also have "\<dots> = le_nat (take 8 (drop n hash)) + le_nat (drop 8 (drop n hash)) * 256 ^ 8"
      by (simp only: le_nat_append len)
    finally show ?thesis by (simp add: add.commute)
  qed
  define a b where "a = (\<lambda>i. le_nat (take 8 (drop (8 * i) hash)))" and "b = (\<lambda>n. le_nat (drop n hash))"
  have step: "b (8 * i) = a i + b (8 * Suc i) * 2 ^ 64" if "i < 4" for i
    using split[of "8 * i"] that unfolding a_def b_def by (simp add: add.commute)
  have "b 32 = 0" using assms by (simp add: b_def)
  then have "b 24 = a 3" "b 16 = a 2 + b 24 * 2 ^ 64" "b 8 = a 1 + b 16 * 2 ^ 64" "b 0 = a 0 + b 8 * 2 ^ 64"
    using step[of 3] step[of 2] step[of 1] step[of 0] by simp_all
  then have "b 0 = a 0 + a 1 * 2 ^ 64 + a 2 * 2 ^ 128 + a 3 * 2 ^ 192" by simp
  then show ?thesis by (simp only: w a_def b_def) simp
qed

section \<open>The carries\<close>

lemma cadd_iff: "cadd a b \<longleftrightarrow> 2 ^ 64 \<le> unat a + unat b"
  using carry_add[of a b] u64_less[of "a + b"] unfolding cadd_def by (auto split: if_splits)

lemma cadc_iff: "cadc a b c \<longleftrightarrow> 2 ^ 64 \<le> unat a + unat b + of_bool c"
proof -
  have m1: "unat (-1 :: u64) = 2 ^ 64 - 1"
    by (simp add: unsigned_minus_1_eq_mask mask_eq_exp_minus_1)
  have "a + b = -1 \<longleftrightarrow> unat (a + b) = 2 ^ 64 - 1" by (simp only: word_unat_eq_iff m1)
  then show ?thesis using carry_add[of a b] u64_less[of "a + b"] unfolding cadc_def by (auto split: if_splits)
qed

text \<open>The carries are the carries of the long multiplication.\<close>

lemma long_multiplication:
  fixes w0 w1 w2 w3 d B :: nat
  assumes "0 < B"
  defines "c1 \<equiv> (w0 * d div B + w1 * d mod B) div B"
  defines "c2 \<equiv> (w1 * d div B + w2 * d mod B + c1) div B"
  defines "c3 \<equiv> (w2 * d div B + w3 * d mod B + c2) div B"
  shows "(w0 + w1 * B + w2 * (B * B) + w3 * (B * B * B)) * d div (B * B * B * B) = w3 * d div B + c3"
proof -
  have step: "(x + y * B) div B = x div B + y" for x y using assms(1) by simp
  have "(w0 + w1 * B + w2 * (B * B) + w3 * (B * B * B)) * d
      = w0 * d + (w1 * d + (w2 * d + (w3 * d) * B) * B) * B" by (simp add: algebra_simps)
  then have "(w0 + w1 * B + w2 * (B * B) + w3 * (B * B * B)) * d div (B * B * B * B)
      = (w0 * d + (w1 * d + (w2 * d + (w3 * d) * B) * B) * B) div B div B div B div B"
    by (simp only: div_mult2_eq)
  also have "\<dots> = (w0 * d div B + (w1 * d + (w2 * d + (w3 * d) * B) * B)) div B div B div B"
    by (simp only: step)
  also have "w0 * d div B + (w1 * d + (w2 * d + (w3 * d) * B) * B)
      = (w0 * d div B + w1 * d mod B) + (w1 * d div B + (w2 * d + (w3 * d) * B)) * B"
    using div_mult_mod_eq[of "w1 * d" B] by (simp add: algebra_simps)
  also have "\<dots> div B div B div B = (c1 + (w1 * d div B + (w2 * d + (w3 * d) * B))) div B div B"
    by (simp only: step c1_def)
  also have "c1 + (w1 * d div B + (w2 * d + (w3 * d) * B))
      = (w1 * d div B + w2 * d mod B + c1) + (w2 * d div B + w3 * d) * B"
    using div_mult_mod_eq[of "w2 * d" B] by (simp add: algebra_simps)
  also have "\<dots> div B div B = (c2 + (w2 * d div B + w3 * d)) div B"
    by (simp only: step c2_def)
  also have "c2 + (w2 * d div B + w3 * d) = (w2 * d div B + w3 * d mod B + c2) + (w3 * d div B) * B"
    using div_mult_mod_eq[of "w3 * d" B] by (simp add: algebra_simps)
  also have "\<dots> div B = c3 + w3 * d div B" by (simp only: step c3_def)
  finally show ?thesis by simp
qed

lemma carry_div:
  assumes "x < B" "y < B" "c \<le> (1::nat)" shows "(x + y + c) div B = of_bool (B \<le> x + y + c)"
proof (cases "B \<le> x + y + c")
  case True
  moreover have "x + y + c < B * 2" using assms by linarith
  ultimately have "(x + y + c) div B = 1" using assms by (intro div_nat_eqI) auto
  then show ?thesis using True by simp
qed simp

lemma check_hash_carry:
  fixes hash d
  defines "w \<equiv> (\<lambda>i. unat (hash_word hash i))" and "B \<equiv> 2 ^ 64 :: nat"
  defines "c1 \<equiv> (w 0 * unat d div B + w 1 * unat d mod B) div B"
  defines "c2 \<equiv> (w 1 * unat d div B + w 2 * unat d mod B + c1) div B"
  defines "c3 \<equiv> (w 2 * unat d div B + w 3 * unat d mod B + c2) div B"
  shows "check_hash hash d \<longleftrightarrow> w 3 * unat d div B = 0 \<and> c3 = 0"
proof -
  have lt: "w i * unat d div B < B" "w i * unat d mod B < B" for i
    using mult_u64_less[of "hash_word hash i" d] unfolding w_def B_def by (simp_all add: less_mult_imp_div_less)
  have c1: "c1 = of_bool (cadd (snd (mul128 (hash_word hash 0) d)) (fst (mul128 (hash_word hash 1) d)))"
    using carry_div[OF lt(1) lt(2), of 0 0 1] unfolding c1_def cadd_iff mul128_unat by (simp add: w_def B_def)
  have c2: "c2 = of_bool (cadc (snd (mul128 (hash_word hash 1) d)) (fst (mul128 (hash_word hash 2) d)) (c1 = 1))"
    using carry_div[OF lt(1) lt(2), of c1 1 2] c1 unfolding c2_def cadc_iff mul128_unat by (simp add: w_def B_def)
  have c3: "c3 = of_bool (cadc (snd (mul128 (hash_word hash 2) d)) (fst (mul128 (hash_word hash 3) d)) (c2 = 1))"
    using carry_div[OF lt(1) lt(2), of c2 2 3] c2 unfolding c3_def cadc_iff mul128_unat by (simp add: w_def B_def)
  have top: "snd (mul128 (hash_word hash 3) d) = 0 \<longleftrightarrow> w 3 * unat d div B = 0"
    by (simp add: word_unat_eq_iff mul128_unat w_def B_def)
  show ?thesis unfolding check_hash_def Let_def split_beta top using c1 c2 c3 by (simp add: of_bool_def)
qed

section \<open>Properties\<close>

text \<open>C30. The word by word test with carries accepts a hash exactly when the hash, read as a 256 bit number
  with the least significant byte first, times the difficulty stays below 2 to the 256.\<close>

theorem check_hash_iff:
  assumes "length hash = 32"
  shows "check_hash hash difficulty \<longleftrightarrow> le_nat hash * unat difficulty < 2 ^ 256"
proof -
  let ?w = "\<lambda>i. unat (hash_word hash i)" and ?B = "2 ^ 64 :: nat"
  have n: "le_nat hash = ?w 0 + ?w 1 * ?B + ?w 2 * (?B * ?B) + ?w 3 * (?B * ?B * ?B)"
    using le_nat_words[OF assms] by simp
  have "check_hash hash difficulty \<longleftrightarrow> le_nat hash * unat difficulty div (?B * ?B * ?B * ?B) = 0"
    unfolding n check_hash_carry by (subst long_multiplication) simp_all
  also have "\<dots> \<longleftrightarrow> le_nat hash * unat difficulty < 2 ^ 256"
    by (simp add: div_eq_0_iff)
  finally show ?thesis .
qed

theorem check_hash_iff_witness:
  "check_hash (replicate 31 0 @ [1]) 255 \<and> \<not> check_hash (replicate 31 0 @ [1]) 256"
  using check_hash_iff[of "replicate 31 0 @ [1]" 255] check_hash_iff[of "replicate 31 0 @ [1]" 256]
  by (simp add: le_nat_append le_nat_zeros)

end
