(* ===== verification/Pruning.thy ===== *)
theory Pruning
  imports Xeq_Prelude
begin

text \<open>
  The stripes of a pruned block chain, \<^verbatim>\<open>src/common/pruning.cpp\<close> and \<^verbatim>\<open>.h\<close>: the packing of a stripe and of the
  number of stripes into a seed, which blocks a peer with a given seed still has, and the search for
  the next block that such a peer has or has not.  Heights are 64 bit, seeds 32 bit words; a failed
  check that throws is \<^const>\<open>None\<close>.
\<close>

section \<open>Definitions\<close>

definition PRUNING_STRIPE_SIZE :: u64 where "PRUNING_STRIPE_SIZE = 4096"
definition PRUNING_LOG_STRIPES :: u64 where "PRUNING_LOG_STRIPES = 3"
definition PRUNING_TIP_BLOCKS :: u64 where "PRUNING_TIP_BLOCKS = 5500"
definition MAX_BLOCK_NUMBER :: u64 where "MAX_BLOCK_NUMBER = 500000000"

definition PRUNING_SEED_LOG_STRIPES_SHIFT :: nat where "PRUNING_SEED_LOG_STRIPES_SHIFT = 7"
definition PRUNING_SEED_LOG_STRIPES_MASK :: u32 where "PRUNING_SEED_LOG_STRIPES_MASK = 0x7"
definition PRUNING_SEED_STRIPE_SHIFT :: nat where "PRUNING_SEED_STRIPE_SHIFT = 0"
definition PRUNING_SEED_STRIPE_MASK :: u32 where "PRUNING_SEED_STRIPE_MASK = 0x7f"

definition get_pruning_log_stripes :: "u32 \<Rightarrow> u32" where
  "get_pruning_log_stripes pruning_seed =
     drop_bit PRUNING_SEED_LOG_STRIPES_SHIFT pruning_seed AND PRUNING_SEED_LOG_STRIPES_MASK"

definition get_seed_stripe :: "u32 \<Rightarrow> u32" where
  "get_seed_stripe pruning_seed =
     (if pruning_seed = 0 then 0
      else 1 + (drop_bit PRUNING_SEED_STRIPE_SHIFT pruning_seed AND PRUNING_SEED_STRIPE_MASK))"

definition make_pruning_seed :: "u32 \<Rightarrow> u32 \<Rightarrow> u32 option" where
  "make_pruning_seed stripe log_stripes =
     (if \<not> log_stripes \<le> PRUNING_SEED_LOG_STRIPES_MASK then None
      else if \<not> (stripe > 0 \<and> ucast stripe \<le> (push_bit (unat log_stripes) 1 :: u64)) then None
      else Some (push_bit PRUNING_SEED_LOG_STRIPES_SHIFT log_stripes OR
                 push_bit PRUNING_SEED_STRIPE_SHIFT (stripe - 1)))"

definition get_pruning_stripe :: "u64 \<Rightarrow> u64 \<Rightarrow> u32 \<Rightarrow> u32" where
  "get_pruning_stripe block_height blockchain_height log_stripes =
     (if block_height + PRUNING_TIP_BLOCKS \<ge> blockchain_height then 0
      else ucast ((block_height div PRUNING_STRIPE_SIZE AND (push_bit (unat log_stripes) 1 - 1)) + 1))"

definition has_unpruned_block :: "u64 \<Rightarrow> u64 \<Rightarrow> u32 \<Rightarrow> bool" where
  "has_unpruned_block block_height blockchain_height pruning_seed =
     (let stripe = get_seed_stripe pruning_seed in
      if stripe = 0 then True
      else
        (let log_stripes = get_pruning_log_stripes pruning_seed;
             block_stripe = get_pruning_stripe block_height blockchain_height log_stripes
         in block_stripe = 0 \<or> block_stripe = stripe))"

definition get_pruning_seed :: "u64 \<Rightarrow> u64 \<Rightarrow> u32 \<Rightarrow> u32 option" where
  "get_pruning_seed block_height blockchain_height log_stripes =
     (let stripe = get_pruning_stripe block_height blockchain_height log_stripes in
      if stripe = 0 then Some 0 else make_pruning_seed stripe log_stripes)"

definition get_next_unpruned_block_height :: "u64 \<Rightarrow> u64 \<Rightarrow> u32 \<Rightarrow> u64" where
  "get_next_unpruned_block_height block_height blockchain_height pruning_seed =
     (if \<not> block_height \<le> MAX_BLOCK_NUMBER + 1 then block_height
      else if \<not> blockchain_height \<le> MAX_BLOCK_NUMBER + 1 then block_height
      else
        (let stripe = get_seed_stripe pruning_seed in
         if stripe = 0 then block_height
         else if block_height + PRUNING_TIP_BLOCKS \<ge> blockchain_height then block_height
         else
           (let seed_log_stripes = get_pruning_log_stripes pruning_seed;
                log_stripes = unat (if seed_log_stripes \<noteq> 0 then ucast seed_log_stripes else PRUNING_LOG_STRIPES);
                mask = (push_bit log_stripes 1 - 1 :: u64);
                block_pruning_stripe = (ucast ((block_height div PRUNING_STRIPE_SIZE AND mask) + 1) :: u32)
            in if block_pruning_stripe = stripe then block_height
               else
                 (let cycles = drop_bit log_stripes (block_height div PRUNING_STRIPE_SIZE);
                      cycle_start = cycles + (if stripe > block_pruning_stripe then 0 else 1);
                      h = cycle_start * push_bit log_stripes PRUNING_STRIPE_SIZE
                          + ucast (stripe - 1) * PRUNING_STRIPE_SIZE
                  in if h + PRUNING_TIP_BLOCKS > blockchain_height
                     then (if blockchain_height < PRUNING_TIP_BLOCKS then 0
                           else blockchain_height - PRUNING_TIP_BLOCKS)
                     else if \<not> h \<ge> block_height then block_height
                     else h))))"

definition get_next_pruned_block_height :: "u64 \<Rightarrow> u64 \<Rightarrow> u32 \<Rightarrow> u64 option" where
  "get_next_pruned_block_height block_height blockchain_height pruning_seed =
     (let stripe = get_seed_stripe pruning_seed in
      if stripe = 0 then Some blockchain_height
      else if block_height + PRUNING_TIP_BLOCKS \<ge> blockchain_height then Some blockchain_height
      else
        (let seed_log_stripes = get_pruning_log_stripes pruning_seed;
             log_stripes = (if seed_log_stripes \<noteq> 0 then ucast seed_log_stripes else PRUNING_LOG_STRIPES);
             mask = (push_bit (unat log_stripes) 1 - 1 :: u64);
             block_pruning_seed = (ucast ((block_height div PRUNING_STRIPE_SIZE AND mask) + 1) :: u32)
         in if block_pruning_seed \<noteq> stripe then Some block_height
            else
              (let next_stripe = (ucast (1 + (ucast block_pruning_seed AND mask)) :: u32)
               in map_option (get_next_unpruned_block_height block_height blockchain_height)
                    (make_pruning_seed next_stripe (ucast log_stripes)))))"

text \<open>The random byte is an argument.\<close>

definition get_random_stripe :: "u8 \<Rightarrow> u32" where
  "get_random_stripe r = ucast (1 + (ucast r mod push_bit (unat PRUNING_LOG_STRIPES) 1) :: u64)"

lemmas pruning_constants = PRUNING_STRIPE_SIZE_def PRUNING_LOG_STRIPES_def PRUNING_TIP_BLOCKS_def
  MAX_BLOCK_NUMBER_def PRUNING_SEED_LOG_STRIPES_SHIFT_def PRUNING_SEED_LOG_STRIPES_MASK_def
  PRUNING_SEED_STRIPE_SHIFT_def PRUNING_SEED_STRIPE_MASK_def

section \<open>Residues\<close>

text \<open>The least number not below \<^term>\<open>a\<close> with a given residue.\<close>

definition next_residue :: "nat \<Rightarrow> nat \<Rightarrow> nat \<Rightarrow> nat" where
  "next_residue m t a = (a div m + (if a mod m \<le> t then 0 else 1)) * m + t"

lemma next_residue:
  assumes "t < m"
  shows "next_residue m t a mod m = t" "a \<le> next_residue m t a"
    "a \<le> k \<Longrightarrow> k < next_residue m t a \<Longrightarrow> k mod m \<noteq> t"
proof -
  have a: "a = a div m * m + a mod m" by simp
  have am: "a mod m < m" using assms by simp
  show "next_residue m t a mod m = t" using assms by (simp add: next_residue_def)
  show "a \<le> next_residue m t a"
  proof (cases "a mod m \<le> t")
    case True
    then show ?thesis using a unfolding next_residue_def by (simp, linarith)
  next
    case False
    then show ?thesis using a am unfolding next_residue_def by (simp add: add_mult_distrib, linarith)
  qed
  assume k: "a \<le> k" "k < next_residue m t a"
  show "k mod m \<noteq> t"
  proof
    assume t: "k mod m = t"
    define c where "c = a div m + (if a mod m \<le> t then 0 else 1)"
    have kd: "k = k div m * m + t" using t by (metis div_mult_mod_eq)
    have "k div m * m < c * m" using k(2) kd unfolding next_residue_def c_def by linarith
    then have lt: "k div m < c" by simp
    have ge: "a div m \<le> k div m" using k(1) by (rule div_le_mono)
    then have "a mod m > t" "k div m = a div m" using lt unfolding c_def by (auto split: if_splits)
    then show False using k(1) kd a by (metis add_less_cancel_left not_le)
  qed
qed

lemma next_residue_le: "t < m \<Longrightarrow> next_residue m t a \<le> a + 2 * m"
proof -
  assume t: "t < m"
  have "a div m * m \<le> a" by (rule div_times_less_eq_dividend)
  then have "(a div m + 1) * m + t \<le> a + 2 * m" "a div m * m + t \<le> a + 2 * m"
    using t unfolding add_mult_distrib by linarith+
  then show ?thesis unfolding next_residue_def by simp
qed

section \<open>The definitions over natural numbers\<close>

lemma unat_widen: "unat (ucast (s :: u32) :: u64) = unat s"
proof -
  have "unat s < 2 ^ 32" using unsigned_less[of s] by simp
  then have "unat s < 2 ^ 64" by simp
  then show ?thesis by (simp add: unsigned_ucast_eq take_bit_nat_eq_self)
qed

lemma ucast_widen: "ucast (ucast (s :: u32) :: u64) = s"
proof (rule bit_word_eqI)
  show "bit (ucast (ucast s :: u64) :: u32) n = bit s n" if "n < LENGTH(32)" for n
    using that by (simp add: bit_simps)
qed

lemma and_low_bits: "x AND (push_bit l 1 - 1) = take_bit l (x :: u64)"
  by (simp add: take_bit_eq_mask mask_eq_exp_minus_1 push_bit_eq_mult)

lemma unat_low_bits: "unat (x AND (push_bit l 1 - 1) :: u64) = unat x mod 2 ^ l"
proof -
  have "unat (take_bit l x) = take_bit l (unat x)" by (rule unsigned_take_bit_eq)
  then show ?thesis by (simp only: and_low_bits take_bit_eq_mod)
qed

lemma unat_stripes: "unat (h div PRUNING_STRIPE_SIZE) = unat h div 4096"
  by (simp add: PRUNING_STRIPE_SIZE_def unat_div)

abbreviation stripe_at :: "nat \<Rightarrow> nat \<Rightarrow> nat" where
  "stripe_at l h \<equiv> h div 4096 mod 2 ^ l + 1"

lemma pow_le_128: "l \<le> 7 \<Longrightarrow> 2 ^ l \<le> (128 :: nat)"
  using power_increasing[of l 7 "2 :: nat"] by simp

lemma unat_block_stripe:
  assumes "l \<le> 7"
  shows "unat (ucast ((h div PRUNING_STRIPE_SIZE AND (push_bit l 1 - 1)) + 1 :: u64) :: u32) = stripe_at l (unat h)"
proof -
  let ?x = "h div PRUNING_STRIPE_SIZE AND (push_bit l 1 - 1)"
  have x: "unat ?x = unat h div 4096 mod 2 ^ l" by (simp only: unat_low_bits unat_stripes)
  have "unat ?x < 2 ^ l" unfolding x by simp
  then have lt: "unat ?x < 128" using pow_le_128[OF assms] by linarith
  then have "unat (?x + 1) = unat ?x + 1" by (simp add: unat_word_ariths)
  then show ?thesis using lt x by (simp add: unsigned_ucast_eq take_bit_nat_eq_self_iff)
qed

lemma unat_tip:
  assumes "unat h \<le> 500000001" shows "unat (h + PRUNING_TIP_BLOCKS) = unat h + 5500"
  using assms by (simp add: PRUNING_TIP_BLOCKS_def unat_word_ariths)

lemma unat_get_pruning_stripe:
  assumes "unat h \<le> 500000001" "unat lg \<le> 7"
  shows "unat (get_pruning_stripe h bc lg) = (if unat bc \<le> unat h + 5500 then 0 else stripe_at (unat lg) (unat h))"
  using unat_block_stripe[OF assms(2), of h]
  by (simp add: get_pruning_stripe_def word_le_nat_alt unat_tip[OF assms(1)])

lemma unat_log_stripes: "unat (get_pruning_log_stripes seed) \<le> 7"
proof -
  have "(7 :: u32) = mask 3" by (simp add: mask_eq_exp_minus_1)
  then have "get_pruning_log_stripes seed = take_bit 3 (drop_bit 7 seed)"
    by (simp add: get_pruning_log_stripes_def pruning_constants take_bit_eq_mask)
  then have "unat (get_pruning_log_stripes seed) = take_bit 3 (unat (drop_bit 7 seed))"
    by (simp only: unsigned_take_bit_eq)
  then show ?thesis by (simp add: take_bit_eq_mod)
qed

lemma has_unpruned_block_iff:
  assumes "unat h \<le> 500000001"
  shows "has_unpruned_block h bc seed \<longleftrightarrow> get_seed_stripe seed = 0 \<or> unat bc \<le> unat h + 5500 \<or>
    stripe_at (unat (get_pruning_log_stripes seed)) (unat h) = unat (get_seed_stripe seed)"
  unfolding has_unpruned_block_def Let_def word_unat_eq_iff[of "get_pruning_stripe _ _ _"]
    unat_get_pruning_stripe[OF assms unat_log_stripes]
  by auto

text \<open>The start of the next stripe.\<close>

lemma next_stripe_start:
  fixes h :: u64 and s :: u32
  assumes "l \<le> 7" "1 \<le> unat s" "unat s \<le> 2 ^ l" "unat h \<le> 500000001" "stripe_at l (unat h) \<noteq> unat s"
  shows "unat ((drop_bit l (h div PRUNING_STRIPE_SIZE) + (if stripe_at l (unat h) < unat s then 0 else 1)) *
      push_bit l PRUNING_STRIPE_SIZE + ucast (s - 1) * PRUNING_STRIPE_SIZE)
    = next_residue (2 ^ l) (unat s - 1) (unat h div 4096) * 4096"
proof -
  let ?a = "unat h div 4096" and ?m = "2 ^ l :: nat"
  define c where "c = ?a div ?m + (if stripe_at l (unat h) < unat s then 0 else 1)"
  have m: "1 \<le> ?m" "?m \<le> 128" using pow_le_128[OF assms(1)] by auto
  have a: "?a \<le> 122071" using div_le_mono[OF assms(4), of 4096] by simp
  have ad: "?a div ?m \<le> 122071" using div_le_dividend a by (rule le_trans)
  then have c: "c \<le> 122072" unfolding c_def by auto
  have cyc: "unat (drop_bit l (h div PRUNING_STRIPE_SIZE)) = ?a div ?m"
    by (subst unat_drop_bit_eq) (simp add: drop_bit_eq_div unat_stripes)
  have cs: "unat (drop_bit l (h div PRUNING_STRIPE_SIZE) + (if stripe_at l (unat h) < unat s then 0 else 1)) = c"
    using ad by (auto simp: c_def unat_word_ariths cyc)
  have ps: "unat (push_bit l PRUNING_STRIPE_SIZE) = 4096 * ?m"
    using m by (simp add: unat_push_bit PRUNING_STRIPE_SIZE_def)
  have s1: "unat (ucast (s - 1) :: u64) = unat s - 1"
  proof -
    have "1 \<le> s" using assms(2) by (simp add: word_le_nat_alt)
    then have "unat (s - 1) = unat s - 1" by (simp add: unat_sub)
    then show ?thesis using assms(3) m by (simp add: unsigned_ucast_eq take_bit_nat_eq_self_iff)
  qed
  have p1: "c * (4096 * ?m) \<le> 122072 * (4096 * 128)" using c m by (intro mult_le_mono) auto
  have p2: "(unat s - 1) * 4096 \<le> 128 * 4096" using assms(3) m by (intro mult_le_mono) auto
  have "unat ((drop_bit l (h div PRUNING_STRIPE_SIZE) + (if stripe_at l (unat h) < unat s then 0 else 1)) *
      push_bit l PRUNING_STRIPE_SIZE + ucast (s - 1) * PRUNING_STRIPE_SIZE) = c * (4096 * ?m) + (unat s - 1) * 4096"
  proof -
    have "unat (ucast (s - 1) * PRUNING_STRIPE_SIZE :: u64) = (unat s - 1) * 4096"
      using p2 by (simp add: unat_word_ariths s1 PRUNING_STRIPE_SIZE_def)
    moreover have "unat ((drop_bit l (h div PRUNING_STRIPE_SIZE) + (if stripe_at l (unat h) < unat s then 0 else 1)) *
        push_bit l PRUNING_STRIPE_SIZE) = c * (4096 * ?m)"
      using p1 by (simp only: unat_word_ariths(2) cs ps) simp
    ultimately show ?thesis using p1 p2 by (simp only: unat_word_ariths(1)) simp
  qed
  also have "\<dots> = next_residue ?m (unat s - 1) ?a * 4096"
  proof -
    have "(stripe_at l (unat h) < unat s) = (?a mod ?m \<le> unat s - 1)" using assms(2,5) by linarith
    then show ?thesis by (simp add: next_residue_def c_def algebra_simps)
  qed
  finally show ?thesis .
qed

text \<open>A seed that names a stripe among its stripes.\<close>

definition valid_seed :: "u32 \<Rightarrow> bool" where
  "valid_seed seed \<longleftrightarrow> seed \<noteq> 0 \<and> get_pruning_log_stripes seed \<noteq> 0 \<and>
     unat (get_seed_stripe seed) \<le> 2 ^ unat (get_pruning_log_stripes seed)"

lemma seed_stripe_pos:
  assumes "seed \<noteq> 0" shows "1 \<le> unat (get_seed_stripe seed)"
proof -
  have "(0x7f :: u32) = mask 7" by (simp add: mask_eq_exp_minus_1)
  then have "unat (seed AND 0x7f) = unat (take_bit 7 seed)" by (simp add: take_bit_eq_mask)
  also have "\<dots> = take_bit 7 (unat seed)" by (rule unsigned_take_bit_eq)
  also have "\<dots> = unat seed mod 128" by (simp add: take_bit_eq_mod)
  finally have "unat (seed AND 0x7f) < 128" by simp
  then have "unat (1 + (seed AND 0x7f)) = 1 + unat (seed AND 0x7f)" by (simp add: unat_word_ariths)
  then show ?thesis using assms by (simp add: get_seed_stripe_def pruning_constants)
qed

lemma next_unpruned_cases:
  assumes "valid_seed seed" "unat h \<le> 500000001" "unat bc \<le> 500000001"
  defines "l \<equiv> unat (get_pruning_log_stripes seed)" and "s \<equiv> unat (get_seed_stripe seed)"
  defines "n \<equiv> next_residue (2 ^ l) (s - 1) (unat h div 4096) * 4096"
  shows "unat (get_next_unpruned_block_height h bc seed) =
    (if unat bc \<le> unat h + 5500 \<or> stripe_at l (unat h) = s then unat h
     else if unat bc < n + 5500 then unat bc - 5500 else n)"
proof -
  let ?lg = "get_pruning_log_stripes seed" and ?s = "get_seed_stripe seed"
  have l: "l \<le> 7" using unat_log_stripes by (simp add: l_def)
  have s: "1 \<le> s" "s \<le> 2 ^ l" using seed_stripe_pos assms(1) by (auto simp: valid_seed_def s_def l_def)
  have max: "h \<le> MAX_BLOCK_NUMBER + 1" "bc \<le> MAX_BLOCK_NUMBER + 1"
    using assms(2,3) by (simp_all add: MAX_BLOCK_NUMBER_def word_le_nat_alt)
  have s0: "?s \<noteq> 0" using s(1) by (auto simp: s_def)
  have lg0: "?lg \<noteq> 0" using assms(1) by (simp add: valid_seed_def)
  have tip: "(h + PRUNING_TIP_BLOCKS \<ge> bc) = (unat bc \<le> unat h + 5500)"
    by (simp add: word_le_nat_alt unat_tip[OF assms(2)])
  have bs: "unat (ucast ((h div PRUNING_STRIPE_SIZE AND (push_bit l 1 - 1)) + 1 :: u64) :: u32) = stripe_at l (unat h)"
    by (rule unat_block_stripe[OF l])
  let ?bs = "ucast ((h div PRUNING_STRIPE_SIZE AND (push_bit l 1 - 1)) + 1 :: u64) :: u32"
  have eq: "(?bs = ?s) = (stripe_at l (unat h) = s)" "(?s > ?bs) = (stripe_at l (unat h) < s)"
    by (simp_all only: word_unat_eq_iff word_less_nat_alt bs s_def)
  let ?n = "(drop_bit l (h div PRUNING_STRIPE_SIZE) + (if stripe_at l (unat h) < s then 0 else 1)) *
      push_bit l PRUNING_STRIPE_SIZE + ucast (?s - 1) * PRUNING_STRIPE_SIZE :: u64"
  show ?thesis
  proof (cases "unat bc \<le> unat h + 5500 \<or> stripe_at l (unat h) = s")
    case True
    then show ?thesis
      using max s0 lg0 tip eq(1) by (auto simp: get_next_unpruned_block_height_def Let_def unat_widen l_def[symmetric])
  next
    case False
    have un: "unat ?n = n"
      using next_stripe_start[of l ?s h] l s False assms(2) by (simp add: s_def n_def)
    have "unat h div 4096 < next_residue (2 ^ l) (s - 1) (unat h div 4096)"
    proof -
      have "s - 1 < 2 ^ l" using s by linarith
      note nr = next_residue[OF this, of "unat h div 4096"]
      have "unat h div 4096 mod 2 ^ l \<noteq> s - 1" using False s(1) by linarith
      then show ?thesis using nr(1,2) by (metis le_neq_implies_less)
    qed
    then have ge: "unat h \<le> n" unfolding n_def by linarith
    have small: "n + 5500 < 2 ^ 64"
    proof -
      have "s - 1 < 2 ^ l" "(2::nat) ^ l \<le> 128" using s pow_le_128[OF l] by linarith+
      then have "next_residue (2 ^ l) (s - 1) (unat h div 4096) \<le> unat h div 4096 + 256"
        using next_residue_le[of "s - 1" "2 ^ l" "unat h div 4096"] by linarith
      moreover have "unat h div 4096 \<le> 122071" using div_le_mono[OF assms(2), of 4096] by simp
      ultimately have "next_residue (2 ^ l) (s - 1) (unat h div 4096) \<le> 122327" by linarith
      then show ?thesis unfolding n_def by simp
    qed
    have nt: "unat (?n + PRUNING_TIP_BLOCKS) = n + 5500"
      using un small by (simp add: PRUNING_TIP_BLOCKS_def unat_word_ariths)
    have bct: "unat (bc - PRUNING_TIP_BLOCKS) = unat bc - 5500" "\<not> bc < PRUNING_TIP_BLOCKS"
      using False by (simp_all add: PRUNING_TIP_BLOCKS_def unat_sub word_le_nat_alt word_less_nat_alt)
    have "get_next_unpruned_block_height h bc seed =
        (if ?n + PRUNING_TIP_BLOCKS > bc then (if bc < PRUNING_TIP_BLOCKS then 0 else bc - PRUNING_TIP_BLOCKS)
         else if \<not> ?n \<ge> h then h else ?n)"
      unfolding get_next_unpruned_block_height_def Let_def
      using max s0 lg0 tip False eq by (simp only: if_True if_False simp_thms not_False_eq_True unat_widen l_def[symmetric] de_Morgan_disj)
    moreover have "(?n + PRUNING_TIP_BLOCKS > bc) = (unat bc < n + 5500)" "(?n \<ge> h) = (unat h \<le> n)"
      by (simp_all only: word_less_nat_alt word_le_nat_alt nt un)
    ultimately show ?thesis using False ge bct un by simp
  qed
qed

text \<open>C31. For a seed that names one of its stripes and heights up to the maximal block number plus one, \<^const>\<open>get_next_unpruned_block_height\<close>
  returns the least height, not below the given one, whose block a peer with that seed still has
  (by \<^const>\<open>has_unpruned_block\<close>); in particular none of its checks fails and no product wraps around.\<close>

theorem next_unpruned_block:
  assumes "valid_seed seed" "unat h \<le> 500000001" "unat bc \<le> 500000001"
  defines "r \<equiv> get_next_unpruned_block_height h bc seed"
  shows "h \<le> r \<and> has_unpruned_block r bc seed \<and> (\<forall>k. h \<le> k \<and> k < r \<longrightarrow> \<not> has_unpruned_block k bc seed)"
proof -
  let ?l = "unat (get_pruning_log_stripes seed)" and ?s = "unat (get_seed_stripe seed)"
  let ?n = "next_residue (2 ^ ?l) (?s - 1) (unat h div 4096) * 4096"
  have s: "1 \<le> ?s" "?s \<le> 2 ^ ?l" using seed_stripe_pos assms(1) by (auto simp: valid_seed_def)
  have s2: "?s - 1 < 2 ^ ?l" using s by linarith
  have s0: "get_seed_stripe seed \<noteq> 0" using s(1) by auto
  note nr = next_residue[OF s2, of "unat h div 4096"]
  have r: "unat r = (if unat bc \<le> unat h + 5500 \<or> stripe_at ?l (unat h) = ?s then unat h
     else if unat bc < ?n + 5500 then unat bc - 5500 else ?n)"
    unfolding r_def by (rule next_unpruned_cases[OF assms(1-3)])
  show ?thesis
  proof (cases "unat bc \<le> unat h + 5500 \<or> stripe_at ?l (unat h) = ?s")
    case True
    then have "r = h" using r by (simp add: word_unat_eq_iff)
    then show ?thesis using True has_unpruned_block_iff[OF assms(2)] by auto
  next
    case False
    then have bc: "unat h + 5500 < unat bc" and st: "stripe_at ?l (unat h) \<noteq> ?s" by auto
    have "unat h div 4096 mod 2 ^ ?l \<noteq> ?s - 1" using st s(1) by linarith
    then have "unat h div 4096 < next_residue (2 ^ ?l) (?s - 1) (unat h div 4096)"
      using nr(1,2) by (metis le_neq_implies_less)
    then have hn: "unat h < ?n" by linarith
    have rb: "unat h \<le> unat r" "unat r \<le> ?n" "unat r + 5500 \<le> unat bc"
      using r False hn bc by (auto split: if_splits)
    have "unat r + 5500 = unat bc \<or> unat r = ?n" using r False bc by (auto split: if_splits)
    moreover have "stripe_at ?l ?n = ?s" using nr(1) s(1) by simp
    ultimately have has: "has_unpruned_block r bc seed"
      using has_unpruned_block_iff[of r bc seed] rb(3) assms(3) by auto
    have "\<not> has_unpruned_block k bc seed" if k: "h \<le> k" "k < r" for k
    proof -
      have kn: "unat h \<le> unat k" "unat k < unat r" using k by (simp_all add: word_le_nat_alt word_less_nat_alt)
      then have "unat k div 4096 < next_residue (2 ^ ?l) (?s - 1) (unat h div 4096)"
        using rb(2) by (simp add: less_mult_imp_div_less)
      then have "unat k div 4096 mod 2 ^ ?l \<noteq> ?s - 1"
        using nr(3)[OF div_le_mono[OF kn(1)]] by blast
      then have "stripe_at ?l (unat k) \<noteq> ?s" using s(1) by linarith
      then show ?thesis using has_unpruned_block_iff[of k bc seed] kn rb(3) assms(3) s0 by auto
    qed
    then show ?thesis using has rb(1) by (auto simp: word_le_nat_alt)
  qed
qed

theorem next_unpruned_block_witness:
  "(10000 :: u64) \<le> get_next_unpruned_block_height 10000 200000 0x180 \<and>
   has_unpruned_block (get_next_unpruned_block_height 10000 200000 0x180) 200000 0x180 \<and>
   get_next_unpruned_block_height 10000 200000 0x180 = 32768"
proof -
  have v: "valid_seed 0x180" by code_simp
  have h: "unat (10000 :: u64) \<le> 500000001" "unat (200000 :: u64) \<le> 500000001" by simp_all
  have e: "get_next_unpruned_block_height 10000 200000 0x180 = 32768" by code_simp
  show ?thesis using next_unpruned_block[OF v h] e by (intro conjI) (elim conjE, assumption)+
qed

lemma take_bit_small: "unat x < 2 ^ n \<Longrightarrow> take_bit n x = (x :: u32)"
  unfolding word_unat_eq_iff by (simp only: unsigned_take_bit_eq) (simp add: take_bit_nat_eq_self_iff)

lemma seed_parts:
  assumes "lg \<le> 7" "st < 128"
  shows "drop_bit 7 (push_bit 7 lg OR st) AND 7 = (lg :: u32)" "(push_bit 7 lg OR st) AND 0x7f = st"
proof -
  have m: "(7 :: u32) = mask 3" "(0x7f :: u32) = mask 7" by (simp_all add: mask_eq_exp_minus_1)
  have l: "take_bit 3 lg = lg" using assms(1) by (intro take_bit_small) (simp add: word_le_nat_alt)
  have s: "take_bit 7 st = st" using assms(2) by (intro take_bit_small) (simp add: word_less_nat_alt)
  have d: "drop_bit 7 st = 0" using s by (metis drop_bit_take_bit diff_self_eq_0 take_bit_0)
  have "drop_bit 7 (push_bit 7 (take_bit 3 lg)) = take_bit 3 lg"
    by (rule bit_word_eqI) (auto simp: bit_simps)
  then have lb: "drop_bit 7 (push_bit 7 lg) = lg" by (simp only: l)
  show "drop_bit 7 (push_bit 7 lg OR st) AND 7 = lg"
    unfolding m take_bit_eq_mask[symmetric] by (simp add: drop_bit_or lb d l)
  show "(push_bit 7 lg OR st) AND 0x7f = st"
    unfolding m take_bit_eq_mask[symmetric] using s by (simp add: take_bit_or take_bit_push_bit)
qed



lemma unat_one_shift: "l \<le> 7 \<Longrightarrow> unat (push_bit l 1 :: u64) = 2 ^ l"
  using pow_le_128[of l] by (simp only: unat_push_bit) (simp add: push_bit_eq_mult take_bit_nat_eq_self_iff)

lemma make_pruning_seed_parts:
  assumes "make_pruning_seed stripe lg = Some seed" "lg \<noteq> 0"
  shows "get_seed_stripe seed = stripe" "get_pruning_log_stripes seed = lg"
proof -
  have lg: "lg \<le> 7" and st: "stripe > 0" "ucast stripe \<le> (push_bit (unat lg) 1 :: u64)"
    and seed: "seed = push_bit 7 lg OR (stripe - 1)"
    using assms(1) by (auto simp: make_pruning_seed_def pruning_constants split: if_splits)
  have l7: "unat lg \<le> 7" using lg by (simp add: word_le_nat_alt)
  have pw: "2 ^ unat lg \<le> (128 :: nat)" using l7 by (rule pow_le_128)
  have "unat (push_bit (unat lg) 1 :: u64) = 2 ^ unat lg" using l7 by (rule unat_one_shift)
  then have "unat stripe \<le> 2 ^ unat lg"
    using st(2) by (simp only: word_le_nat_alt unat_widen)
  moreover have "unat (stripe - 1) = unat stripe - 1" "1 \<le> unat stripe"
    using st(1) by (simp_all add: unat_minus_one Suc_le_eq unat_gt_0)
  ultimately have "stripe - 1 < 128" using pw by (simp add: word_less_nat_alt)
  note p = seed_parts[OF lg this]
  show lgs: "get_pruning_log_stripes seed = lg" using p(1) by (simp add: get_pruning_log_stripes_def pruning_constants seed)
  then have "seed \<noteq> 0" using assms(2) by (auto simp: get_pruning_log_stripes_def)
  then show "get_seed_stripe seed = stripe" using p(2) by (simp add: get_seed_stripe_def pruning_constants seed)
qed


lemma make_pruning_seed_valid:
  assumes "make_pruning_seed stripe lg = Some seed" "lg \<noteq> 0"
  shows "valid_seed seed"
proof -
  note parts = make_pruning_seed_parts[OF assms]
  have "unat lg \<le> 7" "ucast stripe \<le> (push_bit (unat lg) 1 :: u64)"
    using assms(1) by (auto simp: make_pruning_seed_def pruning_constants word_le_nat_alt split: if_splits)
  then have "unat stripe \<le> 2 ^ unat lg" by (simp only: word_le_nat_alt unat_widen unat_one_shift)
  moreover have "seed \<noteq> 0" using parts(2) assms(2) by (auto simp: get_pruning_log_stripes_def)
  ultimately show ?thesis using parts assms(2) by (simp add: valid_seed_def)
qed

text \<open>A seed packed by \<^const>\<open>make_pruning_seed\<close> from a stripe and a positive number of stripes
  gives both back, and names one of its stripes.\<close>

lemma pruning_seed_roundtrip:
  assumes "make_pruning_seed stripe lg = Some seed" "lg \<noteq> 0"
  shows "get_seed_stripe seed = stripe \<and> get_pruning_log_stripes seed = lg \<and> valid_seed seed"
  using make_pruning_seed_parts[OF assms] make_pruning_seed_valid[OF assms] by simp

lemma make_pruning_seed_total:
  assumes "unat lg \<le> 7" "1 \<le> unat stripe" "unat stripe \<le> 2 ^ unat lg"
  shows "\<exists>seed. make_pruning_seed stripe lg = Some seed"
proof -
  have "unat (push_bit (unat lg) 1 :: u64) = 2 ^ unat lg" using assms(1) by (rule unat_one_shift)
  then have "ucast stripe \<le> (push_bit (unat lg) 1 :: u64)"
    using assms(3) by (simp only: word_le_nat_alt unat_widen)
  moreover have "lg \<le> 7" "stripe > 0" using assms(1,2) by (simp_all add: word_le_nat_alt word_less_nat_alt)
  ultimately show ?thesis by (simp add: make_pruning_seed_def pruning_constants)
qed

lemma next_residue_succ:
  assumes "a mod m = t" "t < m" "1 < m"
  shows "next_residue m (Suc t mod m) a = Suc a"
proof -
  have t': "Suc t mod m < m" using assms(3) by simp
  have r: "Suc a mod m = Suc t mod m" using assms(1) by (metis mod_Suc_eq)
  have ne: "a mod m \<noteq> Suc t mod m" using assms by (cases "Suc t = m") (auto simp: mod_Suc)
  note nr = next_residue[OF t', of a]
  have "a < next_residue m (Suc t mod m) a" using nr(1,2) ne by (metis le_neq_implies_less)
  moreover have "\<not> Suc a < next_residue m (Suc t mod m) a" using nr(3)[of "Suc a"] r by auto
  ultimately show ?thesis by linarith
qed

lemma next_pruned_same_stripe:
  assumes "valid_seed seed" "unat h \<le> 500000001" "unat bc \<le> 500000001"
    and "unat h + 5500 < unat bc" "stripe_at (unat (get_pruning_log_stripes seed)) (unat h) = unat (get_seed_stripe seed)"
  shows "\<exists>r. get_next_pruned_block_height h bc seed = Some r \<and>
     unat r = (if unat bc < Suc (unat h div 4096) * 4096 + 5500 then unat bc - 5500 else Suc (unat h div 4096) * 4096)"
proof -
  let ?lg = "get_pruning_log_stripes seed" and ?s = "get_seed_stripe seed"
  define l where "l = unat ?lg"
  have l: "l \<le> 7" using unat_log_stripes by (simp add: l_def)
  have lg0: "?lg \<noteq> 0" using assms(1) by (simp add: valid_seed_def)
  then have l1: "1 \<le> l" by (simp add: l_def Suc_le_eq unat_gt_0)
  then have m: "1 < (2 :: nat) ^ l" by (intro one_less_power) simp_all
  have s: "1 \<le> unat ?s" "unat ?s \<le> 2 ^ l" using seed_stripe_pos assms(1) by (auto simp: valid_seed_def l_def)
  let ?bs = "ucast ((h div PRUNING_STRIPE_SIZE AND (push_bit l 1 - 1)) + 1 :: u64) :: u32"
  have bs: "?bs = ?s" using unat_block_stripe[OF l, of h] assms(5) by (simp only: word_unat_eq_iff l_def)
  let ?nx = "ucast (1 + (ucast ?s AND (push_bit l 1 - 1)) :: u64) :: u32"
  have a: "unat (ucast ?s AND (push_bit l 1 - 1) :: u64) = unat ?s mod 2 ^ l" by (simp only: unat_low_bits unat_widen)
  have "unat ?s mod 2 ^ l < 2 ^ l" by simp
  then have a128: "unat ?s mod 2 ^ l < 128" using pow_le_128[OF l] by linarith
  then have nx: "unat ?nx = unat ?s mod 2 ^ l + 1"
    using a by (simp add: unsigned_ucast_eq take_bit_nat_eq_self_iff unat_word_ariths)
  have "unat ?nx \<le> 2 ^ l" "1 \<le> unat ?nx" using \<open>unat ?s mod 2 ^ l < 2 ^ l\<close> unfolding nx by linarith+
  then obtain ns where ns: "make_pruning_seed ?nx ?lg = Some ns"
    using make_pruning_seed_total[of ?lg ?nx] l by (auto simp: l_def)
  note parts = make_pruning_seed_parts[OF ns lg0]
  have v: "valid_seed ns" by (rule make_pruning_seed_valid[OF ns lg0])
  have tip: "(h + PRUNING_TIP_BLOCKS \<ge> bc) = (unat bc \<le> unat h + 5500)"
    by (simp add: word_le_nat_alt unat_tip[OF assms(2)])
  have "get_next_pruned_block_height h bc seed = Some (get_next_unpruned_block_height h bc ns)"
    using s(1) tip assms(4) lg0 bs ns unfolding get_next_pruned_block_height_def Let_def
    by (auto simp: unat_widen ucast_widen l_def[symmetric])
  moreover have "next_residue (2 ^ l) (unat ?nx - 1) (unat h div 4096) = Suc (unat h div 4096)"
    using next_residue_succ[of "unat h div 4096" "2 ^ l" "unat ?s - 1"] m s assms(5) nx by (simp add: l_def)
  moreover have "stripe_at l (unat h) \<noteq> unat ?nx"
    using m l1 s assms(5) unfolding nx by (cases "unat ?s = 2 ^ l") (auto simp: l_def)
  ultimately show ?thesis
    using next_unpruned_cases[OF v assms(2,3)] assms(4) parts by (simp add: l_def)
qed


lemma next_pruned_kept:
  assumes "valid_seed seed" "unat h \<le> 500000001" "unat bc \<le> 500000001"
    and kept: "unat h + 5500 < unat bc"
      "stripe_at (unat (get_pruning_log_stripes seed)) (unat h) = unat (get_seed_stripe seed)"
  shows "\<exists>r. get_next_pruned_block_height h bc seed = Some r \<and> h \<le> r \<and>
    (\<forall>k. h \<le> k \<and> k < r \<longrightarrow> has_unpruned_block k bc seed) \<and>
    (has_unpruned_block r bc seed \<longrightarrow> bc \<le> r + PRUNING_TIP_BLOCKS)"
proof -
  let ?l = "unat (get_pruning_log_stripes seed)" and ?s = "unat (get_seed_stripe seed)"
  have s0: "get_seed_stripe seed \<noteq> 0" using seed_stripe_pos[of seed] assms(1) by (auto simp: valid_seed_def)
  have "get_pruning_log_stripes seed \<noteq> 0" using assms(1) by (simp add: valid_seed_def)
  then have m: "1 < (2 :: nat) ^ ?l" by (intro one_less_power) (simp_all add: unat_gt_0)
  from next_pruned_same_stripe[OF assms(1-3) kept] obtain r where
    r: "get_next_pruned_block_height h bc seed = Some r" and
    n: "unat r = (if unat bc < Suc (unat h div 4096) * 4096 + 5500 then unat bc - 5500
        else Suc (unat h div 4096) * 4096)" by blast
  have lt: "unat h < Suc (unat h div 4096) * 4096" by (simp add: dividend_less_div_times)
  have rb: "unat h \<le> unat r" "unat r + 5500 \<le> unat bc" "unat r \<le> Suc (unat h div 4096) * 4096"
    using n lt kept(1) by (simp_all split: if_splits)
  have "has_unpruned_block k bc seed" if "h \<le> k" "k < r" for k
  proof -
    have k: "unat h \<le> unat k" "unat k < unat r" using that by (simp_all add: word_le_nat_alt word_less_nat_alt)
    have "unat k div 4096 = unat h div 4096"
      using div_le_mono[OF k(1), of 4096] less_mult_imp_div_less[of "unat k" "Suc (unat h div 4096)" 4096] k(2) rb(3)
      by linarith
    moreover have "unat k \<le> 500000001" using k(2) rb(2) assms(3) by linarith
    ultimately show ?thesis using kept(2) by (simp add: has_unpruned_block_iff)
  qed
  moreover have "bc \<le> r + PRUNING_TIP_BLOCKS" if "has_unpruned_block r bc seed"
  proof -
    have r5: "unat r \<le> 500000001" using rb(2) assms(3) by linarith
    have "stripe_at ?l (Suc (unat h div 4096) * 4096) \<noteq> ?s"
      using m kept(2) by (auto simp: mod_Suc)
    then show ?thesis using that n s0 unat_tip[OF r5] kept(1)
      by (simp add: has_unpruned_block_iff[OF r5] word_le_nat_alt split: if_splits)
  qed
  ultimately show ?thesis using r rb(1) by (auto simp: word_le_nat_alt)
qed

text \<open>For a seed that names one of its stripes, \<^const>\<open>get_next_pruned_block_height\<close> never throws; a peer with that
  seed has every block from the given height up to the returned one, and the returned one is either
  pruned or so near the tip that nothing from there on is.\<close>

lemma next_pruned_block:
  assumes "valid_seed seed" "unat h \<le> 500000001" "unat bc \<le> 500000001"
  shows "\<exists>r. get_next_pruned_block_height h bc seed = Some r \<and> (h \<le> r \<or> bc \<le> h) \<and>
    (\<forall>k. h \<le> k \<and> k < r \<longrightarrow> has_unpruned_block k bc seed) \<and>
    (has_unpruned_block r bc seed \<longrightarrow> bc \<le> r + PRUNING_TIP_BLOCKS)"
proof -
  let ?l = "unat (get_pruning_log_stripes seed)" and ?s = "unat (get_seed_stripe seed)"
  have s0: "get_seed_stripe seed \<noteq> 0" using seed_stripe_pos[of seed] assms(1) by (auto simp: valid_seed_def)
  have tp: "(bc \<le> k + PRUNING_TIP_BLOCKS) = (unat bc \<le> unat k + 5500)" if "unat k \<le> 500000001" for k
    by (simp add: word_le_nat_alt unat_tip[OF that])
  have bs: "(ucast ((h div PRUNING_STRIPE_SIZE AND (push_bit ?l 1 - 1)) + 1 :: u64) = get_seed_stripe seed) =
      (stripe_at ?l (unat h) = ?s)"
    by (simp only: word_unat_eq_iff unat_block_stripe[OF unat_log_stripes])
  have lg0: "get_pruning_log_stripes seed \<noteq> 0" using assms(1) by (simp add: valid_seed_def)
  consider (tip) "unat bc \<le> unat h + 5500"
    | (pruned) "unat h + 5500 < unat bc" "stripe_at ?l (unat h) \<noteq> ?s"
    | (kept) "unat h + 5500 < unat bc" "stripe_at ?l (unat h) = ?s" by linarith
  then show ?thesis
  proof cases
    case tip
    then have "get_next_pruned_block_height h bc seed = Some bc"
      using s0 tp[OF assms(2)] by (simp add: get_next_pruned_block_height_def)
    moreover have "has_unpruned_block k bc seed" if "h \<le> k" "k < bc" for k
    proof -
      have "unat k \<le> 500000001" "unat bc \<le> unat k + 5500"
        using that tip assms(3) by (simp_all add: word_le_nat_alt word_less_nat_alt)
      then show ?thesis by (simp add: has_unpruned_block_iff)
    qed
    moreover have "bc \<le> bc + PRUNING_TIP_BLOCKS" using tp[OF assms(3)] by simp
    ultimately show ?thesis by (auto simp: word_le_nat_alt)
  next
    case pruned
    then have "get_next_pruned_block_height h bc seed = Some h"
      using s0 lg0 tp[OF assms(2)] bs by (simp add: get_next_pruned_block_height_def Let_def unat_widen)
    moreover have "\<not> has_unpruned_block h bc seed"
      using pruned s0 by (simp add: has_unpruned_block_iff[OF assms(2)])
    ultimately show ?thesis by auto
  next
    case kept
    show ?thesis using next_pruned_kept[OF assms kept] by blast
  qed
qed

end
