(* ===== verification/Block_Queue.thy ===== *)
theory Block_Queue
  imports Xeq_Prelude
begin

text \<open>
  The queue of block spans that a syncing node has asked peers for, \<^verbatim>\<open>src/cryptonote_protocol/block_queue.cpp\<close>.
  The set of spans, ordered by start height, is a list in that order.  Every operation but
  \<^verbatim>\<open>has_spans\<close> holds the mutex from beginning to end and is one step.  A failed
  \<^verbatim>\<open>CHECK_AND_ASSERT_THROW_MES\<close> is \<^const>\<open>None\<close>.  The clock is an argument, and a transfer rate is kept as the
  32 bits of its representation: \<^verbatim>\<open>get_speed\<close> and \<^verbatim>\<open>get_download_rate\<close>, the only operations
  that compute with rates, are not modelled.
\<close>

section \<open>Spans\<close>

record serializable_blink_metadata =
  blink_tx_hash :: bytes
  blink_height :: u64
  blink_quorum :: "u8 list"
  blink_position :: "u8 list"
  blink_signature :: "bytes list"

record block_complete_entry =
  bce_block :: bytes
  bce_txs :: "bytes list"
  bce_checkpoint :: bytes
  bce_blinks :: "serializable_blink_metadata list"

record span =
  start_block_height :: u64
  span_hashes :: "bytes list"
  span_blocks :: "block_complete_entry list"
  span_connection_id :: bytes
  nblocks :: u64
  span_rate :: u32
  span_size :: u64
  span_time :: int

definition filled_span :: "u64 \<Rightarrow> block_complete_entry list \<Rightarrow> bytes \<Rightarrow> u32 \<Rightarrow> u64 \<Rightarrow> int \<Rightarrow> span" where
  "filled_span height bcel connection_id rate sz now =
     \<lparr>start_block_height = height, span_hashes = [], span_blocks = bcel, span_connection_id = connection_id,
      nblocks = of_nat (length bcel), span_rate = rate, span_size = sz, span_time = now\<rparr>"

definition scheduled_span :: "u64 \<Rightarrow> u64 \<Rightarrow> bytes \<Rightarrow> int \<Rightarrow> span" where
  "scheduled_span height n connection_id time =
     \<lparr>start_block_height = height, span_hashes = [], span_blocks = [], span_connection_id = connection_id,
      nblocks = n, span_rate = 0, span_size = 0, span_time = time\<rparr>"

text \<open>\<^verbatim>\<open>std::set\<close>: a span is not inserted when there is one with the same start height.\<close>

fun insert_span :: "span \<Rightarrow> span list \<Rightarrow> span list" where
  "insert_span s [] = [s]"
| "insert_span s (t # ts) =
     (if start_block_height s < start_block_height t then s # t # ts
      else if start_block_height t < start_block_height s then t # insert_span s ts
      else t # ts)"

record block_queue =
  queue_blocks :: "span list"
  requested_hashes :: "bytes set"
  have_blocks :: "bytes set"

definition empty_queue :: block_queue where
  "empty_queue = \<lparr>queue_blocks = [], requested_hashes = {}, have_blocks = {}\<rparr>"

section \<open>Operations\<close>

definition erase_block :: "span \<Rightarrow> block_queue \<Rightarrow> block_queue" where
  "erase_block j q = q\<lparr>requested_hashes := requested_hashes q - set (span_hashes j),
     have_blocks := have_blocks q - set (span_hashes j),
     queue_blocks := filter (\<lambda>s. start_block_height s \<noteq> start_block_height j) (queue_blocks q)\<rparr>"

text \<open>The loops that erase the spans with a property while they run through the set.\<close>

definition erase_blocks :: "(span \<Rightarrow> bool) \<Rightarrow> block_queue \<Rightarrow> block_queue" where
  "erase_blocks P q = fold (\<lambda>j q. if P j then erase_block j q else q) (queue_blocks q) q"

definition flush_spans :: "bytes \<Rightarrow> bool \<Rightarrow> block_queue \<Rightarrow> block_queue" where
  "flush_spans connection_id all q =
     erase_blocks (\<lambda>j. span_connection_id j = connection_id \<and> (all \<or> length (span_blocks j) = 0)) q"

definition flush_stale_spans :: "bytes set \<Rightarrow> block_queue \<Rightarrow> block_queue" where
  "flush_stale_spans live_connections q =
     erase_blocks (\<lambda>j. span_blocks j = [] \<and> span_connection_id j \<notin> live_connections) q"

definition remove_spans :: "bytes \<Rightarrow> u64 \<Rightarrow> block_queue \<Rightarrow> block_queue" where
  "remove_spans connection_id height q =
     erase_blocks (\<lambda>j. span_connection_id j = connection_id \<and> start_block_height j \<le> height) q"

text \<open>Whether there was a span, with its hashes: a member of a set is constant, so moving its hashes out copies them.\<close>

definition remove_span :: "u64 \<Rightarrow> block_queue \<Rightarrow> bytes list option \<times> block_queue" where
  "remove_span height q =
     (case find (\<lambda>i. start_block_height i = height) (queue_blocks q) of
        None \<Rightarrow> (None, q)
      | Some i \<Rightarrow> (Some (span_hashes i), erase_block i q))"

definition set_span_hashes :: "u64 \<Rightarrow> bytes \<Rightarrow> bytes list \<Rightarrow> block_queue \<Rightarrow> block_queue" where
  "set_span_hashes start_height connection_id hashes q =
     (case find (\<lambda>i. start_block_height i = start_height \<and> span_connection_id i = connection_id) (queue_blocks q) of
        None \<Rightarrow> q
      | Some i \<Rightarrow>
          (let q = erase_block i q
           in q\<lparr>requested_hashes := requested_hashes q \<union> set hashes,
                queue_blocks := insert_span (i\<lparr>span_hashes := hashes\<rparr>) (queue_blocks q)\<rparr>))"

definition add_blocks ::
  "u64 \<Rightarrow> block_complete_entry list \<Rightarrow> bytes \<Rightarrow> u32 \<Rightarrow> u64 \<Rightarrow> int \<Rightarrow> block_queue \<Rightarrow> block_queue" where
  "add_blocks height bcel connection_id rate sz now q =
     (let (hashes, q) = remove_span height q;
          q = q\<lparr>queue_blocks := insert_span (filled_span height bcel connection_id rate sz now) (queue_blocks q)\<rparr>
      in case hashes of
           None \<Rightarrow> q
         | Some hashes \<Rightarrow> set_span_hashes height connection_id hashes
             (q\<lparr>requested_hashes := requested_hashes q \<union> set hashes, have_blocks := have_blocks q \<union> set hashes\<rparr>))"

definition add_scheduled_blocks :: "u64 \<Rightarrow> u64 \<Rightarrow> bytes \<Rightarrow> int \<Rightarrow> block_queue \<Rightarrow> block_queue option" where
  "add_scheduled_blocks height n connection_id time q =
     (if n > 0 then Some (q\<lparr>queue_blocks := insert_span (scheduled_span height n connection_id time) (queue_blocks q)\<rparr>)
      else None)"

definition get_max_block_height :: "block_queue \<Rightarrow> u64" where
  "get_max_block_height q =
     fold (\<lambda>s height. let h = start_block_height s + nblocks s - 1 in if h > height then h else height) (queue_blocks q) 0"

fun next_needed_loop :: "u64 \<Rightarrow> bool \<Rightarrow> u64 \<Rightarrow> span list \<Rightarrow> u64" where
  "next_needed_loop blockchain_height first last_needed_height [] = last_needed_height"
| "next_needed_loop blockchain_height first last_needed_height (s # ss) =
     (if start_block_height s + nblocks s - 1 < blockchain_height
      then next_needed_loop blockchain_height first last_needed_height ss
      else if start_block_height s \<noteq> last_needed_height \<or> (first \<and> span_blocks s = []) then last_needed_height
      else next_needed_loop blockchain_height False (start_block_height s + nblocks s) ss)"

definition get_next_needed_height :: "u64 \<Rightarrow> block_queue \<Rightarrow> u64" where
  "get_next_needed_height blockchain_height q =
     (if queue_blocks q = [] then blockchain_height
      else next_needed_loop blockchain_height True blockchain_height (queue_blocks q))"

text \<open>The overview: a mark for every span and for the gaps between them.\<close>

fun overview_loop :: "u64 \<Rightarrow> u64 \<Rightarrow> span list \<Rightarrow> string" where
  "overview_loop blockchain_height expected [] = '']''"
| "overview_loop blockchain_height expected (i # rest) =
     (if expected > start_block_height i then ''<'' @ overview_loop blockchain_height expected rest
      else (if expected < start_block_height i
            then replicate (unat (max 1 ((start_block_height i - expected) div (if nblocks i \<noteq> 0 then nblocks i else 1)))) (CHR ''_'')
            else [])
           @ (if span_blocks i = [] then ''.'' else if start_block_height i = blockchain_height then ''m'' else ''o'')
           @ overview_loop blockchain_height (start_block_height i + nblocks i) rest)"

definition get_overview :: "u64 \<Rightarrow> block_queue \<Rightarrow> string" where
  "get_overview blockchain_height q =
     (if queue_blocks q = [] then ''[]'' else ''['' @ overview_loop blockchain_height blockchain_height (queue_blocks q))"

definition requested :: "bytes \<Rightarrow> block_queue \<Rightarrow> bool" where
  "requested h q \<longleftrightarrow> h \<in> requested_hashes q"

definition have_block :: "bytes \<Rightarrow> block_queue \<Rightarrow> bool" where
  "have_block h q \<longleftrightarrow> h \<in> have_blocks q"

text \<open>Skipping the hashes that were requested already.\<close>

fun skip_requested :: "block_queue \<Rightarrow> u64 \<Rightarrow> bytes list \<Rightarrow> u64 \<times> bytes list" where
  "skip_requested q span_start_height [] = (span_start_height, [])"
| "skip_requested q span_start_height (h # hs) =
     (if requested h q then skip_requested q (span_start_height + 1) hs else (span_start_height, h # hs))"

text \<open>The first hashes, at most \<^verbatim>\<open>max_blocks\<close>, and their number.\<close>

fun take_hashes :: "u64 \<Rightarrow> u64 \<Rightarrow> bytes list \<Rightarrow> bytes list \<Rightarrow> u64 \<times> bytes list" where
  "take_hashes max_blocks span_length hashes [] = (span_length, hashes)"
| "take_hashes max_blocks span_length hashes (h # hs) =
     (if span_length < max_blocks then take_hashes max_blocks (span_length + 1) (hashes @ [h]) hs
      else (span_length, hashes))"

definition reserve_span ::
  "u64 \<Rightarrow> u64 \<Rightarrow> u64 \<Rightarrow> bytes \<Rightarrow> bytes list \<Rightarrow> int \<Rightarrow> block_queue \<Rightarrow> ((u64 \<times> u64) \<times> block_queue) option" where
  "reserve_span first_block_height last_block_height max_blocks connection_id block_hashes now q =
     (if last_block_height < first_block_height \<or> max_blocks = 0 then Some ((0, 0), q)
      else if length block_hashes > unat last_block_height then Some ((0, 0), q)
      else
        (let (span_start_height, rest) =
               skip_requested q (last_block_height - of_nat (length block_hashes) + 1) block_hashes
         in if rest = [] then Some ((0, 0), q)
            else
              (let (span_length, hashes) = take_hashes max_blocks 0 [] rest
               in if span_length = 0 then Some ((0, 0), q)
                  else map_option (\<lambda>q. ((span_start_height, span_length),
                                      set_span_hashes span_start_height connection_id hashes q))
                         (add_scheduled_blocks span_start_height span_length connection_id now q))))"

text \<open>The hashes, the connection, the start and the length of the first span when it is not filled.\<close>

definition get_next_span_if_scheduled :: "block_queue \<Rightarrow> (bytes list \<times> bytes \<times> u64 \<times> u64) option" where
  "get_next_span_if_scheduled q =
     (case queue_blocks q of
        [] \<Rightarrow> None
      | i # _ \<Rightarrow> if span_blocks i \<noteq> [] then None
                 else Some (span_hashes i, span_connection_id i, start_block_height i, nblocks i))"

definition reset_next_span_time :: "int \<Rightarrow> block_queue \<Rightarrow> block_queue option" where
  "reset_next_span_time now q =
     (case queue_blocks q of
        [] \<Rightarrow> None
      | i # rest \<Rightarrow> if span_blocks i = [] then Some (q\<lparr>queue_blocks := i\<lparr>span_time := now\<rparr> # rest\<rparr>) else None)"

definition get_next_span :: "bool \<Rightarrow> block_queue \<Rightarrow> (u64 \<times> block_complete_entry list \<times> bytes) option" where
  "get_next_span filled q =
     map_option (\<lambda>i. (start_block_height i, span_blocks i, span_connection_id i))
       (find (\<lambda>i. \<not> filled \<or> span_blocks i \<noteq> []) (queue_blocks q))"

definition has_next_span :: "u64 \<Rightarrow> block_queue \<Rightarrow> (bool \<times> int \<times> bytes) option" where
  "has_next_span height q =
     (case queue_blocks q of
        [] \<Rightarrow> None
      | i # _ \<Rightarrow> if start_block_height i > height then None
                 else Some (span_blocks i \<noteq> [], span_time i, span_connection_id i))"

definition get_data_size :: "block_queue \<Rightarrow> u64" where
  "get_data_size q = fold (\<lambda>s sz. sz + span_size s) (queue_blocks q) 0"

definition get_num_filled_spans :: "block_queue \<Rightarrow> nat" where
  "get_num_filled_spans q = fold (\<lambda>s n. if span_blocks s \<noteq> [] then n + 1 else n) (queue_blocks q) 0"

text \<open>The last hash of an empty vector is undefined, \<^const>\<open>None\<close>.\<close>

fun last_known_loop :: "bytes \<Rightarrow> bytes \<Rightarrow> u64 \<Rightarrow> span list \<Rightarrow> bytes option" where
  "last_known_loop connection_id hash highest_height [] = Some hash"
| "last_known_loop connection_id hash highest_height (s # ss) =
     (if span_connection_id s \<noteq> connection_id then last_known_loop connection_id hash highest_height ss
      else let h = start_block_height s + nblocks s - 1
           in if h > highest_height \<and> length (span_hashes s) = unat (nblocks s)
              then if span_hashes s = [] then None else last_known_loop connection_id (last (span_hashes s)) h ss
              else last_known_loop connection_id hash highest_height ss)"

definition get_last_known_hash :: "bytes \<Rightarrow> block_queue \<Rightarrow> bytes option" where
  "get_last_known_hash connection_id q = last_known_loop connection_id (replicate 32 0) 0 (queue_blocks q)"

definition has_spans :: "bytes \<Rightarrow> block_queue \<Rightarrow> bool" where
  "has_spans connection_id q \<longleftrightarrow> list_ex (\<lambda>s. span_connection_id s = connection_id) (queue_blocks q)"

definition foreach_span :: "(span \<Rightarrow> bool) \<Rightarrow> block_queue \<Rightarrow> bool" where
  "foreach_span f q \<longleftrightarrow> list_all f (queue_blocks q)"

section \<open>The set of spans\<close>

definition ordered :: "span list \<Rightarrow> bool" where
  "ordered ss \<longleftrightarrow> sorted_wrt (\<lambda>s t. start_block_height s < start_block_height t) ss"

lemma ordered_simps [simp]:
  "ordered []" "ordered (s # ss) \<longleftrightarrow> (\<forall>t\<in>set ss. start_block_height s < start_block_height t) \<and> ordered ss"
  by (simp_all add: ordered_def)

lemma ordered_filter: "ordered ss \<Longrightarrow> ordered (filter P ss)"
  by (simp add: ordered_def sorted_wrt_filter)

lemma ordered_start_inj: "ordered ss \<Longrightarrow> inj_on start_block_height (set ss)"
proof -
  assume "ordered ss"
  then have "distinct (map start_block_height ss)"
  proof (induction ss)
    case (Cons s ss)
    then have "start_block_height s \<noteq> start_block_height t" if "t \<in> set ss" for t using that by fastforce
    then show ?case using Cons by auto
  qed simp
  then show ?thesis by (simp add: distinct_map)
qed

lemma insert_span_new:
  assumes "ordered ss" "start_block_height s \<notin> start_block_height ` set ss"
  shows "ordered (insert_span s ss) \<and> set (insert_span s ss) = insert s (set ss)"
  using assms
proof (induction ss)
  case (Cons t ts)
  then show ?case by (cases "start_block_height s" "start_block_height t" rule: linorder_cases) auto
qed simp

lemma insert_span_old:
  assumes "ordered ss" "start_block_height s \<in> start_block_height ` set ss"
  shows "insert_span s ss = ss"
  using assms
proof (induction ss)
  case (Cons t ts)
  then show ?case by (cases "start_block_height s" "start_block_height t" rule: linorder_cases) auto
qed simp

lemma insert_span_ordered: "ordered ss \<Longrightarrow> ordered (insert_span s ss) \<and> set (insert_span s ss) \<subseteq> insert s (set ss) \<and> set ss \<subseteq> set (insert_span s ss)"
  using insert_span_new[of ss s] insert_span_old[of ss s] by (cases "start_block_height s \<in> start_block_height ` set ss") auto

lemma filter_insert_span:
  assumes "ordered ss" "start_block_height s \<notin> start_block_height ` set ss" "start_block_height s = height"
  shows "filter (\<lambda>t. start_block_height t \<noteq> height) (insert_span s ss) = ss"
  using assms
proof (induction ss)
  case (Cons t ts)
  then show ?case
    by (cases "start_block_height s" "start_block_height t" rule: linorder_cases) (auto intro!: filter_True)
qed simp

lemma find_insert_span:
  assumes "ordered ss" "start_block_height s \<notin> start_block_height ` set ss" "start_block_height s = height" "span_connection_id s = c"
  shows "find (\<lambda>t. start_block_height t = height \<and> span_connection_id t = c) (insert_span s ss) = Some s"
  using assms
proof (induction ss)
  case (Cons t ts)
  then show ?case by (cases "start_block_height s" "start_block_height t" rule: linorder_cases) auto
qed simp

lemma find_span:
  assumes "find P ss = Some i"
  shows "i \<in> set ss" "P i"
  using assms by (auto simp: find_Some_iff)

text \<open>The hashes of spans.\<close>

definition hashes_of :: "span set \<Rightarrow> bytes set" where
  "hashes_of S = (\<Union>s\<in>S. set (span_hashes s))"

lemma hashes_of_simps [simp]:
  "hashes_of {} = {}" "hashes_of (insert s S) = set (span_hashes s) \<union> hashes_of S"
  by (simp_all add: hashes_of_def)

lemma hashes_of_Un: "hashes_of (S \<union> T) = hashes_of S \<union> hashes_of T"
  by (auto simp: hashes_of_def)

lemma hashes_of_mono: "S \<subseteq> T \<Longrightarrow> hashes_of S \<subseteq> hashes_of T"
  by (auto simp: hashes_of_def)

section \<open>Erasing\<close>

lemma erase_fold:
  "fold (\<lambda>j q. if P j then erase_block j q else q) ss q = q\<lparr>
     requested_hashes := requested_hashes q - hashes_of {j \<in> set ss. P j},
     have_blocks := have_blocks q - hashes_of {j \<in> set ss. P j},
     queue_blocks := filter (\<lambda>s. start_block_height s \<notin> start_block_height ` {j \<in> set ss. P j}) (queue_blocks q)\<rparr>"
proof (induction ss arbitrary: q)
  case (Cons j ss)
  have "{i \<in> set (j # ss). P i} = (if P j then insert j {i \<in> set ss. P i} else {i \<in> set ss. P i})" by auto
  then show ?case
    by (auto simp: Cons erase_block_def Diff_Diff_Int set_diff_eq intro!: filter_cong)
qed simp

lemma erase_blocks_exact:
  assumes "ordered (queue_blocks q)"
  shows "erase_blocks P q = q\<lparr>
     requested_hashes := requested_hashes q - hashes_of {j \<in> set (queue_blocks q). P j},
     have_blocks := have_blocks q - hashes_of {j \<in> set (queue_blocks q). P j},
     queue_blocks := filter (\<lambda>s. \<not> P s) (queue_blocks q)\<rparr>"
proof -
  have "filter (\<lambda>s. start_block_height s \<notin> start_block_height ` {j \<in> set (queue_blocks q). P j}) (queue_blocks q)
      = filter (\<lambda>s. \<not> P s) (queue_blocks q)"
    using ordered_start_inj[OF assms] by (auto simp: inj_on_def intro!: filter_cong)
  then show ?thesis by (simp add: erase_blocks_def erase_fold)
qed

lemma erase_block_exact:
  assumes "ordered (queue_blocks q)" "i \<in> set (queue_blocks q)"
  shows "queue_blocks (erase_block i q) = filter (\<lambda>s. s \<noteq> i) (queue_blocks q)"
  using ordered_start_inj[OF assms(1)] assms(2) by (auto simp: erase_block_def inj_on_def intro!: filter_cong)

section \<open>The invariant\<close>

definition queue_inv :: "block_queue \<Rightarrow> bool" where
  "queue_inv q \<longleftrightarrow> ordered (queue_blocks q) \<and> have_blocks q \<subseteq> requested_hashes q \<and>
     requested_hashes q \<subseteq> hashes_of (set (queue_blocks q))"

lemma inv_erase_blocks:
  assumes "queue_inv q"
  shows "queue_inv (erase_blocks P q)"
proof -
  let ?S = "set (queue_blocks q)"
  have "?S = {j \<in> ?S. P j} \<union> {j \<in> ?S. \<not> P j}" by blast
  then have "hashes_of ?S = hashes_of {j \<in> ?S. P j} \<union> hashes_of {j \<in> ?S. \<not> P j}" using hashes_of_Un by metis
  then show ?thesis using assms by (auto simp: queue_inv_def erase_blocks_exact ordered_filter)
qed

lemma erase_block_as_blocks:
  assumes "ordered (queue_blocks q)" "i \<in> set (queue_blocks q)"
  shows "erase_block i q = erase_blocks (\<lambda>s. s = i) q"
proof -
  have "{j \<in> set (queue_blocks q). j = i} = {i}" using assms(2) by auto
  then show ?thesis
    using erase_block_exact[OF assms] by (simp add: erase_blocks_exact[OF assms(1)] erase_block_def)
qed

lemma inv_erase_block: "queue_inv q \<Longrightarrow> i \<in> set (queue_blocks q) \<Longrightarrow> queue_inv (erase_block i q)"
  using inv_erase_blocks erase_block_as_blocks by (simp add: queue_inv_def)

lemma inv_set_span_hashes: 
  assumes "queue_inv q"
  shows "queue_inv (set_span_hashes height connection_id hashes q)"
proof (cases "find (\<lambda>i. start_block_height i = height \<and> span_connection_id i = connection_id) (queue_blocks q)")
  case None
  then show ?thesis using assms by (simp add: set_span_hashes_def)
next
  case (Some i)
  note i = find_span[OF Some]
  let ?q = "erase_block i q" and ?s = "i\<lparr>span_hashes := hashes\<rparr>"
  have inv: "queue_inv ?q" using inv_erase_block[OF assms i(1)] .
  have "start_block_height ?s \<notin> start_block_height ` set (queue_blocks ?q)" by (auto simp: erase_block_def)
  then have "ordered (insert_span ?s (queue_blocks ?q)) \<and> set (insert_span ?s (queue_blocks ?q)) = insert ?s (set (queue_blocks ?q))"
    using insert_span_new inv by (simp add: queue_inv_def)
  then show ?thesis using inv Some by (auto simp: set_span_hashes_def Let_def queue_inv_def)
qed

lemma inv_insert_span:
  assumes "queue_inv q"
  shows "queue_inv (q\<lparr>queue_blocks := insert_span s (queue_blocks q)\<rparr>)"
  using assms insert_span_ordered[of "queue_blocks q" s] hashes_of_mono[of "set (queue_blocks q)" "set (insert_span s (queue_blocks q))"]
  by (auto simp: queue_inv_def)

lemma inv_add_scheduled: "queue_inv q \<Longrightarrow> add_scheduled_blocks height n c time q = Some q' \<Longrightarrow> queue_inv q'"
  by (auto simp: add_scheduled_blocks_def inv_insert_span split: if_splits)

lemma inv_remove_span: "queue_inv q \<Longrightarrow> queue_inv (snd (remove_span height q))"
  by (auto simp: remove_span_def inv_erase_block dest: find_span split: option.split)

text \<open>What filling a span does: the new span takes the place and the hashes of the one with its start height.\<close>

lemma add_blocks_exact:
  fixes q :: block_queue and height sz :: u64 and bcel :: "block_complete_entry list" and c :: bytes and rate :: u32 and now :: int
  assumes "queue_inv q"
  defines "s \<equiv> filled_span height bcel c rate sz now"
  defines "rest \<equiv> filter (\<lambda>t. start_block_height t \<noteq> height) (queue_blocks q)"
  shows "add_blocks height bcel c rate sz now q =
    (case find (\<lambda>t. start_block_height t = height) (queue_blocks q) of
       None \<Rightarrow> q\<lparr>queue_blocks := insert_span s rest\<rparr>
     | Some i \<Rightarrow> q\<lparr>queue_blocks := insert_span (s\<lparr>span_hashes := span_hashes i\<rparr>) rest,
         requested_hashes := requested_hashes q \<union> set (span_hashes i),
         have_blocks := have_blocks q \<union> set (span_hashes i)\<rparr>)"
proof (cases "find (\<lambda>t. start_block_height t = height) (queue_blocks q)")
  case None
  then have "rest = queue_blocks q" by (auto simp: rest_def find_None_iff filter_id_conv)
  then show ?thesis using None by (simp add: add_blocks_def remove_span_def s_def)
next
  case (Some i)
  note i = find_span[OF Some]
  have s: "start_block_height s = height" "span_connection_id s = c" "span_hashes s = []" by (simp_all add: s_def filled_span_def)
  have o: "ordered rest" using assms(1) by (simp add: rest_def queue_inv_def ordered_filter)
  have new: "start_block_height s \<notin> start_block_height ` set rest" using s by (auto simp: rest_def)
  note ins = insert_span_new[OF o new]
  have f: "find (\<lambda>t. start_block_height t = height \<and> span_connection_id t = c) (insert_span s rest) = Some s"
    by (rule find_insert_span[OF o new s(1,2)])
  have r: "filter (\<lambda>t. start_block_height t \<noteq> height) (insert_span s rest) = rest"
    by (rule filter_insert_span[OF o new s(1)]) 
  show ?thesis using Some i(2) f r s
    by (simp add: add_blocks_def remove_span_def erase_block_def set_span_hashes_def Let_def s_def[symmetric] rest_def[symmetric] Un_Diff)
qed


lemma inv_add_blocks:
  assumes "queue_inv q"
  shows "queue_inv (add_blocks height bcel c rate sz now q)"
proof -
  let ?rest = "filter (\<lambda>t. start_block_height t \<noteq> height) (queue_blocks q)"
  have o: "ordered ?rest" using assms by (simp add: queue_inv_def ordered_filter)
  have ins: "ordered (insert_span s ?rest) \<and> set (insert_span s ?rest) = insert s (set ?rest)" if "start_block_height s = height" for s
    by (rule insert_span_new[OF o]) (use that in auto)
  show ?thesis
  proof (cases "find (\<lambda>t. start_block_height t = height) (queue_blocks q)")
    case None
    then have "?rest = queue_blocks q" by (auto simp: find_None_iff filter_id_conv)
    then show ?thesis using None assms ins[of "filled_span height bcel c rate sz now"]
      by (auto simp: add_blocks_exact[OF assms] queue_inv_def filled_span_def)
  next
    case (Some i)
    note i = find_span[OF Some]
    have "set (queue_blocks q) \<subseteq> insert i (set ?rest)"
    proof
      fix t assume t: "t \<in> set (queue_blocks q)"
      have "t = i" if "start_block_height t = height"
        using inj_onD[OF ordered_start_inj _ t i(1)] assms i(2) that by (simp add: queue_inv_def)
      then show "t \<in> insert i (set ?rest)" using t by auto
    qed
    from hashes_of_mono[OF this]
    have sub: "hashes_of (set (queue_blocks q)) \<subseteq> set (span_hashes i) \<union> hashes_of (set ?rest)" by simp
    let ?s = "filled_span height bcel c rate sz now\<lparr>span_hashes := span_hashes i\<rparr>"
    have "ordered (insert_span ?s ?rest)" "set (insert_span ?s ?rest) = insert ?s (set ?rest)"
      using ins[of ?s] by (simp_all add: filled_span_def)
    then show ?thesis
      using assms sub unfolding add_blocks_exact[OF assms] Some queue_inv_def by simp blast
  qed
qed

lemma inv_reserve_span:
  "queue_inv q \<Longrightarrow> reserve_span lo hi mx c hs now q = Some (r, q') \<Longrightarrow> queue_inv q'"
  by (auto simp: reserve_span_def Let_def inv_set_span_hashes dest: inv_add_scheduled split: if_splits prod.splits)

lemma inv_reset_time: "queue_inv q \<Longrightarrow> reset_next_span_time now q = Some q' \<Longrightarrow> queue_inv q'"
  by (auto simp: reset_next_span_time_def queue_inv_def split: list.splits if_splits)

text \<open>The operations that change the queue, in any order.\<close>

inductive queue_step :: "block_queue \<Rightarrow> block_queue \<Rightarrow> bool" where
  fill: "queue_step q (add_blocks height bcel c rate sz now q)"
| schedule: "add_scheduled_blocks height n c time q = Some q' \<Longrightarrow> queue_step q q'"
| flush: "queue_step q (flush_spans c all q)"
| flush_stale: "queue_step q (flush_stale_spans live q)"
| remove: "queue_step q (snd (remove_span height q))"
| remove_all: "queue_step q (remove_spans c height q)"
| reserve: "reserve_span lo hi mx c hs now q = Some (r, q') \<Longrightarrow> queue_step q q'"
| reset: "reset_next_span_time now q = Some q' \<Longrightarrow> queue_step q q'"
| set_hashes: "queue_step q (set_span_hashes height c hs q)"

lemma queue_step_inv: "queue_step q q' \<Longrightarrow> queue_inv q \<Longrightarrow> queue_inv q'"
  by (induction rule: queue_step.induct)
    (auto simp: flush_spans_def flush_stale_spans_def remove_spans_def
      intro: inv_add_blocks inv_add_scheduled inv_erase_blocks inv_remove_span inv_reserve_span inv_reset_time inv_set_span_hashes)

lemma queue_reachable_inv: "queue_step\<^sup>*\<^sup>* empty_queue q \<Longrightarrow> queue_inv q"
proof (induction rule: rtranclp_induct)
  case base
  show ?case by (simp add: queue_inv_def empty_queue_def)
next
  case (step q q')
  then show ?case by (blast intro: queue_step_inv)
qed

section \<open>Reserving\<close>

lemma skip_requested_eq:
  "skip_requested q h hs = (h + of_nat (length (takeWhile (\<lambda>x. requested x q) hs)), dropWhile (\<lambda>x. requested x q) hs)"
  by (induction q h hs rule: skip_requested.induct) (simp_all add: add.assoc)

lemma take_hashes_eq:
  "unat n \<le> unat mx \<Longrightarrow> take_hashes mx n acc hs =
     (n + of_nat (min (unat mx - unat n) (length hs)), acc @ take (unat mx - unat n) hs)"
proof (induction mx n acc hs rule: take_hashes.induct)
  case (2 mx n acc h hs)
  show ?case
  proof (cases "n < mx")
    case True
    then have lt: "unat n < unat mx" by (simp add: word_less_nat_alt)
    moreover have "unat mx < 2 ^ LENGTH(64)" by (rule unsigned_less)
    ultimately have "unat n + 1 < 2 ^ 64" by simp
    then have "unat (n + 1) = unat n + 1" by (simp add: unat_word_ariths)
    moreover obtain d where "unat mx = Suc (unat n + d)" using lt less_iff_Suc_add by auto
    ultimately show ?thesis using 2(1)[OF True] True by (simp add: add.assoc)
  next
    case False
    then have "unat mx - unat n = 0" by (simp add: word_less_nat_alt)
    then show ?thesis using False by simp
  qed
qed simp

text \<open>The first hash that was not requested yet, and the hashes from there on.\<close>

abbreviation new_hashes :: "block_queue \<Rightarrow> bytes list \<Rightarrow> bytes list" where
  "new_hashes q hs \<equiv> dropWhile (\<lambda>h. requested h q) hs"


text \<open>Where a span of another connection starts at the height to reserve, for a block with another hash, the result is
  the same but the queue is left as it is.\<close>

lemma set_span_hashes_other:
  assumes "ordered (queue_blocks q)" "s \<in> set (queue_blocks q)" "span_connection_id s \<noteq> c"
  shows "set_span_hashes (start_block_height s) c hs q = q"
proof -
  have "find (\<lambda>i. start_block_height i = start_block_height s \<and> span_connection_id i = c) (queue_blocks q) = None"
    using inj_onD[OF ordered_start_inj[OF assms(1)] _ _ assms(2)] assms(3) by (auto simp: find_None_iff)
  then show ?thesis by (simp add: set_span_hashes_def)
qed

section \<open>The next needed height\<close>

definition covers :: "span \<Rightarrow> u64 \<Rightarrow> bool" where
  "covers s h \<longleftrightarrow> start_block_height s \<le> h \<and> unat h < unat (start_block_height s) + unat (nblocks s)"

text \<open>Spans that hold a block and end before the largest height, so that no sum of heights wraps.\<close>

definition proper :: "span \<Rightarrow> bool" where
  "proper s \<longleftrightarrow> 0 < nblocks s \<and> unat (start_block_height s) + unat (nblocks s) < 2 ^ 64"

lemma proper_end:
  assumes "proper s"
  shows "unat (start_block_height s + nblocks s) = unat (start_block_height s) + unat (nblocks s)"
    "unat (start_block_height s + nblocks s - 1) = unat (start_block_height s) + unat (nblocks s) - 1"
    "start_block_height s < start_block_height s + nblocks s"
proof -
  have n: "0 < unat (nblocks s)" using assms by (simp add: proper_def unat_gt_0 word_gt_0)
  show e: "unat (start_block_height s + nblocks s) = unat (start_block_height s) + unat (nblocks s)"
    using assms by (simp add: proper_def unat_word_ariths)
  then have "start_block_height s + nblocks s \<noteq> 0" using n by (metis add_eq_0_iff_both_eq_0 less_irrefl unat_0)
  then show "unat (start_block_height s + nblocks s - 1) = unat (start_block_height s) + unat (nblocks s) - 1"
    using e by (simp add: unat_minus_one)
  show "start_block_height s < start_block_height s + nblocks s" using e n by (simp add: word_less_nat_alt)
qed

lemma next_needed_loop_covered:
  assumes "\<forall>s\<in>set ss. proper s"
  shows "last_needed \<le> next_needed_loop bh first last_needed ss"
    "last_needed \<le> h \<Longrightarrow> h < next_needed_loop bh first last_needed ss \<Longrightarrow> \<exists>s\<in>set ss. covers s h"
    "first \<Longrightarrow> next_needed_loop bh first last_needed ss \<noteq> last_needed \<Longrightarrow>
      \<exists>s\<in>set ss. start_block_height s = last_needed \<and> span_blocks s \<noteq> []"
  using assms
proof (induction bh first last_needed ss rule: next_needed_loop.induct)
  case (2 bh first last_needed s ss)
  have p: "proper s" "\<forall>s\<in>set ss. proper s" if "\<forall>t\<in>set (s # ss). proper t" using that by simp_all
  let ?skip = "start_block_height s + nblocks s - 1 < bh"
  let ?stop = "start_block_height s \<noteq> last_needed \<or> (first \<and> span_blocks s = [])"
  {
    case 1
    show ?case
    proof (cases "?skip \<or> ?stop")
      case True
      then show ?thesis using "2.IH"(1)[OF _ p(2)[OF 1]] by auto
    next
      case False
      then have "start_block_height s + nblocks s \<le> next_needed_loop bh False (start_block_height s + nblocks s) ss"
        using "2.IH"(4)[OF _ _ p(2)[OF 1]] by simp
      then show ?thesis using False proper_end(3)[OF p(1)[OF 1]] by simp
    qed
  next
    case 2
    show ?case
    proof (cases "?skip \<or> ?stop")
      case True
      have "\<not> h < last_needed" using 2(1) by simp
      then have ?skip using True 2(2) by (cases ?skip) auto
      then show ?thesis using 2(1,2) "2.IH"(2)[OF _ _ _ p(2)[OF 2(3)]] by simp
    next
      case False
      note e = proper_end[OF p(1)[OF 2(3)]]
      show ?thesis
      proof (cases "h < start_block_height s + nblocks s")
        case True
        then have "covers s h" using False 2(1) e(1) by (simp add: covers_def word_less_nat_alt)
        then show ?thesis by simp
      next
        case ge: False
        have lt: "h < next_needed_loop bh False (start_block_height s + nblocks s) ss" 
          using 2(2) False by (auto simp del: next_needed_loop.simps simp: next_needed_loop.simps(2)[of _ _ _ s] split: if_splits)
        have "\<exists>s\<in>set ss. covers s h"
          by (rule "2.IH"(5)[OF _ _ _ lt p(2)[OF 2(3)]]) (use False ge in auto)
        then show ?thesis by simp
      qed
    qed
  next
    case 3
    show ?case
    proof (cases ?skip)
      case True
      then show ?thesis using 3 "2.IH"(3)[OF _ _ _ p(2)[OF 3(3)]] by auto
    next
      case False
      then show ?thesis using 3 by (auto split: if_splits)
    qed
  }
qed (auto simp: not_le[symmetric])


section \<open>Properties\<close>

text \<open>C13. In every queue that the operations produce, in any order, the spans are ordered by start height with no two at one
  height, a block that is present counts as requested, and a hash counts as requested only while a span with
  that hash is in the queue: once the spans are gone, the hash can be requested again.\<close>

theorem block_queue_consistent:
  assumes "queue_step\<^sup>*\<^sup>* empty_queue q"
  shows "ordered (queue_blocks q) \<and> (have_block h q \<longrightarrow> requested h q) \<and>
    (requested h q \<longrightarrow> (\<exists>s\<in>set (queue_blocks q). h \<in> set (span_hashes s)))"
  using queue_reachable_inv[OF assms] by (auto simp: queue_inv_def requested_def have_block_def hashes_of_def)

definition demo_queue :: block_queue where
  "demo_queue = snd (the (reserve_span 8 12 3 [1] [[8], [9], [10], [11], [12]] 0 empty_queue))"

lemma demo_reserve: "reserve_span 8 12 3 [1] [[8], [9], [10], [11], [12]] 0 empty_queue = Some ((8, 3), demo_queue)"
  by code_simp

theorem block_queue_consistent_witness:
  "\<exists>s. s \<in> set (queue_blocks demo_queue) \<and> [9] \<in> set (span_hashes s)"
proof -
  have "queue_step empty_queue demo_queue" by (rule queue_step.reserve[OF demo_reserve])
  then have "ordered (queue_blocks demo_queue) \<and> (have_block [9] demo_queue \<longrightarrow> requested [9] demo_queue) \<and>
      (requested [9] demo_queue \<longrightarrow> (\<exists>s\<in>set (queue_blocks demo_queue). [9] \<in> set (span_hashes s)))"
    by (intro block_queue_consistent) blast
  moreover have "requested [9] demo_queue" by code_simp
  ultimately show ?thesis by blast
qed

text \<open>C23. When a span is filled with its blocks, the blocks of all the hashes reserved for it count as present, the
  span keeps its place and its hashes, and nothing else changes.\<close>

theorem filled_span_present:
  assumes "queue_inv q" "s \<in> set (queue_blocks q)" "h \<in> set (span_hashes s)"
    and "q' = add_blocks (start_block_height s) bcel c rate sz now q"
  shows "have_block h q' \<and> requested h q' \<and>
    set (queue_blocks q') = insert ((filled_span (start_block_height s) bcel c rate sz now)\<lparr>span_hashes := span_hashes s\<rparr>)
      (set (queue_blocks q) - {s})"
proof -
  note inj = inj_onD[OF ordered_start_inj[of "queue_blocks q"]]
  have o: "ordered (queue_blocks q)" using assms(1) by (simp add: queue_inv_def)
  let ?rest = "filter (\<lambda>t. start_block_height t \<noteq> start_block_height s) (queue_blocks q)"
  let ?s = "(filled_span (start_block_height s) bcel c rate sz now)\<lparr>span_hashes := span_hashes s\<rparr>"
  obtain i where i: "find (\<lambda>t. start_block_height t = start_block_height s) (queue_blocks q) = Some i"
    using assms(2) by (cases "find (\<lambda>t. start_block_height t = start_block_height s) (queue_blocks q)") (auto simp: find_None_iff)
  have "i = s" using inj[OF o _ find_span(1)[OF i] assms(2)] find_span(2)[OF i] by simp
  moreover have "set ?rest = set (queue_blocks q) - {s}" using inj[OF o _ _ assms(2)] by auto
  moreover have "set (insert_span ?s ?rest) = insert ?s (set ?rest)"
    by (rule conjunct2[OF insert_span_new[OF ordered_filter[OF o]]]) (auto simp: filled_span_def)
  ultimately show ?thesis
    using i assms(3) by (simp add: assms(4) add_blocks_exact[OF assms(1)] have_block_def requested_def)
qed

text \<open>C24. Where heights do not wrap, every block from the height of the chain up to the next needed height is in a span
  of the queue, and unless that is the height of the chain itself, a filled span starts there, so that the
  chain can go on.\<close>

theorem next_needed_height_covered:
  assumes "\<forall>s\<in>set (queue_blocks q). proper s"
  shows "bh \<le> get_next_needed_height bh q \<and>
    (\<forall>h. bh \<le> h \<and> h < get_next_needed_height bh q \<longrightarrow> (\<exists>s\<in>set (queue_blocks q). covers s h)) \<and>
    (get_next_needed_height bh q \<noteq> bh \<longrightarrow> (\<exists>s\<in>set (queue_blocks q). start_block_height s = bh \<and> span_blocks s \<noteq> []))"
  using next_needed_loop_covered[OF assms, where bh = bh and last_needed = bh and first = True] by (auto simp: get_next_needed_height_def not_less)


section \<open>An example\<close>

definition demo_entry :: block_complete_entry where
  "demo_entry = \<lparr>bce_block = [], bce_txs = [], bce_checkpoint = [], bce_blinks = []\<rparr>"

definition demo_span :: span where
  "demo_span = (scheduled_span 8 3 [1] 0)\<lparr>span_hashes := [[8], [9], [10]]\<rparr>"

lemma demo_queue_blocks: "queue_blocks demo_queue = [demo_span]"
  by code_simp

lemma demo_queue_inv: "queue_inv demo_queue"
  by (rule queue_reachable_inv) (rule r_into_rtranclp, rule queue_step.reserve[OF demo_reserve])


theorem filled_span_present_witness:
  "have_block [9] (add_blocks 8 [demo_entry, demo_entry, demo_entry] [1] 0 100 5 demo_queue)"
proof -
  have "have_block [9] (add_blocks (start_block_height demo_span) [demo_entry, demo_entry, demo_entry] [1] 0 100 5 demo_queue)"
    using filled_span_present[OF demo_queue_inv, of demo_span "[9]" _ "[demo_entry, demo_entry, demo_entry]" "[1]" 0 100 5, OF _ _ refl]
    by (simp add: demo_queue_blocks demo_span_def)
  then show ?thesis by (simp add: demo_span_def scheduled_span_def)
qed

theorem next_needed_height_covered_witness:
  "\<exists>q s. get_next_needed_height 8 q = 11 \<and> s \<in> set (queue_blocks q) \<and> covers s 10"
proof -
  let ?q = "add_blocks 8 [demo_entry, demo_entry, demo_entry] [1] 0 100 5 demo_queue"
  have b: "queue_blocks ?q = [(filled_span 8 [demo_entry, demo_entry, demo_entry] [1] 0 100 5)\<lparr>span_hashes := [[8], [9], [10]]\<rparr>]"
    by code_simp
  then have "\<forall>s\<in>set (queue_blocks ?q). proper s" by (simp add: proper_def filled_span_def)
  from next_needed_height_covered[OF this, of 8] have
    "\<forall>h. 8 \<le> h \<and> h < get_next_needed_height 8 ?q \<longrightarrow> (\<exists>s\<in>set (queue_blocks ?q). covers s h)" by blast
  moreover have e: "get_next_needed_height 8 ?q = 11" by (simp add: get_next_needed_height_def b filled_span_def)
  ultimately have "\<exists>s\<in>set (queue_blocks ?q). covers s 10" by simp
  then show ?thesis using e by blast
qed

end
