(* ===== verification/Peer_History.thy ===== *)
theory Peer_History
  imports Xeq_Prelude
begin

text \<open>
  Which peers can serve a syncing node, \<^verbatim>\<open>src/cryptonote_protocol/peer_history.h\<close> and \<^verbatim>\<open>peer_history.cpp\<close>, and
  the peers that turned out unable to.  The type of network addresses is a parameter.
\<close>

section \<open>Histories\<close>

definition PEER_HISTORY_MARGIN :: u64 where
  "PEER_HISTORY_MARGIN = 100"

definition history_covers :: "u64 \<Rightarrow> u64 \<Rightarrow> u64 \<Rightarrow> bool" where
  "history_covers height peer_height history \<longleftrightarrow> history = 0 \<or> height + history \<ge> peer_height + PEER_HISTORY_MARGIN"

definition peer_can_serve :: "u64 \<Rightarrow> u64 \<Rightarrow> u64 \<Rightarrow> bool" where
  "peer_can_serve height peer_height history \<longleftrightarrow> height < peer_height \<and> history_covers height peer_height history"

definition peer_no_longer_keeps :: "u64 \<Rightarrow> u64 \<Rightarrow> u64 \<Rightarrow> bool" where
  "peer_no_longer_keeps height peer_height history \<longleftrightarrow> height < peer_height \<and> \<not> history_covers height peer_height history"

section \<open>Unhelpful peers\<close>

text \<open>Address to chain height and history.\<close>

type_synonym 'a unhelpful_peers = "'a \<rightharpoonup> u64 \<times> u64"

definition unhelpful_add :: "'a \<Rightarrow> u64 \<Rightarrow> u64 \<Rightarrow> 'a unhelpful_peers \<Rightarrow> 'a unhelpful_peers" where
  "unhelpful_add addr height history m = m(addr \<mapsto> (height, history))"

definition unhelpful_contains :: "'a \<Rightarrow> 'a unhelpful_peers \<Rightarrow> bool" where
  "unhelpful_contains addr m \<longleftrightarrow> m addr \<noteq> None"

definition forget_servable :: "u64 \<Rightarrow> 'a unhelpful_peers \<Rightarrow> 'a unhelpful_peers" where
  "forget_servable need m = (\<lambda>addr. case m addr of
     None \<Rightarrow> None
   | Some (height, history) \<Rightarrow> if peer_can_serve need height history then None else Some (height, history))"

definition unhelpful_clear :: "'a unhelpful_peers \<Rightarrow> 'a unhelpful_peers" where
  "unhelpful_clear m = Map.empty"

section \<open>Lemmas\<close>

text \<open>A peer either keeps a block that its chain has, or no longer keeps it.\<close>

lemma serve_or_lost: "height < peer_height \<longleftrightarrow> peer_can_serve height peer_height history \<noteq> peer_no_longer_keeps height peer_height history"
  by (auto simp: peer_can_serve_def peer_no_longer_keeps_def)

text \<open>Without wrap around, a peer that keeps a block keeps every block from there up to the top of its chain.\<close>

lemma can_serve_above:
  assumes "peer_can_serve height peer_height history" "height \<le> h" "h < peer_height"
    and "unat h + unat history < 2 ^ 64"
  shows "peer_can_serve h peer_height history"
proof -
  have "unat (height + history) = unat height + unat history" "unat (h + history) = unat h + unat history"
    using assms(2,4) by (simp_all add: unat_word_ariths word_le_nat_alt)
  then have "height + history \<le> h + history" using assms(2) by (simp add: word_le_nat_alt)
  then show ?thesis using assms(1,3) by (auto simp: peer_can_serve_def history_covers_def)
qed

text \<open>A peer recorded as not yet having the block needed is never forgotten by what the sync needs later, which
  only moves up.\<close>

lemma not_reached_never_forgotten:
  assumes "m addr = Some (height, history)" "height \<le> need" "\<forall>n\<in>set needs. need \<le> n"
  shows "unhelpful_contains addr (fold forget_servable needs m)"
  using assms
proof (induction needs arbitrary: m)
  case (Cons n ns)
  have "height \<le> n" using Cons.prems by auto
  then have "forget_servable n m addr = Some (height, history)"
    using Cons.prems(1) by (auto simp: forget_servable_def peer_can_serve_def not_less)
  then show ?case using Cons by simp
qed (simp add: unhelpful_contains_def)

text \<open>After forgetting, no recorded peer could serve the block needed.\<close>

lemma forget_servable_exact:
  "unhelpful_contains addr (forget_servable need m) \<longleftrightarrow>
     (\<exists>height history. m addr = Some (height, history) \<and> \<not> peer_can_serve need height history)"
  by (auto simp: unhelpful_contains_def forget_servable_def split: option.splits if_splits)

text \<open>A large history makes the sum wrap around, so that the peer counts as not keeping the block.\<close>

lemma huge_history_refused: "peer_no_longer_keeps 10 1000 (- 1)"
  by (simp add: peer_no_longer_keeps_def history_covers_def PEER_HISTORY_MARGIN_def)

end
