(* ===== verification/Conn_Matrix.thy ===== *)
theory Conn_Matrix
  imports Xeq_Prelude
begin

text \<open>
  Which members of a quorum connect to each other, \<^verbatim>\<open>src/cryptonote_protocol/quorumnet_conn_matrix.h\<close>: the
  matrices for the quorum sizes 7 to 20, the iteration over the outgoing and the incoming
  connections of a member, and the redundancy that the script which generated the matrices,
  \<^verbatim>\<open>utils/generate-quorum-matrix.py\<close>, aims at.
\<close>

section \<open>The matrices\<close>

text \<open>The flags of a matrix, row by row.\<close>

definition flags :: "nat list \<Rightarrow> bool list" where
  "flags = map (\<lambda>b. b \<noteq> 0)"

definition quorum_conn_matrix_7 :: "bool list" where
  "quorum_conn_matrix_7 = flags [
    0, 1, 0, 1, 0, 1, 0, 0, 0, 1, 1, 0, 0, 1, 1, 0, 0, 1, 1, 0, 0, 0, 0, 0, 0,
    1, 1, 1, 1, 0, 0, 0, 0, 1, 0, 0, 1, 0, 0, 0, 0, 1, 0, 0, 1, 0, 1, 0, 0]"

definition quorum_conn_matrix_8 :: "bool list" where
  "quorum_conn_matrix_8 = flags [
    0, 1, 1, 1, 0, 1, 0, 0, 0, 0, 1, 1, 1, 0, 0, 0, 0, 0, 0, 1, 0, 1,
    1, 0, 0, 0, 0, 0, 1, 0, 1, 1, 1, 0, 1, 0, 0, 0, 0, 1, 0, 1, 0, 0,
    0, 0, 1, 0, 1, 0, 0, 0, 1, 0, 0, 1, 1, 1, 0, 0, 0, 1, 0, 0]"

definition quorum_conn_matrix_9 :: "bool list" where
  "quorum_conn_matrix_9 = flags [
    0, 1, 1, 0, 0, 1, 0, 0, 0, 0, 0, 1, 0, 0, 1, 0, 1, 0, 0, 0, 0, 1, 1, 0, 0, 0, 1,
    0, 0, 0, 0, 1, 0, 1, 1, 0, 1, 1, 0, 0, 0, 0, 1, 0, 0, 0, 0, 1, 1, 0, 0, 1, 0, 0,
    1, 0, 0, 0, 0, 0, 0, 1, 1, 1, 0, 0, 0, 1, 0, 0, 0, 1, 0, 1, 0, 1, 0, 1, 0, 0, 0]"

definition quorum_conn_matrix_10 :: "bool list" where
  "quorum_conn_matrix_10 = flags [
    0, 1, 0, 0, 0, 1, 0, 0, 0, 1, 0, 0, 1, 0, 0, 0, 1, 1, 0, 0, 0, 0, 0, 1, 0,
    0, 0, 0, 1, 1, 0, 0, 0, 0, 1, 1, 1, 0, 0, 0, 1, 0, 0, 0, 0, 0, 0, 1, 1, 0,
    0, 1, 1, 0, 0, 0, 1, 0, 0, 0, 1, 0, 0, 0, 1, 0, 0, 1, 0, 0, 0, 0, 1, 1, 0,
    0, 0, 0, 1, 0, 1, 1, 0, 0, 0, 0, 0, 0, 0, 1, 0, 0, 0, 1, 1, 1, 0, 0, 0, 0]"

definition quorum_conn_matrix_11 :: "bool list" where
  "quorum_conn_matrix_11 = flags [
    0, 1, 0, 0, 0, 0, 1, 0, 0, 0, 1, 0, 0, 1, 0, 0, 0, 0, 1, 1, 0, 0, 0, 0, 0, 1, 1, 0, 0, 1, 0,
    0, 0, 0, 0, 0, 0, 1, 1, 0, 0, 1, 0, 0, 1, 1, 0, 0, 0, 0, 1, 0, 0, 0, 0, 1, 0, 1, 0, 0, 0, 1,
    0, 0, 0, 0, 0, 0, 0, 0, 0, 0, 0, 1, 0, 1, 0, 1, 0, 0, 0, 0, 0, 0, 0, 1, 0, 0, 0, 0, 0, 0, 0,
    0, 0, 0, 0, 1, 1, 0, 1, 0, 0, 0, 1, 0, 0, 0, 0, 0, 0, 0, 0, 1, 0, 1, 0, 0, 0, 0, 0]"

definition quorum_conn_matrix_12 :: "bool list" where
  "quorum_conn_matrix_12 = flags [
    0, 1, 0, 0, 0, 0, 0, 0, 0, 0, 1, 0, 0, 0, 1, 1, 0, 0, 0, 0, 1, 0, 0, 0, 0, 0, 0, 1, 0,
    1, 0, 0, 0, 0, 1, 0, 1, 0, 0, 0, 1, 0, 0, 1, 0, 0, 0, 0, 1, 0, 0, 0, 0, 0, 1, 0, 0, 1,
    0, 0, 0, 1, 0, 0, 0, 0, 1, 1, 0, 0, 0, 0, 1, 0, 0, 0, 0, 0, 0, 1, 0, 1, 0, 0, 0, 0, 0,
    0, 0, 0, 0, 0, 1, 0, 1, 0, 0, 0, 0, 1, 0, 0, 0, 0, 0, 1, 0, 1, 0, 0, 0, 0, 0, 1, 0, 0,
    0, 0, 0, 1, 0, 0, 0, 0, 0, 0, 1, 0, 0, 0, 0, 1, 0, 0, 1, 0, 1, 0, 0, 0, 0, 0, 0, 0]"

definition quorum_conn_matrix_13 :: "bool list" where
  "quorum_conn_matrix_13 = flags [
    0, 1, 1, 1, 0, 1, 0, 0, 0, 0, 0, 0, 0, 0, 0, 1, 0, 0, 0, 0, 1, 0, 0, 0, 0, 1, 0, 0, 0,
    1, 0, 0, 1, 1, 0, 0, 0, 0, 0, 0, 0, 0, 0, 1, 1, 0, 0, 0, 1, 0, 0, 0, 1, 0, 0, 0, 0, 0,
    0, 0, 0, 0, 1, 1, 0, 0, 0, 0, 0, 0, 0, 1, 0, 1, 0, 1, 0, 0, 0, 0, 0, 0, 1, 0, 0, 1, 0,
    1, 0, 0, 0, 1, 0, 0, 0, 1, 0, 0, 0, 1, 0, 0, 0, 0, 0, 1, 0, 1, 0, 0, 0, 0, 0, 1, 0, 0,
    0, 0, 0, 0, 0, 0, 1, 0, 0, 0, 0, 0, 1, 1, 1, 0, 1, 0, 0, 0, 0, 0, 0, 0, 0, 1, 0, 0, 1,
    0, 0, 0, 0, 0, 0, 1, 0, 0, 0, 1, 0, 0, 1, 0, 0, 0, 1, 0, 0, 0, 1, 0, 0]"

definition quorum_conn_matrix_14 :: "bool list" where
  "quorum_conn_matrix_14 = flags [
    0, 1, 0, 0, 0, 1, 0, 0, 0, 0, 0, 0, 0, 1, 0, 0, 1, 0, 1, 0, 0, 0, 1, 0, 0, 0, 0, 0,
    0, 0, 0, 1, 0, 0, 0, 1, 1, 0, 0, 0, 0, 0, 0, 0, 0, 0, 1, 0, 1, 0, 0, 1, 0, 0, 0, 0,
    1, 0, 0, 0, 0, 1, 1, 0, 0, 0, 0, 0, 0, 0, 0, 0, 0, 0, 0, 0, 1, 1, 0, 0, 1, 0, 0, 0,
    0, 1, 0, 0, 0, 0, 0, 1, 0, 0, 1, 1, 0, 0, 0, 0, 0, 0, 0, 0, 0, 0, 1, 1, 0, 0, 1, 0,
    0, 0, 0, 1, 0, 0, 0, 0, 0, 1, 0, 0, 0, 1, 0, 0, 0, 0, 0, 1, 0, 0, 0, 0, 0, 1, 1, 0,
    1, 0, 1, 0, 0, 0, 0, 0, 0, 0, 0, 1, 0, 0, 0, 1, 0, 0, 1, 0, 0, 0, 0, 0, 0, 0, 1, 0,
    1, 0, 0, 0, 0, 0, 0, 0, 0, 0, 0, 0, 0, 1, 0, 0, 1, 1, 0, 0, 0, 0, 0, 0, 1, 0, 0, 0]"

definition quorum_conn_matrix_15 :: "bool list" where
  "quorum_conn_matrix_15 = flags [
    0, 1, 1, 0, 0, 1, 0, 0, 0, 0, 0, 0, 0, 0, 0, 0, 0, 1, 0, 0, 0, 1, 0, 1, 1, 0, 0, 0, 0,
    0, 0, 0, 0, 1, 0, 0, 1, 1, 0, 0, 0, 1, 0, 0, 0, 0, 0, 0, 0, 1, 0, 1, 0, 0, 1, 0, 0, 0,
    0, 0, 1, 0, 0, 0, 0, 0, 0, 0, 0, 0, 0, 0, 1, 0, 1, 0, 1, 0, 0, 0, 0, 1, 0, 0, 0, 1, 0,
    0, 0, 0, 0, 0, 0, 0, 1, 0, 0, 1, 0, 0, 1, 0, 0, 0, 0, 0, 0, 0, 0, 0, 0, 0, 0, 1, 1, 0,
    0, 1, 0, 0, 1, 0, 0, 0, 0, 0, 0, 0, 0, 1, 0, 1, 0, 0, 0, 0, 0, 0, 0, 0, 1, 0, 0, 0, 0,
    0, 0, 0, 1, 1, 0, 0, 1, 0, 0, 0, 0, 0, 0, 0, 0, 1, 0, 1, 0, 0, 0, 0, 1, 0, 0, 0, 1, 0,
    0, 0, 0, 1, 0, 0, 1, 0, 0, 0, 0, 1, 0, 0, 0, 0, 0, 0, 0, 1, 0, 0, 1, 0, 0, 1, 0, 0, 0,
    0, 0, 0, 0, 0, 0, 1, 0, 0, 0, 1, 0, 0, 0, 0, 1, 0, 1, 0, 0, 0, 0]"

definition quorum_conn_matrix_16 :: "bool list" where
  "quorum_conn_matrix_16 = flags [
    0, 1, 1, 0, 0, 0, 0, 0, 0, 0, 0, 0, 1, 0, 0, 1, 0, 0, 1, 0, 0, 1, 0, 0, 0, 0, 0, 0, 1,
    1, 0, 0, 0, 0, 0, 1, 0, 0, 0, 0, 1, 0, 1, 0, 0, 0, 0, 1, 0, 0, 0, 0, 1, 0, 0, 0, 1, 0,
    0, 1, 0, 0, 0, 0, 1, 0, 0, 0, 0, 0, 0, 0, 0, 0, 0, 1, 0, 0, 0, 1, 0, 0, 1, 0, 0, 0, 1,
    0, 0, 0, 0, 0, 0, 0, 1, 0, 1, 0, 0, 1, 0, 0, 0, 1, 0, 0, 0, 0, 0, 0, 0, 0, 1, 0, 0, 0,
    0, 0, 0, 0, 1, 1, 0, 0, 0, 0, 0, 0, 0, 1, 0, 0, 0, 0, 0, 0, 0, 1, 0, 0, 0, 1, 0, 0, 0,
    1, 0, 0, 1, 1, 0, 0, 0, 0, 0, 0, 0, 0, 0, 0, 0, 0, 0, 0, 0, 0, 0, 1, 0, 0, 0, 1, 1, 0,
    0, 0, 0, 0, 0, 0, 0, 0, 1, 0, 0, 1, 0, 0, 1, 0, 0, 0, 0, 0, 0, 0, 0, 1, 1, 0, 0, 0, 0,
    0, 0, 1, 0, 0, 0, 0, 0, 1, 0, 0, 0, 0, 0, 0, 0, 0, 0, 0, 1, 1, 0, 0, 0, 0, 1, 0, 0, 1,
    0, 0, 1, 0, 0, 0, 0, 0, 0, 0, 0, 0, 0, 1, 0, 0, 0, 0, 1, 0, 0, 0, 1, 0]"

definition quorum_conn_matrix_17 :: "bool list" where
  "quorum_conn_matrix_17 = flags [
    0, 1, 0, 0, 0, 0, 1, 1, 0, 0, 0, 0, 0, 0, 0, 1, 0, 0, 0, 1, 0, 0, 1, 0, 1, 0, 0, 0, 0,
    0, 0, 0, 0, 0, 0, 0, 0, 1, 1, 1, 0, 0, 1, 0, 0, 0, 0, 0, 0, 0, 0, 0, 0, 0, 0, 1, 0, 1,
    0, 0, 0, 0, 0, 1, 0, 0, 0, 0, 1, 1, 0, 0, 0, 0, 0, 0, 0, 1, 0, 0, 0, 0, 0, 0, 0, 0, 0,
    0, 0, 0, 0, 1, 0, 0, 0, 1, 1, 0, 0, 0, 1, 0, 0, 0, 0, 0, 0, 0, 0, 1, 0, 0, 0, 0, 0, 0,
    1, 1, 0, 0, 0, 0, 0, 0, 0, 0, 0, 1, 0, 1, 1, 0, 0, 0, 0, 0, 0, 0, 0, 0, 0, 0, 0, 0, 0,
    1, 0, 1, 0, 1, 0, 0, 1, 0, 0, 0, 0, 0, 1, 1, 0, 0, 0, 0, 0, 0, 1, 0, 0, 0, 1, 0, 0, 0,
    0, 0, 0, 0, 0, 0, 0, 1, 0, 0, 0, 0, 1, 0, 0, 0, 1, 0, 0, 0, 0, 0, 1, 0, 0, 1, 0, 0, 0,
    0, 1, 0, 0, 0, 0, 0, 0, 0, 1, 0, 0, 0, 0, 1, 0, 0, 0, 0, 1, 0, 0, 1, 0, 0, 0, 0, 0, 0,
    0, 0, 0, 1, 0, 0, 0, 0, 0, 1, 1, 0, 0, 0, 0, 0, 1, 0, 0, 0, 0, 0, 0, 0, 0, 1, 0, 0, 0,
    0, 0, 0, 0, 0, 0, 1, 0, 0, 0, 1, 0, 0, 1, 0, 0, 0, 0, 0, 0, 0, 0, 0, 0, 1, 1, 0, 0]"

definition quorum_conn_matrix_18 :: "bool list" where
  "quorum_conn_matrix_18 = flags [
    0, 1, 0, 1, 0, 1, 0, 0, 1, 0, 0, 0, 0, 0, 0, 0, 0, 0, 0, 0, 1, 0, 0, 0, 0, 0, 0, 1, 0, 0,
    0, 1, 0, 1, 0, 0, 0, 0, 0, 1, 0, 0, 0, 1, 0, 0, 0, 0, 0, 0, 0, 1, 1, 0, 0, 1, 0, 0, 1, 0,
    1, 0, 0, 1, 0, 0, 0, 0, 0, 0, 0, 0, 1, 0, 0, 0, 0, 0, 1, 0, 0, 0, 0, 0, 0, 0, 1, 0, 0, 0,
    0, 0, 0, 0, 0, 0, 1, 1, 0, 0, 1, 0, 0, 0, 1, 0, 0, 0, 0, 1, 0, 0, 0, 0, 0, 1, 0, 1, 0, 0,
    1, 0, 0, 0, 0, 0, 0, 0, 0, 0, 0, 0, 0, 0, 1, 0, 0, 1, 1, 0, 0, 0, 1, 0, 0, 0, 1, 0, 0, 0,
    0, 0, 0, 1, 0, 0, 0, 0, 0, 0, 0, 1, 0, 0, 0, 0, 0, 1, 0, 0, 0, 0, 0, 0, 0, 1, 0, 0, 0, 1,
    0, 0, 1, 1, 0, 0, 0, 0, 0, 0, 0, 1, 0, 0, 0, 0, 0, 0, 0, 0, 0, 1, 0, 0, 0, 0, 0, 0, 0, 0,
    1, 0, 0, 1, 0, 0, 1, 0, 0, 0, 1, 0, 0, 0, 0, 0, 0, 0, 0, 1, 0, 0, 0, 0, 0, 0, 0, 0, 0, 0,
    0, 0, 0, 0, 1, 0, 0, 0, 1, 0, 1, 0, 1, 0, 0, 0, 0, 0, 0, 0, 1, 0, 1, 0, 0, 0, 0, 0, 0, 1,
    0, 0, 0, 0, 0, 1, 1, 0, 0, 0, 0, 0, 0, 0, 0, 0, 1, 0, 0, 0, 0, 0, 1, 0, 0, 0, 0, 0, 0, 0,
    1, 0, 0, 0, 0, 1, 0, 0, 0, 0, 0, 0, 0, 1, 0, 0, 0, 1, 0, 0, 0, 1, 0, 0]"

definition quorum_conn_matrix_19 :: "bool list" where
  "quorum_conn_matrix_19 = flags [
    0, 1, 0, 0, 0, 1, 0, 1, 0, 0, 0, 0, 0, 0, 0, 0, 0, 0, 0, 0, 0, 1, 1, 0, 0, 0, 0, 0, 1, 0, 0,
    0, 0, 0, 1, 0, 0, 0, 0, 0, 0, 1, 0, 0, 0, 1, 0, 0, 0, 0, 1, 0, 0, 1, 0, 0, 0, 0, 0, 0, 0, 1,
    0, 0, 0, 0, 1, 0, 1, 0, 0, 0, 0, 0, 0, 0, 1, 0, 0, 0, 0, 0, 0, 0, 0, 0, 0, 0, 0, 1, 1, 0, 0,
    1, 0, 0, 0, 0, 0, 0, 0, 1, 0, 0, 0, 1, 1, 0, 0, 0, 0, 0, 1, 0, 0, 0, 0, 0, 0, 0, 0, 1, 0, 0,
    0, 1, 1, 0, 0, 0, 1, 0, 0, 0, 0, 0, 0, 0, 0, 0, 0, 1, 0, 0, 0, 1, 0, 1, 0, 0, 0, 0, 0, 0, 0,
    1, 0, 0, 0, 0, 0, 1, 0, 0, 0, 1, 0, 0, 0, 1, 0, 0, 0, 0, 0, 0, 1, 1, 0, 0, 0, 0, 0, 0, 1, 0,
    0, 0, 0, 0, 0, 1, 1, 0, 0, 0, 0, 0, 0, 0, 0, 1, 0, 0, 0, 0, 0, 0, 0, 0, 0, 0, 0, 1, 0, 0, 0,
    0, 0, 0, 0, 1, 0, 0, 0, 0, 0, 1, 1, 0, 0, 0, 1, 0, 0, 0, 0, 0, 0, 0, 0, 1, 0, 0, 0, 0, 1, 0,
    0, 0, 0, 0, 0, 0, 0, 0, 0, 1, 0, 0, 0, 1, 0, 1, 0, 0, 0, 0, 0, 0, 0, 0, 0, 0, 1, 0, 1, 0, 0,
    0, 0, 1, 0, 0, 1, 0, 0, 0, 0, 0, 1, 1, 0, 0, 0, 0, 0, 0, 0, 0, 0, 1, 0, 0, 0, 0, 1, 0, 1, 0,
    0, 0, 0, 0, 0, 0, 0, 0, 0, 0, 0, 1, 0, 1, 1, 0, 0, 0, 0, 0, 0, 0, 0, 0, 0, 0, 0, 0, 0, 0, 0,
    1, 0, 0, 0, 1, 0, 0, 0, 0, 1, 0, 0, 0, 0, 0, 0, 1, 0, 0, 0]"

definition quorum_conn_matrix_20 :: "bool list" where
  "quorum_conn_matrix_20 = flags [
    0, 1, 0, 0, 0, 1, 0, 0, 1, 0, 0, 0, 0, 0, 0, 1, 0, 0, 0, 0, 0, 0, 1, 0, 0, 0, 0, 0, 0, 0, 0,
    0, 0, 1, 0, 1, 0, 0, 0, 0, 0, 0, 0, 1, 0, 0, 0, 1, 0, 0, 0, 0, 0, 0, 0, 1, 0, 0, 0, 1, 0, 0,
    0, 0, 1, 1, 0, 0, 0, 1, 1, 0, 0, 0, 0, 0, 0, 0, 0, 0, 1, 0, 0, 0, 0, 0, 1, 0, 0, 0, 0, 0, 1,
    0, 1, 0, 0, 0, 0, 0, 0, 0, 0, 0, 0, 0, 1, 0, 0, 0, 1, 1, 0, 0, 1, 0, 0, 0, 0, 0, 0, 0, 0, 0,
    0, 0, 0, 1, 0, 0, 0, 1, 0, 1, 0, 0, 1, 0, 0, 0, 0, 0, 0, 0, 1, 0, 0, 0, 1, 0, 0, 0, 1, 0, 0,
    0, 0, 0, 1, 0, 0, 0, 0, 1, 0, 1, 0, 0, 0, 1, 0, 0, 0, 0, 0, 0, 0, 1, 0, 0, 0, 1, 0, 0, 1, 1,
    0, 0, 0, 0, 0, 0, 0, 1, 0, 0, 0, 0, 0, 0, 0, 0, 1, 0, 0, 0, 0, 0, 0, 0, 0, 1, 0, 0, 0, 0, 0,
    1, 0, 0, 1, 0, 0, 0, 0, 0, 0, 0, 0, 0, 0, 0, 1, 0, 0, 0, 0, 0, 1, 0, 1, 0, 0, 0, 0, 0, 0, 0,
    0, 0, 0, 0, 0, 1, 0, 0, 0, 0, 1, 0, 0, 0, 0, 0, 0, 0, 0, 0, 0, 0, 0, 1, 0, 0, 1, 0, 1, 0, 0,
    1, 0, 0, 0, 0, 0, 0, 0, 0, 0, 0, 1, 0, 1, 0, 0, 0, 0, 0, 0, 1, 0, 0, 0, 0, 0, 0, 1, 1, 0, 0,
    0, 0, 0, 0, 0, 0, 1, 1, 0, 0, 0, 0, 0, 1, 1, 0, 0, 0, 0, 0, 0, 0, 0, 0, 0, 0, 0, 1, 0, 0, 0,
    1, 0, 0, 0, 0, 0, 1, 0, 0, 0, 0, 0, 0, 1, 0, 0, 0, 1, 0, 0, 0, 1, 1, 0, 0, 0, 0, 0, 0, 0, 0,
    0, 0, 0, 0, 0, 0, 0, 1, 0, 0, 0, 0, 0, 0, 0, 0, 1, 1, 0, 0, 0, 0, 0, 1, 0, 0, 0, 0]"

definition max_outgoing_conns :: nat where
  "max_outgoing_conns = 5"

definition get_matrix :: "nat \<Rightarrow> bool list option" where
  "get_matrix N =
     (if N = 7 then Some quorum_conn_matrix_7
       else if N = 8 then Some quorum_conn_matrix_8
       else if N = 9 then Some quorum_conn_matrix_9
       else if N = 10 then Some quorum_conn_matrix_10
       else if N = 11 then Some quorum_conn_matrix_11
       else if N = 12 then Some quorum_conn_matrix_12
       else if N = 13 then Some quorum_conn_matrix_13
       else if N = 14 then Some quorum_conn_matrix_14
       else if N = 15 then Some quorum_conn_matrix_15
       else if N = 16 then Some quorum_conn_matrix_16
       else if N = 17 then Some quorum_conn_matrix_17
       else if N = 18 then Some quorum_conn_matrix_18
       else if N = 19 then Some quorum_conn_matrix_19
       else if N = 20 then Some quorum_conn_matrix_20
      else None)"

section \<open>Iteration\<close>

text \<open>What constructing an iterable object and running through it gives: the indices, the exception for a size without
  matrix, or undefined behaviour, when the null pointer is moved to a row or column or read from.\<close>

datatype conns = Conns "nat list" | Domain_error | Undefined

text \<open>\<^verbatim>\<open>operator++\<close>, on the flags from the row or column on.\<close>

function next_conn :: "bool list \<Rightarrow> nat \<Rightarrow> nat \<Rightarrow> nat \<Rightarrow> nat" where
  "next_conn fs N step i = (if i + 1 < N \<and> \<not> fs ! ((i + 1) * step) then next_conn fs N step (i + 1) else i + 1)"
  by pat_completeness auto
termination by (relation "measure (\<lambda>(fs, N, step, i). N - i)") auto

declare next_conn.simps [simp del]

lemma next_conn_greater: "i < next_conn fs N step i"
  by (induction fs N step i rule: next_conn.induct) (subst next_conn.simps, auto)

lemma next_conn_le: "i < N \<Longrightarrow> next_conn fs N step i \<le> N"
  by (induction fs N step i rule: next_conn.induct) (subst next_conn.simps, auto)

text \<open>The loop over the iterator: the end is reached when the index is the size.\<close>

function conn_loop :: "bool list \<Rightarrow> nat \<Rightarrow> nat \<Rightarrow> nat \<Rightarrow> nat list" where
  "conn_loop fs N step i = (if i < N then i # conn_loop fs N step (next_conn fs N step i) else [])"
  by pat_completeness auto
termination
  by (relation "measure (\<lambda>(fs, N, step, i). N - i)") (auto intro: diff_less_mono2 next_conn_greater)

declare conn_loop.simps [simp del]

definition quorum_conn_iterator :: "bool list \<Rightarrow> nat \<Rightarrow> nat \<Rightarrow> nat list" where
  "quorum_conn_iterator fs N step = conn_loop fs N step (if \<not> fs ! 0 \<and> N > 0 then next_conn fs N step 0 else 0)"

definition quorum_outgoing_conns :: "nat \<Rightarrow> nat \<Rightarrow> conns" where
  "quorum_outgoing_conns i N =
     (case get_matrix N of
        None \<Rightarrow> if i * N = 0 \<and> N \<noteq> 0 then Domain_error else Undefined
      | Some m \<Rightarrow> Conns (quorum_conn_iterator (drop (i * N) m) N 1))"

definition quorum_incoming_conns :: "nat \<Rightarrow> nat \<Rightarrow> conns" where
  "quorum_incoming_conns i N =
     (case get_matrix N of
        None \<Rightarrow> if i = 0 \<and> N \<noteq> 0 then Domain_error else Undefined
      | Some m \<Rightarrow> Conns (quorum_conn_iterator (drop i m) N N))"

section \<open>The script\<close>

text \<open>The redundancy that the script requires, and how it counts the paths of one or two hops between two members.\<close>

definition min_connections :: "nat \<Rightarrow> nat" where
  "min_connections n = (if n \<le> 10 then 4 else 2)"

definition count_paths_within_two :: "nat \<Rightarrow> (nat \<Rightarrow> nat \<Rightarrow> bool) \<Rightarrow> nat \<Rightarrow> nat \<Rightarrow> nat" where
  "count_paths_within_two nodes conns i j =
     (let (i, j) = (if i > j then (j, i) else (i, j));
          neighbours = filter (\<lambda>r. conns r j \<or> conns j r) [0..<j] @ filter (\<lambda>c. conns j c \<or> conns c j) [j + 1..<nodes]
      in length (filter (\<lambda>n. n = i \<or> conns n i \<or> conns i n) neighbours))"

section \<open>Iteration visits the flags\<close>

lemma next_conn_visits:
  assumes "i < N"
  shows "filter (\<lambda>j. fs ! (j * step)) [Suc i..<N] =
    filter (\<lambda>j. fs ! (j * step)) [next_conn fs N step i..<N]"
    "next_conn fs N step i < N \<Longrightarrow> fs ! (next_conn fs N step i * step)"
  using assms
proof (induction fs N step i rule: next_conn.induct)
  case (1 fs N step i)
  {
    case 1
    then show ?case using "1.IH"(1)
      by (subst next_conn.simps) (auto simp: upt_conv_Cons[of "Suc i" N])
  next
    case 2
    then show ?case using "1.IH"(2)
      by (subst (asm) next_conn.simps, subst next_conn.simps) (auto split: if_splits)
  }
qed

lemma conn_loop_filter:
  assumes "i \<le> N" "i < N \<Longrightarrow> fs ! (i * step)"
  shows "conn_loop fs N step i = filter (\<lambda>j. fs ! (j * step)) [i..<N]"
  using assms
proof (induction fs N step i rule: conn_loop.induct)
  case (1 fs N step i)
  show ?case
  proof (cases "i < N")
    case True
    note n = next_conn_visits[OF True, of fs step]
    have "conn_loop fs N step (next_conn fs N step i) = filter (\<lambda>j. fs ! (j * step)) [next_conn fs N step i..<N]"
      using "1.IH"[OF True next_conn_le[OF True] n(2)] .
    then show ?thesis using True n(1) "1.prems"(2) by (subst conn_loop.simps) (simp add: upt_conv_Cons)
  next
    case False
    then show ?thesis by (subst conn_loop.simps) simp
  qed
qed

lemma iterator_filter: "quorum_conn_iterator fs N step = filter (\<lambda>j. fs ! (j * step)) [0..<N]"
proof (cases "N = 0")
  case True
  then show ?thesis by (simp add: quorum_conn_iterator_def conn_loop.simps)
next
  case False
  show ?thesis
  proof (cases "fs ! 0")
    case True
    then show ?thesis using conn_loop_filter[of 0 N fs step] by (simp add: quorum_conn_iterator_def)
  next
    case no: False
    note n = next_conn_visits[of 0 N fs step] next_conn_le[of 0 N fs step]
    then show ?thesis using False no conn_loop_filter[of "next_conn fs N step 0" N fs step]
      by (simp add: quorum_conn_iterator_def upt_conv_Cons)
  qed
qed

section \<open>Redundancy\<close>

text \<open>The flag of a matrix for a connection from one member to another, and that two members are connected.\<close>

definition conn :: "nat \<Rightarrow> nat \<Rightarrow> nat \<Rightarrow> bool" where
  "conn N i j \<longleftrightarrow> the (get_matrix N) ! (i * N + j)"

definition linked :: "nat \<Rightarrow> nat \<Rightarrow> nat \<Rightarrow> bool" where
  "linked N i j \<longleftrightarrow> conn N i j \<or> conn N j i"

text \<open>A matrix by rows, and the test of the redundancy on the rows of the symmetric matrix.\<close>

fun rows :: "nat \<Rightarrow> nat \<Rightarrow> 'a list \<Rightarrow> 'a list list" where
  "rows N 0 xs = []"
| "rows N (Suc k) xs = take N xs # rows N k (drop N xs)"

definition symmetric_rows :: "nat \<Rightarrow> bool list \<Rightarrow> bool list list" where
  "symmetric_rows N m = (let R = rows N N m in map2 (map2 (\<or>)) R (map (\<lambda>i. map (\<lambda>r. r ! i) R) [0..<N]))"

definition redundant :: "nat \<Rightarrow> bool list \<Rightarrow> bool" where
  "redundant N m \<longleftrightarrow> length m = N * N \<and> (let A = symmetric_rows N m in
     list_all (\<lambda>i. let a = A ! i in \<not> a ! i \<and> list_all (\<lambda>j. let b = A ! j in
       i = j \<or> min_connections N \<le> length (filter id (map2 (\<and>) a b)) + (if a ! j then 1 else 0)) [0..<N]) [0..<N])"

definition sparse :: "nat \<Rightarrow> bool list \<Rightarrow> bool" where
  "sparse N m \<longleftrightarrow> (let R = rows N N m in
     list_all (\<lambda>i. let r = R ! i in length (filter id r) \<le> max_outgoing_conns \<and>
       list_all (\<lambda>j. \<not> (r ! j \<and> R ! j ! i)) [0..<N]) [0..<N])"

lemma rows_nth:
  "i < k \<Longrightarrow> k * N \<le> length xs \<Longrightarrow> j < N \<Longrightarrow> length (rows N k xs) = k \<and> length (rows N k xs ! i) = N \<and> rows N k xs ! i ! j = xs ! (i * N + j)"
proof (induction N k xs arbitrary: i rule: rows.induct)
  case (2 N k xs)
  have l: "length (rows N k (drop N xs)) = k"
    by (rule rows.induct[of "\<lambda>N k xs. length (rows N k xs) = k"]) simp_all
  show ?case
  proof (cases i)
    case 0
    then show ?thesis using 2(3,4) l by simp
  next
    case (Suc i')
    then have "length (rows N k (drop N xs) ! i') = N \<and> rows N k (drop N xs) ! i' ! j = drop N xs ! (i' * N + j)"
      using 2 by simp
    then show ?thesis using Suc 2(2,3) l by (simp add: add.assoc)
  qed
qed simp

lemma symmetric_rows_nth:
  assumes "length m = N * N" "i < N" "j < N"
  shows "length (symmetric_rows N m ! i) = N \<and> (symmetric_rows N m ! i ! j \<longleftrightarrow> m ! (i * N + j) \<or> m ! (j * N + i))"
proof -
  note r = rows_nth[of _ N N m]
  have "length (rows N N m) = N" using r[OF assms(2) _ assms(3)] assms(1) by simp
  then show ?thesis
    using r[of i j] r[of j i] assms by (simp add: symmetric_rows_def Let_def)
qed

lemma get_matrix_checks:
  assumes "get_matrix N = Some m"
  shows "redundant N m \<and> sparse N m"
proof -
  have r7: "redundant 7 quorum_conn_matrix_7 \<and> sparse 7 quorum_conn_matrix_7" by code_simp
  have r8: "redundant 8 quorum_conn_matrix_8 \<and> sparse 8 quorum_conn_matrix_8" by code_simp
  have r9: "redundant 9 quorum_conn_matrix_9 \<and> sparse 9 quorum_conn_matrix_9" by code_simp
  have r10: "redundant 10 quorum_conn_matrix_10 \<and> sparse 10 quorum_conn_matrix_10" by code_simp
  have r11: "redundant 11 quorum_conn_matrix_11 \<and> sparse 11 quorum_conn_matrix_11" by code_simp
  have r12: "redundant 12 quorum_conn_matrix_12 \<and> sparse 12 quorum_conn_matrix_12" by code_simp
  have r13: "redundant 13 quorum_conn_matrix_13 \<and> sparse 13 quorum_conn_matrix_13" by code_simp
  have r14: "redundant 14 quorum_conn_matrix_14 \<and> sparse 14 quorum_conn_matrix_14" by code_simp
  have r15: "redundant 15 quorum_conn_matrix_15 \<and> sparse 15 quorum_conn_matrix_15" by code_simp
  have r16: "redundant 16 quorum_conn_matrix_16 \<and> sparse 16 quorum_conn_matrix_16" by code_simp
  have r17: "redundant 17 quorum_conn_matrix_17 \<and> sparse 17 quorum_conn_matrix_17" by code_simp
  have r18: "redundant 18 quorum_conn_matrix_18 \<and> sparse 18 quorum_conn_matrix_18" by code_simp
  have r19: "redundant 19 quorum_conn_matrix_19 \<and> sparse 19 quorum_conn_matrix_19" by code_simp
  have r20: "redundant 20 quorum_conn_matrix_20 \<and> sparse 20 quorum_conn_matrix_20" by code_simp
  show ?thesis
    using assms unfolding get_matrix_def by (simp split: if_splits add: r7 r8 r9 r10 r11 r12 r13 r14 r15 r16 r17 r18 r19 r20)
qed

lemma supported_sizes: "get_matrix N \<noteq> None \<longleftrightarrow> 7 \<le> N \<and> N \<le> 20"
  by (auto simp: get_matrix_def) presburger

lemma linked_sym: "linked N i j \<longleftrightarrow> linked N j i"
  by (auto simp: linked_def)

lemma common_neighbours:
  assumes "get_matrix N = Some m" "i < N" "j < N" "i \<noteq> j"
  shows "\<not> linked N i i"
    "min_connections N \<le> card {k. k < N \<and> linked N i k \<and> linked N j k} + (if linked N i j then 1 else 0)"
proof -
  note r = conjunct1[OF get_matrix_checks[OF assms(1)], unfolded redundant_def Let_def]
  then have l: "length m = N * N" by blast
  have s: "symmetric_rows N m ! a ! b \<longleftrightarrow> linked N a b" "length (symmetric_rows N m ! a) = N" if "a < N" "b < N" for a b
    using symmetric_rows_nth[OF l that] assms(1) by (simp_all add: linked_def conn_def)
  show "\<not> linked N i i" using r assms(2) s by (auto simp: list_all_iff)
  have c: "length (filter id (map2 (\<and>) (symmetric_rows N m ! i) (symmetric_rows N m ! j))) =
      card {k. k < N \<and> linked N i k \<and> linked N j k}"
    using s assms(2,3) by (auto simp: length_filter_conv_card intro!: arg_cong[of _ _ card])
  have in_upt: "i \<in> set [0..<N]" "j \<in> set [0..<N]" using assms(2,3) by simp_all
  have "min_connections N \<le> length (filter id (map2 (\<and>) (symmetric_rows N m ! i) (symmetric_rows N m ! j))) +
      (if symmetric_rows N m ! i ! j then 1 else 0)"
    using r in_upt assms(4) unfolding list_all_iff by blast
  then show "min_connections N \<le> card {k. k < N \<and> linked N i k \<and> linked N j k} + (if linked N i j then 1 else 0)"
    unfolding c s(1)[OF assms(2,3)] .
qed

lemma count_paths_card:
  assumes "i < j" "j < N"
  shows "count_paths_within_two N (conn N) i j = card {n. n < N \<and> n \<noteq> j \<and> linked N n j \<and> (n = i \<or> linked N n i)}"
    "count_paths_within_two N (conn N) j i = count_paths_within_two N (conn N) i j"
proof -
  let ?xs = "filter (\<lambda>n. n = i \<or> linked N n i) (filter (\<lambda>n. linked N n j) ([0..<j] @ [j + 1..<N]))"
  have "count_paths_within_two N (conn N) i j = length ?xs"
    using assms by (simp add: count_paths_within_two_def linked_def disj_commute)
  also have "\<dots> = card (set ?xs)" by (rule distinct_card[symmetric]) auto
  also have "set ?xs = {n. n < N \<and> n \<noteq> j \<and> linked N n j \<and> (n = i \<or> linked N n i)}" using assms by auto
  finally show "count_paths_within_two N (conn N) i j = card {n. n < N \<and> n \<noteq> j \<and> linked N n j \<and> (n = i \<or> linked N n i)}" .
  show "count_paths_within_two N (conn N) j i = count_paths_within_two N (conn N) i j"
    using assms by (simp add: count_paths_within_two_def)
qed

lemma enough_paths:
  assumes "get_matrix N = Some m" "i < N" "j < N" "i \<noteq> j"
  shows "min_connections N \<le> card {n. n < N \<and> n \<noteq> j \<and> linked N n j \<and> (n = i \<or> linked N n i)}"
proof -
  let ?C = "{k. k < N \<and> linked N i k \<and> linked N j k}"
  note c = common_neighbours[OF assms]
  have nj: "\<not> linked N j j" using common_neighbours(1)[OF assms(1,3,2)] assms(4) by blast
  have "card ?C + (if linked N i j then 1 else 0) = card (?C \<union> (if linked N i j then {i} else {}))"
    using c(1) by (simp add: card_insert_if)
  also have "\<dots> \<le> card {n. n < N \<and> n \<noteq> j \<and> linked N n j \<and> (n = i \<or> linked N n i)}"
    using assms nj by (intro card_mono) (auto simp: linked_def split: if_splits)
  finally show ?thesis using c(2) by linarith
qed

section \<open>Properties\<close>

lemma outgoing_eq:
  assumes "get_matrix N = Some m" "i < N"
  shows "quorum_outgoing_conns i N = Conns (filter (conn N i) [0..<N])"
    "quorum_incoming_conns i N = Conns (filter (\<lambda>j. conn N j i) [0..<N])"
proof -
  have l: "length m = N * N" using get_matrix_checks[OF assms(1)] by (simp add: redundant_def)
  have "i * N \<le> length m" "i \<le> length m"
    using assms(2) l mult_le_mono1[of i N N] mult_le_mono[of i N 1 N] by simp_all
  then show "quorum_outgoing_conns i N = Conns (filter (conn N i) [0..<N])"
    "quorum_incoming_conns i N = Conns (filter (\<lambda>j. conn N j i) [0..<N])"
    using assms(1) l
    by (simp_all add: quorum_outgoing_conns_def quorum_incoming_conns_def iterator_filter conn_def[abs_def] add.commute)
qed

lemma sparse_conns:
  assumes "get_matrix N = Some m" "i < N"
  shows "length (filter (conn N i) [0..<N]) \<le> max_outgoing_conns" "j < N \<Longrightarrow> \<not> (conn N i j \<and> conn N j i)"
proof -
  note r = conjunct2[OF get_matrix_checks[OF assms(1)], unfolded sparse_def Let_def]
  have l: "length m = N * N" using get_matrix_checks[OF assms(1)] by (simp add: redundant_def)
  have R: "rows N N m ! a ! b \<longleftrightarrow> conn N a b" "length (rows N N m ! a) = N" if "a < N" "b < N" for a b
    using rows_nth[of a N N m b] l that assms(1) by (simp_all add: conn_def)
  have "rows N N m ! i = map (conn N i) [0..<N]" using R[OF assms(2)] assms(2) by (intro nth_equalityI) auto
  then have "length (filter id (rows N N m ! i)) = length (filter (conn N i) [0..<N])" by (simp add: filter_map o_def)
  moreover have "i \<in> set [0..<N]" using assms(2) by simp
  ultimately show "length (filter (conn N i) [0..<N]) \<le> max_outgoing_conns" using r unfolding list_all_iff by metis
  assume j: "j < N"
  then have "\<not> (rows N N m ! i ! j \<and> rows N N m ! j ! i)" using r assms(2) by (simp add: list_all_iff)
  then show "\<not> (conn N i j \<and> conn N j i)" using R[OF assms(2) j] R[OF j assms(2)] by simp
qed

lemma count_paths_least:
  assumes "get_matrix N = Some m" "i < N" "j < N" "j \<noteq> i"
  shows "min_connections N \<le> count_paths_within_two N (conn N) i j"
proof (cases "i < j")
  case True
  then show ?thesis using enough_paths[OF assms(1-3)] count_paths_card(1)[OF True assms(3)] assms(4) by simp
next
  case False
  then have "j < i" using assms(4) by simp
  then show ?thesis using enough_paths[OF assms(1,3,2,4)] count_paths_card[OF \<open>j < i\<close> assms(2)] by simp
qed

text \<open>Two members talk when one of them connects to the other.\<close>

definition talk :: "nat \<Rightarrow> nat \<Rightarrow> nat \<Rightarrow> bool" where
  "talk N i j \<longleftrightarrow> (\<exists>out inc. quorum_outgoing_conns i N = Conns out \<and> quorum_incoming_conns i N = Conns inc \<and>
     j \<in> set out \<union> set inc)"

lemma talk_linked: "get_matrix N = Some m \<Longrightarrow> i < N \<Longrightarrow> talk N i j \<longleftrightarrow> j < N \<and> linked N i j"
  by (auto simp: talk_def outgoing_eq linked_def)

text \<open>C15. In a quorum of 7 to 20 members, any two members that work are connected directly or through one other
  member that works, as long as fewer than 4 members (2 when there are more than 10) have failed.\<close>

theorem quorum_survives_failures:
  assumes "7 \<le> N" "N \<le> 20" "i < N" "j < N" "i \<noteq> j"
    and "finite failed" "card failed < min_connections N" "i \<notin> failed"
  shows "talk N i j \<or> (\<exists>k. k \<notin> failed \<and> talk N i k \<and> talk N k j)"
proof -
  obtain m where m: "get_matrix N = Some m" using supported_sizes assms(1,2) by blast
  let ?P = "{n. n < N \<and> n \<noteq> j \<and> linked N n j \<and> (n = i \<or> linked N n i)}"
  have "card failed < card ?P" using enough_paths[OF m assms(3-5)] assms(7) by linarith
  then have "\<not> ?P \<subseteq> failed" using card_mono[OF assms(6), of ?P] by linarith
  then obtain k where k: "k < N" "linked N k j" "k = i \<or> linked N k i" "k \<notin> failed" by blast
  then show ?thesis using assms(3,4) by (auto simp: talk_linked[OF m] linked_sym)
qed

theorem quorum_survives_failures_witness:
  "talk 20 0 3 \<or> (\<exists>k. k \<notin> {1 :: nat} \<and> talk 20 0 k \<and> talk 20 k 3)"
  by (rule quorum_survives_failures) (simp_all add: min_connections_def)

text \<open>C25. Of a member of a quorum of 7 to 20 members, the iteration gives each outgoing and each incoming connection
  once: at most as many outgoing ones as \<^const>\<open>max_outgoing_conns\<close> says, none to itself, and
  the connections that one member sees as outgoing the other sees as incoming.  Between any two members there
  are as many paths of at most two hops as the script requires.\<close>

theorem quorum_conns_exact:
  assumes "7 \<le> N" "N \<le> 20" "i < N"
  shows "\<exists>out inc. quorum_outgoing_conns i N = Conns out \<and> quorum_incoming_conns i N = Conns inc \<and>
    distinct (out @ inc) \<and> i \<notin> set (out @ inc) \<and> length out \<le> max_outgoing_conns \<and>
    (\<forall>j. j \<in> set out \<longleftrightarrow> j < N \<and> (\<exists>inc'. quorum_incoming_conns j N = Conns inc' \<and> i \<in> set inc')) \<and>
    (\<forall>j. j < N \<and> j \<noteq> i \<longrightarrow> min_connections N \<le> count_paths_within_two N (conn N) i j)"
proof -
  obtain m where m: "get_matrix N = Some m" using supported_sizes assms(1,2) by blast
  let ?out = "filter (conn N i) [0..<N]" and ?inc = "filter (\<lambda>j. conn N j i) [0..<N]"
  note sp = sparse_conns[OF m assms(3)]
  have "distinct (?out @ ?inc)" "i \<notin> set (?out @ ?inc)" using sp(2) assms(3) by auto
  moreover have "\<forall>j. j \<in> set ?out \<longleftrightarrow> j < N \<and> (\<exists>inc'. quorum_incoming_conns j N = Conns inc' \<and> i \<in> set inc')"
    using outgoing_eq(2)[OF m] assms(3) by auto
  moreover have "\<forall>j. j < N \<and> j \<noteq> i \<longrightarrow> min_connections N \<le> count_paths_within_two N (conn N) i j"
    using count_paths_least[OF m assms(3)] by blast
  ultimately show ?thesis using outgoing_eq[OF m assms(3)] sp(1) by blast
qed

theorem quorum_conns_exact_witness:
  "\<exists>out. quorum_outgoing_conns 3 10 = Conns out \<and> length out \<le> max_outgoing_conns \<and> 3 \<notin> set out"
proof -
  have "\<exists>out inc. quorum_outgoing_conns 3 10 = Conns out \<and> quorum_incoming_conns 3 10 = Conns inc \<and>
    distinct (out @ inc) \<and> 3 \<notin> set (out @ inc) \<and> length out \<le> max_outgoing_conns \<and>
    (\<forall>j. j \<in> set out \<longleftrightarrow> j < 10 \<and> (\<exists>inc'. quorum_incoming_conns j 10 = Conns inc' \<and> 3 \<in> set inc')) \<and>
    (\<forall>j. j < 10 \<and> j \<noteq> 3 \<longrightarrow> min_connections 10 \<le> count_paths_within_two 10 (conn 10) 3 j)"
    by (rule quorum_conns_exact) simp_all
  then show ?thesis by auto
qed

end
