(* ===== verification/Spec2Isabelle.thy ===== *)
theory Spec2Isabelle
  imports Swap_Backend_Py Varint Quorum_Cop Checkpoints Block_Reward Difficulty Pruning
    Block_Queue Peer_History Conn_Matrix
begin

text \<open>
  Verification development of XEQM, a CryptoNote block chain with service nodes, and of the token swap
  scripts kept in the same repository.  Paths are relative to \<^verbatim>\<open>src/\<close>.

  \<^bold>\<open>The parts and how they interact.\<close>  The swap backends (\<^verbatim>\<open>swap_backend.js\<close>, \<^verbatim>\<open>swap_backend.py\<close>) ask two wallet servers for
  balances and addresses and move coins between them.  The daemon keeps a chain of blocks.  Service nodes, which stake
  coins, form quorums that vote on the state of other nodes and on checkpoints; \<^verbatim>\<open>quorum_cop\<close> collects the votes in a
  \<^verbatim>\<open>voting_pool\<close>, submits state change transactions and updates checkpoints, and the checkpoints decide which
  alternative blocks are still allowed.  The rules of a height depend on the hard fork tables and on the configuration
  of the network.  A syncing node keeps the blocks it has asked peers for in a \<^verbatim>\<open>block_queue\<close>.

  \<^bold>\<open>The theories.\<close>
  \<^item> \<^verbatim>\<open>Xeq_Prelude\<close>: machine integers, generic lemmas, the contract \<^verbatim>\<open>codec\<close> of a self-delimiting encoding.
  \<^item> \<^verbatim>\<open>Async_Js\<close>: JavaScript values, asynchronous functions as resumption trees, and the event loop as a step
    relation over concurrent calls; the locale \<^verbatim>\<open>answering\<close> is a service that answers every request.
  \<^item> \<^verbatim>\<open>Swap_Backend\<close> (\<^verbatim>\<open>swap_backend.js\<close>): the class, \<^verbatim>\<open>main\<close> and the module body on a wallet client that is a parameter.
    Shown: which requests can be made in any interleaving, what each result says about the requests, termination,
    completion, no rejected promise, the output of \<^verbatim>\<open>main\<close>.
  \<^item> \<^verbatim>\<open>Wallet_Rpc_Py\<close>, \<^verbatim>\<open>Swap_Backend_Py\<close> (\<^verbatim>\<open>utils/python-rpc/framework\<close>, \<^verbatim>\<open>swap_backend.py\<close>): the same in Python, with
    agreement with the JavaScript version, and that no transfer succeeds at a server that takes addresses as text.
  \<^item> \<^verbatim>\<open>Varint\<close>, \<^verbatim>\<open>Int_Util\<close>, \<^verbatim>\<open>Base58\<close>, \<^verbatim>\<open>Address\<close> (\<^verbatim>\<open>src/common/varint.h\<close>, \<^verbatim>\<open>epee/int-util.h\<close>, \<^verbatim>\<open>src/common/base58.cpp\<close>,
    \<^verbatim>\<open>cryptonote_basic_impl.cpp\<close>): round trips in both directions, exactness of the 128 bit helpers and equality of
    their two bodies, and that address texts and addresses determine each other.
  \<^item> \<^verbatim>\<open>Hardfork\<close>, \<^verbatim>\<open>Network_Config\<close>, \<^verbatim>\<open>Stake_Rules\<close> (\<^verbatim>\<open>hardfork.cpp\<close>, \<^verbatim>\<open>network_config/\<close>, \<^verbatim>\<open>service_node_rules.cpp\<close>): the
    tables, the queries on them, and which stakes a registration may reserve.
  \<^item> \<^verbatim>\<open>Voting\<close>, \<^verbatim>\<open>Voting_Pool\<close>, \<^verbatim>\<open>Quorum_Cop\<close> (\<^verbatim>\<open>service_node_voting.cpp\<close>, \<^verbatim>\<open>service_node_quorum_cop.cpp\<close>): making and
    verification of votes, the pool as a refinement of a map (locale \<^verbatim>\<open>vote_store\<close>), quorum intersection (locale
    \<^verbatim>\<open>quorum_threshold\<close>), and that what a node submits or writes passes the verification of the others.
  \<^item> \<^verbatim>\<open>Checkpoints\<close> (\<^verbatim>\<open>checkpoints.cpp\<close>, the checkpoint table of \<^verbatim>\<open>db_lmdb.cpp\<close>, \<^verbatim>\<open>blockchain_db.cpp\<close>): ranges, the immutable
    checkpoint, culling, detaching, and that a refused alternative block stays refused.
  \<^item> \<^verbatim>\<open>Conn_Matrix\<close> (\<^verbatim>\<open>quorumnet_conn_matrix.h\<close>): the connections within a quorum and their redundancy.
  \<^item> \<^verbatim>\<open>Block_Queue\<close>, \<^verbatim>\<open>Peer_History\<close> (\<^verbatim>\<open>block_queue.cpp\<close>, \<^verbatim>\<open>peer_history.cpp\<close>): the queue as a step relation with its invariant,
    reserving and filling of spans, the next needed height; which peers can serve a height.
  \<^item> \<^verbatim>\<open>Block_Reward\<close>, \<^verbatim>\<open>Difficulty\<close>, \<^verbatim>\<open>Pruning\<close> (\<^verbatim>\<open>cryptonote_tx_utils.cpp\<close>, \<^verbatim>\<open>difficulty.cpp\<close>, \<^verbatim>\<open>pruning.cpp\<close>): conservation of
    rewards, the proof of work test as an inequality on numbers, the search for the next kept block.
  \<^item> This theory: the property that joins votes, \<^verbatim>\<open>quorum_cop\<close> and the checkpoint table.

  \<^bold>\<open>Conventions.\<close>  A C++ integer is a word of its width; \<^verbatim>\<open>size_t\<close> counts of containers are natural numbers.  An object
  is a record and a method returns the changed record.  A failure is \<^const>\<open>None\<close> or \<^const>\<open>Inl\<close>, and so is
  undefined behaviour.  Operations that hold a mutex from beginning to end are single steps.
  Hash functions, signature checks, the clock, random bytes, the wallet client, HTTP and the key
  value store are parameters; what is assumed of them is in the hypotheses of the theorems.

  \<^bold>\<open>Loops.\<close>  No definition uses fuel.  Loops are structural recursions or functions with a measure; \<^verbatim>\<open>cull_loop\<close> of
  \<^verbatim>\<open>Checkpoints\<close>, whose height can wrap around, is a partial function, and its termination is part of
  what is proved about \<^verbatim>\<open>block_add\<close>, for stored heights up to 2^63.

  \<^bold>\<open>Not modelled.\<close>
  \<^item> Block and transaction validation, the service node list, Pulse, the transaction pool, blink and the
    name system: they work on the data base, on transactions parsed from several binary formats, on ring
    signatures and on other threads, so that nearly all of what they call would be a parameter.
  \<^item> Curve arithmetic, hashes, ring signatures, BLS: C code with precomputed tables or external libraries.
  \<^item> Floating point: \<^verbatim>\<open>next_difficulty_v2\<close>, the emission of hard fork 8, fee percentages, transfer speeds, swarm sizes.
  \<^item> Sockets, files, SQL, LMDB, consoles, wallets' user dialogue, hardware devices, RPC dispatch, the Ethereum
    side: input and output, or calls into other programs.
  \<^item> The part of \<^verbatim>\<open>quorum_cop\<close> that decides what this node votes for, and failures of the key value store.
\<close>

text \<open>C11. Votes, \<^verbatim>\<open>quorum_cop\<close> and the table of checkpoints together: when a vote makes a node update the checkpoint at its
  height, and the checkpoint stored there before, if any, was verified, then writing the new one is
  defined, the table then holds a verified checkpoint for the block of the vote at that height, and
  no other height changes.\<close>

theorem vote_checkpoint_stored:
  assumes "lmdb_laws T" "cop_reachable H chk gq get p" "core_get_quorum c = gq"
    and "core_get_checkpoint c = get_checkpoint T s"
    and "handle_vote H chk c v p = Some (ok, vvc, p', effs)" "Update_checkpoint cp \<in> set effs"
    and "gq (quorum_type_num checkpointing) (vote_height v) = Some q" "length (validators q) \<le> CHECKPOINT_QUORUM_SIZE"
    and "vote_height v mod of_nat CHECKPOINT_INTERVAL = 0"
    and "\<forall>old. get_checkpoint T s (vote_height v) = Some old \<longrightarrow> cp_type old = service_node \<and>
           cp_height old = vote_height v \<and> (\<exists>w. verify_checkpoint chk w old q = Some True)"
  shows "\<exists>s' new. update_checkpoint T False s cp = Some (True, s') \<and> get_checkpoint T s' (vote_height v) = Some new \<and>
    cp_type new = service_node \<and> cp_height new = vote_height v \<and> cp_hash new = checkpoint_hash v \<and>
    verify_checkpoint chk version new q = Some True \<and>
    (\<forall>k. k \<noteq> vote_height v \<longrightarrow> get_checkpoint T s' k = get_checkpoint T s k)"
proof -
  note v = updated_checkpoint_valid[OF assms(2,3,5-9) assms(10)[folded assms(4)], of version]
  then have "verify_checkpoint chk version cp q = Some True" by simp
  from verified_checkpoint_stored[OF assms(1) this, of s] v obtain s' new where
    new: "update_checkpoint T False s cp = Some (True, s')" "get_checkpoint T s' (vote_height v) = Some new"
      "cp_height new = cp_height cp" "cp_hash new = cp_hash cp" "cp_signatures new = cp_signatures cp"
      "cp_type new = service_node \<longleftrightarrow> cp_type cp = service_node"
      "\<forall>k. k \<noteq> vote_height v \<longrightarrow> get_checkpoint T s' k = get_checkpoint T s k" by auto
  have ty: "cp_type cp = service_node" using v by simp
  have "verify_checkpoint chk version new q = verify_checkpoint chk version cp q"
    using new ty by (simp add: verify_checkpoint_def)
  then show ?thesis using new v ty by auto
qed


theorem vote_checkpoint_stored_witness:
  "\<exists>vvc p' cp s new. handle_vote id demo_check (demo_core 20) (demo_checkpoint_vote 12 [9])
        (demo_run 20 (\<lambda>i. demo_checkpoint_vote i [9]) [0, 1, 2, 3, 4, 5, 6, 7, 8, 9, 10, 11])
      = Some (True, vvc, p', [Update_checkpoint cp]) \<and>
     update_checkpoint map_lmdb False (demo_object 0\<lparr>m_db := Map.empty\<rparr>) cp = Some (True, s) \<and>
     get_checkpoint map_lmdb s 100 = Some new \<and> verify_checkpoint demo_check hf19_reward_batching new (demo_quorum 20) = Some True"
proof -
  let ?p = "demo_run 20 (\<lambda>i. demo_checkpoint_vote i [9]) [0, 1, 2, 3, 4, 5, 6, 7, 8, 9, 10, 11]"
  let ?v = "demo_checkpoint_vote 12 [9]" and ?s = "demo_object 0\<lparr>m_db := Map.empty\<rparr>"
  have "map_option (\<lambda>(ok, vvc, p', effs). (ok, length effs, list_all (\<lambda>e. case e of Update_checkpoint _ \<Rightarrow> True | _ \<Rightarrow> False) effs))
      (handle_vote id demo_check (demo_core 20) ?v ?p) = Some (True, 1, True)"
    by code_simp
  then obtain vvc p' cp where h: "handle_vote id demo_check (demo_core 20) ?v ?p = Some (True, vvc, p', [Update_checkpoint cp])"
    by (auto simp: length_Suc_conv split: effect.splits)
  have q: "core_get_quorum (demo_core 20) = (\<lambda>_ _. Some (demo_quorum 20))" by (simp add: demo_core_def)
  have none: "get_checkpoint map_lmdb ?s k = None" for k by (simp add: get_checkpoint_def get_block_checkpoint_def)
  have "\<exists>s' new. update_checkpoint map_lmdb False ?s cp = Some (True, s') \<and> get_checkpoint map_lmdb s' (vote_height ?v) = Some new \<and>
    cp_type new = service_node \<and> cp_height new = vote_height ?v \<and> cp_hash new = checkpoint_hash ?v \<and>
    verify_checkpoint demo_check hf19_reward_batching new (demo_quorum 20) = Some True \<and>
    (\<forall>k. k \<noteq> vote_height ?v \<longrightarrow> get_checkpoint map_lmdb s' k = get_checkpoint map_lmdb ?s k)"
  proof (rule vote_checkpoint_stored[OF map_lmdb_laws demo_run_reachable q _ h])
    show "core_get_checkpoint (demo_core 20) = get_checkpoint map_lmdb ?s"
      by (rule ext) (simp only: none, simp add: demo_core_def)
    show "length (validators (demo_quorum 20)) \<le> CHECKPOINT_QUORUM_SIZE"
      by (simp add: demo_quorum_def CHECKPOINT_QUORUM_SIZE_def)
  qed (simp_all add: none demo_checkpoint_vote_def make_checkpointing_vote_def Let_def CHECKPOINT_INTERVAL_def)
  then show ?thesis using h by (auto simp: demo_checkpoint_vote_def make_checkpointing_vote_def Let_def)
qed

end
